(* ===== verification/FC_Prelude.thy ===== *)
theory FC_Prelude
  imports Main "HOL-Library.Char_ord" "HOL-Library.List_Lexorder" "HOL-Library.Word"
begin

text \<open>
  The prelude of the FluxCache development: what every component shares.

  Go strings are byte sequences. They are modelled by \<^typ>\<open>string\<close>, whose characters are the
  256 byte values; the order on characters (theory \<open>Char_ord\<close>) is the order of the bytes and the
  order on lists (theory \<open>List_Lexorder\<close>) is the lexicographic one, which is Go's \<open><\<close> on
  strings. Go maps are partial functions. A method that can panic or block forever returns a
  \<open>res\<close>: \<^term>\<open>Inl\<close> the fault, or \<^term>\<open>Inr\<close> what the method returns.

  The theory also holds \<open>encoding/binary\<close> (big-endian numbers) and the wrap-around of \<open>int64\<close>.
\<close>

section \<open>Collections of facts\<close>

named_theorems res_simps \<open>equations of the result monad\<close>
named_theorems codec_simps \<open>lengths and round trips of byte encodings\<close>

section \<open>Faults and results\<close>

datatype fault = Panic | Deadlock

type_synonym 'a res = "fault + 'a"

type_synonym smap = "string \<rightharpoonup> string"

fun bindr :: "'a res \<Rightarrow> ('a \<Rightarrow> 'b res) \<Rightarrow> 'b res" where
  "bindr (Inl e) f = Inl e"
| "bindr (Inr x) f = f x"

lemma bindr_Inr_iff [res_simps]:
  "bindr m f = Inr y \<longleftrightarrow> (\<exists>x. m = Inr x \<and> f x = Inr y)"
  by (cases m) auto

lemma bindr_assoc [res_simps]: "bindr (bindr m f) g = bindr m (\<lambda>x. bindr (f x) g)"
  by (cases m) auto

section \<open>Maps and their iteration order\<close>

text \<open>
  Go iterates a map in an unspecified order, which may change from loop to loop. A loop over a
  map takes the order as an argument: a list that enumerates the keys without repetition.
\<close>

definition enumerates :: "'k list \<Rightarrow> ('k \<rightharpoonup> 'v) \<Rightarrow> bool" where
  "enumerates ks m \<longleftrightarrow> distinct ks \<and> set ks = dom m"

lemma enumerates_finite: "enumerates ks m \<Longrightarrow> finite (dom m)"
  by (metis enumerates_def List.finite_set)

lemma enumerates_exists: "finite (dom m) \<Longrightarrow> \<exists>ks. enumerates ks m"
  by (metis enumerates_def finite_distinct_list)

lemma enumerates_length: "enumerates ks m \<Longrightarrow> length ks = card (dom m)"
  by (metis enumerates_def distinct_card)

text \<open>
  An iteration order for every map a program may loop over. What is proved inside the locale
  holds whatever order the Go runtime picks.
\<close>

locale map_order =
  fixes ord :: "('k \<rightharpoonup> 'v) \<Rightarrow> 'k list"
  assumes ord_enumerates: "finite (dom m) \<Longrightarrow> enumerates (ord m) m"
begin

lemma set_ord: "finite (dom m) \<Longrightarrow> set (ord m) = dom m"
  using ord_enumerates by (simp add: enumerates_def)

lemma length_ord: "finite (dom m) \<Longrightarrow> length (ord m) = card (dom m)"
  using ord_enumerates enumerates_length by blast

end

definition sorted_ord :: "('k::linorder \<rightharpoonup> 'v) \<Rightarrow> 'k list" where
  "sorted_ord m = sorted_list_of_set (dom m)"

interpretation sorted_ord: map_order sorted_ord
  by unfold_locales (simp add: sorted_ord_def enumerates_def)

section \<open>Bytes: big-endian numbers\<close>

definition byte_of :: "nat \<Rightarrow> char" where
  "byte_of n = char_of (n mod 256)"

lemma of_char_byte_of [simp]: "(of_char (byte_of n) :: nat) = n mod 256"
  by (simp add: byte_of_def)

text \<open>\<open>binary.BigEndian.PutUint16\<close> and \<open>PutUint32\<close> of \<open>uint16(n)\<close> and \<open>uint32(n)\<close>.\<close>

definition put_uint16 :: "nat \<Rightarrow> string" where
  "put_uint16 n = [byte_of (n div 256), byte_of n]"

definition put_uint32 :: "nat \<Rightarrow> string" where
  "put_uint32 n = [byte_of (n div 16777216), byte_of (n div 65536), byte_of (n div 256), byte_of n]"

text \<open>\<open>binary.BigEndian.Uint16\<close> and \<open>Uint32\<close> of a slice of exactly that many bytes.\<close>

definition be_nat :: "string \<Rightarrow> nat" where
  "be_nat bs = foldl (\<lambda>a c. a * 256 + of_char c) 0 bs"

lemma length_put_uint16 [simp]: "length (put_uint16 n) = 2"
  by (simp add: put_uint16_def)

lemma length_put_uint32 [simp]: "length (put_uint32 n) = 4"
  by (simp add: put_uint32_def)

lemma be_nat_put_uint16 [codec_simps]: "be_nat (put_uint16 n) = n mod 65536"
  using mod_mult2_eq [of n 256 256] by (simp add: put_uint16_def be_nat_def)

lemma be_nat_put_uint32 [codec_simps]: "be_nat (put_uint32 n) = n mod 4294967296"
proof -
  have d: "n div 65536 = n div 256 div 256" "n div 16777216 = n div 256 div 256 div 256"
    by (simp_all flip: div_mult2_eq)
  have step: "k mod (256 * m) = (k div 256 mod m) * 256 + k mod 256" for k m :: nat
    by (subst mod_mult2_eq) (rule arg_cong2 [where f = plus, OF mult.commute refl])
  have "n mod 4294967296 = n mod (256 * (256 * (256 * 256)))"
    by (rule arg_cong [where f = "\<lambda>m. n mod m"]) simp
  also have "\<dots> = ((n div 256 div 256 div 256 mod 256 * 256 + n div 256 div 256 mod 256) * 256
      + n div 256 mod 256) * 256 + n mod 256"
    by (simp only: step)
  finally have e: "n mod 4294967296 = \<dots>" .
  show ?thesis
    by (simp only: e put_uint32_def be_nat_def d foldl.simps of_char_byte_of mult_0 add_0)
qed

section \<open>The int64 type\<close>

text \<open>\<open>wrap64 x\<close> is the two's complement value of \<open>x\<close> in 64 bits, Go's \<open>int\<close> and \<open>int64\<close>.\<close>

definition wrap64 :: "int \<Rightarrow> int" where
  "wrap64 x = (x + 9223372036854775808) mod 18446744073709551616 - 9223372036854775808"

definition min_int64 :: int where "min_int64 = - 9223372036854775808"
definition max_int64 :: int where "max_int64 = 9223372036854775807"

definition is_int64 :: "int \<Rightarrow> bool" where
  "is_int64 x \<longleftrightarrow> min_int64 \<le> x \<and> x \<le> max_int64"

lemmas int64_defs = is_int64_def min_int64_def max_int64_def

lemma wrap64_id: "is_int64 x \<Longrightarrow> wrap64 x = x"
  by (simp add: wrap64_def int64_defs)

lemma wrap64_range: "is_int64 (wrap64 x)"
proof -
  have "0 \<le> (x + 9223372036854775808) mod 18446744073709551616"
    and "(x + 9223372036854775808) mod 18446744073709551616 < 18446744073709551616"
    by simp_all
  then show ?thesis by (simp add: wrap64_def int64_defs)
qed

end
