(* ===== verification/Store_Spec.thy ===== *)
theory Store_Spec
  imports FC_Prelude "HOL-Library.Sublist"
begin

text \<open>
  The interfaces \<open>Store\<close> and \<open>OrderedStore\<close> of \<open>store/store.go\<close>.

  A Go interface value is a method table beside the receiver's state: \<open>store_ops\<close> is that
  table, over a type of states. Every method returns a \<open>res\<close>: some stores index slices, which
  can panic, and two of them can block forever on their own mutex. The abstract store is the pair of maps the interface talks about;
  the locales say what an implementation promises against it, and prove once what its clients
  rely on: a whole sequence of calls returns what the abstract store returns.
\<close>

section \<open>The method table\<close>

record 's store_ops =
  op_Set :: "string \<Rightarrow> string \<Rightarrow> 's \<Rightarrow> 's res"
  op_Get :: "string \<Rightarrow> 's \<Rightarrow> string option res"
  op_Del :: "string \<Rightarrow> 's \<Rightarrow> 's res"
  op_HSet :: "string \<Rightarrow> string \<Rightarrow> string \<Rightarrow> 's \<Rightarrow> 's res"
  op_HGet :: "string \<Rightarrow> string \<Rightarrow> 's \<Rightarrow> string option res"
  op_HGetAll :: "string \<Rightarrow> 's \<Rightarrow> smap option res"
  op_Close :: "'s \<Rightarrow> 's"

section \<open>The hash part, common to the stores\<close>

type_synonym hmap = "string \<rightharpoonup> smap"

text \<open>
  Every store keeps its hashes in a \<open>map[string]map[string]string\<close> and treats it in the same
  way; the three bodies below are repeated in each store's methods.
\<close>

definition hashes_set :: "string \<Rightarrow> string \<Rightarrow> string \<Rightarrow> hmap \<Rightarrow> hmap" where
  "hashes_set hash key val hs =
     (let hs' = (case hs hash of None \<Rightarrow> hs(hash \<mapsto> Map.empty) | Some _ \<Rightarrow> hs)
      in case hs' hash of None \<Rightarrow> hs' | Some m \<Rightarrow> hs'(hash \<mapsto> m(key \<mapsto> val)))"

definition hashes_get :: "string \<Rightarrow> string \<Rightarrow> hmap \<Rightarrow> string option" where
  "hashes_get hash key hs = (case hs hash of None \<Rightarrow> None | Some m \<Rightarrow> m key)"

definition hashes_all :: "string \<Rightarrow> hmap \<Rightarrow> smap option" where
  "hashes_all hash hs = (case hs hash of None \<Rightarrow> None | Some m \<Rightarrow> Some m)"

lemma hashes_set_apply:
  "hashes_set h k v hs h' =
     (if h' = h then Some ((case hs h of None \<Rightarrow> Map.empty | Some m \<Rightarrow> m)(k \<mapsto> v)) else hs h')"
  by (auto simp: hashes_set_def Let_def split: option.splits)

lemma hashes_get_set [simp]:
  "hashes_get h' k' (hashes_set h k v hs) =
     (if h' = h \<and> k' = k then Some v else hashes_get h' k' hs)"
  by (auto simp: hashes_get_def hashes_set_apply split: option.splits)

lemma dom_hashes_set [simp]: "dom (hashes_set h k v hs) = insert h (dom hs)"
  by (auto simp: hashes_set_apply dom_def)

lemma hashes_all_eq [simp]: "hashes_all h hs = hs h"
  by (simp add: hashes_all_def split: option.splits)

section \<open>The abstract store\<close>

record astore =
  astr :: smap
  ahash :: hmap

definition a_empty :: astore where
  "a_empty = \<lparr>astr = Map.empty, ahash = Map.empty\<rparr>"

definition a_set :: "string \<Rightarrow> string \<Rightarrow> astore \<Rightarrow> astore" where
  "a_set k v a = a\<lparr>astr := (astr a)(k \<mapsto> v)\<rparr>"

definition a_del :: "string \<Rightarrow> astore \<Rightarrow> astore" where
  "a_del k a = a\<lparr>astr := (astr a)(k := None), ahash := (ahash a)(k := None)\<rparr>"

definition a_hset :: "string \<Rightarrow> string \<Rightarrow> string \<Rightarrow> astore \<Rightarrow> astore" where
  "a_hset h k v a = a\<lparr>ahash := hashes_set h k v (ahash a)\<rparr>"

lemmas a_defs = a_empty_def a_set_def a_del_def a_hset_def

definition a_keys :: "astore \<Rightarrow> string set" where
  "a_keys a = dom (astr a) \<union> dom (ahash a)"

lemma a_keys_simps [simp]:
  "a_keys a_empty = {}"
  "a_keys (a_set k v a) = insert k (a_keys a)"
  "a_keys (a_del k a) = a_keys a - {k}"
  "a_keys (a_hset h f v a) = insert h (a_keys a)"
  by (auto simp: a_keys_def a_defs split: if_splits)

section \<open>Sequences of calls\<close>

datatype store_call =
    CSet string string | CDel string | CHSet string string string
  | CGet string | CHGet string string | CHGetAll string

datatype store_reply = RUnit | RVal "string option" | RMap "smap option"

fun call_key :: "store_call \<Rightarrow> string" where
  "call_key (CSet k v) = k"
| "call_key (CDel k) = k"
| "call_key (CHSet h k v) = h"
| "call_key (CGet k) = k"
| "call_key (CHGet h k) = h"
| "call_key (CHGetAll h) = h"

fun call :: "'s store_ops \<Rightarrow> store_call \<Rightarrow> 's \<Rightarrow> (store_reply \<times> 's) res" where
  "call ops (CSet k v) s = bindr (op_Set ops k v s) (\<lambda>s'. Inr (RUnit, s'))"
| "call ops (CDel k) s = bindr (op_Del ops k s) (\<lambda>s'. Inr (RUnit, s'))"
| "call ops (CHSet h k v) s = bindr (op_HSet ops h k v s) (\<lambda>s'. Inr (RUnit, s'))"
| "call ops (CGet k) s = bindr (op_Get ops k s) (\<lambda>x. Inr (RVal x, s))"
| "call ops (CHGet h k) s = bindr (op_HGet ops h k s) (\<lambda>x. Inr (RVal x, s))"
| "call ops (CHGetAll h) s = bindr (op_HGetAll ops h s) (\<lambda>x. Inr (RMap x, s))"

fun calls :: "'s store_ops \<Rightarrow> store_call list \<Rightarrow> 's \<Rightarrow> (store_reply list \<times> 's) res" where
  "calls ops [] s = Inr ([], s)"
| "calls ops (c # cs) s =
     bindr (call ops c s) (\<lambda>(r, s'). bindr (calls ops cs s') (\<lambda>(rs, s''). Inr (r # rs, s'')))"

fun a_call :: "store_call \<Rightarrow> astore \<Rightarrow> store_reply \<times> astore" where
  "a_call (CSet k v) a = (RUnit, a_set k v a)"
| "a_call (CDel k) a = (RUnit, a_del k a)"
| "a_call (CHSet h k v) a = (RUnit, a_hset h k v a)"
| "a_call (CGet k) a = (RVal (astr a k), a)"
| "a_call (CHGet h k) a = (RVal (hashes_get h k (ahash a)), a)"
| "a_call (CHGetAll h) a = (RMap (ahash a h), a)"

fun a_calls :: "store_call list \<Rightarrow> astore \<Rightarrow> store_reply list \<times> astore" where
  "a_calls [] a = ([], a)"
| "a_calls (c # cs) a =
     (let (r, a') = a_call c a; (rs, a'') = a_calls cs a' in (r # rs, a''))"

section \<open>What an implementation promises\<close>

text \<open>
  \<open>invar\<close> is the implementation's representation invariant, \<open>abst\<close> its abstraction to the pair of
  maps, \<open>okkey\<close> the keys it supports (all of them, for every store but one). The laws are about
  calls that return; \<open>total_store\<close> adds that every call does.
\<close>

locale store_impl =
  fixes ops :: "'s store_ops"
    and invar :: "'s \<Rightarrow> bool"
    and abst :: "'s \<Rightarrow> astore"
    and okkey :: "string \<Rightarrow> bool"
  assumes Set_law: "invar s \<Longrightarrow> okkey k \<Longrightarrow> op_Set ops k v s = Inr s' \<Longrightarrow>
      invar s' \<and> abst s' = a_set k v (abst s)"
    and Del_law: "invar s \<Longrightarrow> okkey k \<Longrightarrow> op_Del ops k s = Inr s' \<Longrightarrow>
      invar s' \<and> abst s' = a_del k (abst s)"
    and HSet_law: "invar s \<Longrightarrow> okkey h \<Longrightarrow> op_HSet ops h f v s = Inr s' \<Longrightarrow>
      invar s' \<and> abst s' = a_hset h f v (abst s)"
    and Get_law: "invar s \<Longrightarrow> okkey k \<Longrightarrow> op_Get ops k s = Inr (astr (abst s) k)"
    and HGet_law: "invar s \<Longrightarrow> okkey h \<Longrightarrow> op_HGet ops h f s = Inr (hashes_get h f (ahash (abst s)))"
    and HGetAll_law: "invar s \<Longrightarrow> okkey h \<Longrightarrow> op_HGetAll ops h s = Inr (ahash (abst s) h)"
    and Close_law: "invar s \<Longrightarrow> invar (op_Close ops s) \<and> abst (op_Close ops s) = abst s"
begin

lemma call_refines:
  assumes "invar s" and "okkey (call_key c)" and "call ops c s = Inr (r, s')"
  shows "invar s' \<and> a_call c (abst s) = (r, abst s')"
  using assms
  by (cases c)
    (auto simp: res_simps Get_law HGet_law HGetAll_law dest: Set_law Del_law HSet_law)

lemma calls_refine:
  assumes "invar s" and "\<forall>c \<in> set cs. okkey (call_key c)" and "calls ops cs s = Inr (rs, s')"
  shows "invar s' \<and> a_calls cs (abst s) = (rs, abst s')"
  using assms
proof (induction cs arbitrary: s rs)
  case Nil
  then show ?case by simp
next
  case (Cons c cs)
  from Cons.prems obtain r s1 rs1 where
    c: "call ops c s = Inr (r, s1)" and cs: "calls ops cs s1 = Inr (rs1, s')" and "rs = r # rs1"
    by (auto simp: res_simps)
  have "invar s1 \<and> a_call c (abst s) = (r, abst s1)"
    using call_refines [OF Cons.prems(1) _ c] Cons.prems(2) by simp
  moreover then have "invar s' \<and> a_calls cs (abst s1) = (rs1, abst s')"
    using Cons.IH [OF _ _ cs] Cons.prems(2) by simp
  ultimately show ?case using \<open>rs = r # rs1\<close> by simp
qed

end

locale total_store = store_impl +
  assumes Set_total: "invar s \<Longrightarrow> okkey k \<Longrightarrow> \<exists>s'. op_Set ops k v s = Inr s'"
    and Del_total: "invar s \<Longrightarrow> okkey k \<Longrightarrow> \<exists>s'. op_Del ops k s = Inr s'"
    and HSet_total: "invar s \<Longrightarrow> okkey h \<Longrightarrow> \<exists>s'. op_HSet ops h f v s = Inr s'"
begin

lemma call_total:
  assumes "invar s" and "okkey (call_key c)"
  shows "\<exists>r s'. call ops c s = Inr (r, s')"
  using assms Set_total Del_total HSet_total
  by (cases c) (fastforce simp: res_simps Get_law HGet_law HGetAll_law)+

lemma calls_total:
  assumes "invar s" and "\<forall>c \<in> set cs. okkey (call_key c)"
  shows "\<exists>rs s'. calls ops cs s = Inr (rs, s')"
  using assms
proof (induction cs arbitrary: s)
  case Nil
  then show ?case by simp
next
  case (Cons c cs)
  then obtain r s1 where c: "call ops c s = Inr (r, s1)"
    using call_total by fastforce
  then have "invar s1"
    using call_refines [OF Cons.prems(1) _ c] Cons.prems(2) by simp
  then obtain rs s' where "calls ops cs s1 = Inr (rs, s')"
    using Cons by fastforce
  with c show ?case by simp
qed

lemma calls_correct:
  assumes "invar s" and "\<forall>c \<in> set cs. okkey (call_key c)"
  shows "\<exists>s'. calls ops cs s = Inr (fst (a_calls cs (abst s)), s')
    \<and> invar s' \<and> abst s' = snd (a_calls cs (abst s))"
proof -
  obtain rs s' where "calls ops cs s = Inr (rs, s')"
    using calls_total [OF assms] by blast
  then show ?thesis using calls_refine [OF assms] by auto
qed

end

section \<open>Ordered stores\<close>

text \<open>
  \<open>OrderedStore\<close> adds the two ordered listings. Both must return, in increasing order and
  without repetition, exactly the string keys with the prefix, or in the closed range.
\<close>

definition sorted_keys :: "(string \<Rightarrow> bool) \<Rightarrow> smap \<Rightarrow> string list \<Rightarrow> bool" where
  "sorted_keys P m ks \<longleftrightarrow> sorted_wrt (<) ks \<and> set ks = {k \<in> dom m. P k}"

lemma sorted_keys_unique:
  assumes "sorted_keys P m ks" and "sorted_keys P m ks'"
  shows "ks = ks'"
  using assms strict_sorted_equal [of ks ks'] by (simp add: sorted_keys_def)

text \<open>The keys with a given prefix follow each other in the order of strings.\<close>

lemma prefix_le: "prefix p k \<Longrightarrow> p \<le> (k :: string)"
proof (induction p arbitrary: k)
  case (Cons c p)
  then show ?case by (cases k) auto
qed simp

lemma prefix_between: "p \<le> k \<Longrightarrow> k \<le> k' \<Longrightarrow> prefix p k' \<Longrightarrow> prefix p (k :: string)"
proof (induction p arbitrary: k k')
  case (Cons c p)
  then show ?case by (cases k; cases k') auto
qed simp

text \<open>Listing by a walk through all keys in increasing order, from the first one that is not too small.\<close>

lemma dropWhile_sorted:
  assumes "sorted_wrt (<) (ks :: string list)"
  shows "set (dropWhile (\<lambda>k. k < lo) ks) = {k \<in> set ks. lo \<le> k} \<and> sorted_wrt (<) (dropWhile (\<lambda>k. k < lo) ks)"
  using assms by (induction ks) (auto simp: not_less)

lemma takeWhile_sorted:
  assumes "sorted_wrt (<) (ks :: string list)"
    and "\<And>k k'. k \<in> set ks \<Longrightarrow> k' \<in> set ks \<Longrightarrow> k < k' \<Longrightarrow> P k' \<Longrightarrow> P k"
  shows "set (takeWhile P ks) = {k \<in> set ks. P k} \<and> sorted_wrt (<) (takeWhile P ks)"
  using assms
proof (induction ks)
  case (Cons k ks)
  then show ?case by (auto dest: set_takeWhileD)
qed simp

lemma prefix_listing:
  assumes "sorted_wrt (<) ks" and "set ks = dom m"
  shows "sorted_keys (\<lambda>k. prefix p k) m (takeWhile (prefix p) (dropWhile (\<lambda>k. k < p) ks))"
proof -
  let ?ds = "dropWhile (\<lambda>k. k < p) ks"
  note d = dropWhile_sorted [OF assms(1), of p]
  have "prefix p k" if "k \<in> set ?ds" "k < k'" "prefix p k'" for k k'
    using that d by (intro prefix_between [of p k k']) auto
  then have "set (takeWhile (prefix p) ?ds) = {k \<in> set ?ds. prefix p k} \<and> sorted_wrt (<) (takeWhile (prefix p) ?ds)"
    using d by (intro takeWhile_sorted) auto
  then show ?thesis using assms(2) d by (auto simp: sorted_keys_def dest: prefix_le)
qed

lemma range_listing:
  assumes "sorted_wrt (<) ks" and "set ks = dom m"
  shows "sorted_keys (\<lambda>k. lo \<le> k \<and> k \<le> hi) m
    (filter (\<lambda>k. lo \<le> k) (takeWhile (\<lambda>k. k \<le> hi) (dropWhile (\<lambda>k. k < lo) ks)))"
proof -
  note d = dropWhile_sorted [OF assms(1), of lo]
  have "set (takeWhile (\<lambda>k. k \<le> hi) (dropWhile (\<lambda>k. k < lo) ks)) = {k \<in> {k \<in> set ks. lo \<le> k}. k \<le> hi}
      \<and> sorted_wrt (<) (takeWhile (\<lambda>k. k \<le> hi) (dropWhile (\<lambda>k. k < lo) ks))"
    using takeWhile_sorted [OF conjunct2 [OF d], of "\<lambda>k. k \<le> hi"] d by auto
  then show ?thesis using assms(2) by (auto simp: sorted_keys_def intro: sorted_wrt_filter)
qed

locale ordered_store = store_impl +
  fixes prefixKeys :: "string \<Rightarrow> 's \<Rightarrow> string list res"
    and rangeKeys :: "string \<Rightarrow> string \<Rightarrow> 's \<Rightarrow> string list res"
  assumes PrefixKeys_law: "invar s \<Longrightarrow> okkey p \<Longrightarrow>
      \<exists>ks. prefixKeys p s = Inr ks \<and> sorted_keys (\<lambda>k. prefix p k) (astr (abst s)) ks"
    and RangeKeys_law: "invar s \<Longrightarrow> okkey lo \<Longrightarrow> okkey hi \<Longrightarrow>
      \<exists>ks. rangeKeys lo hi s = Inr ks \<and> sorted_keys (\<lambda>k. lo \<le> k \<and> k \<le> hi) (astr (abst s)) ks"
begin

text \<open>The listings agree with \<open>Get\<close>.\<close>

lemma prefix_listing_found:
  assumes "invar s" and "okkey p"
  shows "\<exists>ks. prefixKeys p s = Inr ks \<and> sorted_wrt (<) ks
    \<and> (\<forall>k. okkey k \<longrightarrow> k \<in> set ks \<longleftrightarrow> prefix p k \<and> op_Get ops k s \<noteq> Inr None)"
  using PrefixKeys_law [OF assms] Get_law [OF assms(1)] by (fastforce simp: sorted_keys_def)

lemma range_listing_found:
  assumes "invar s" and "okkey lo" and "okkey hi"
  shows "\<exists>ks. rangeKeys lo hi s = Inr ks \<and> sorted_wrt (<) ks
    \<and> (\<forall>k. okkey k \<longrightarrow> k \<in> set ks \<longleftrightarrow> lo \<le> k \<and> k \<le> hi \<and> op_Get ops k s \<noteq> Inr None)"
  using RangeKeys_law [OF assms] Get_law [OF assms(1)] by (fastforce simp: sorted_keys_def)

end

end
