(* ===== verification/Map_Store.thy ===== *)
theory Map_Store
  imports Store_Spec
begin

text \<open>
  \<open>MapStore\<close> (\<open>store/map.go\<close>): two Go maps under one \<open>sync.RWMutex\<close>. Each method holds the mutex
  for its whole body and releases it on every path, so a method is one atomic step on the maps.
\<close>

record MapStore =
  ms_strings :: smap
  ms_hashes :: hmap

definition NewMapStore :: MapStore where
  "NewMapStore = \<lparr>ms_strings = Map.empty, ms_hashes = Map.empty\<rparr>"

definition MapStore_Set :: "string \<Rightarrow> string \<Rightarrow> MapStore \<Rightarrow> MapStore" where
  "MapStore_Set key val s = s\<lparr>ms_strings := (ms_strings s)(key \<mapsto> val)\<rparr>"

definition MapStore_Del :: "string \<Rightarrow> MapStore \<Rightarrow> MapStore" where
  "MapStore_Del key s =
     s\<lparr>ms_strings := (ms_strings s)(key := None), ms_hashes := (ms_hashes s)(key := None)\<rparr>"

definition MapStore_Get :: "string \<Rightarrow> MapStore \<Rightarrow> string option" where
  "MapStore_Get key s = ms_strings s key"

definition MapStore_HSet :: "string \<Rightarrow> string \<Rightarrow> string \<Rightarrow> MapStore \<Rightarrow> MapStore" where
  "MapStore_HSet hash key val s = s\<lparr>ms_hashes := hashes_set hash key val (ms_hashes s)\<rparr>"

definition MapStore_HGet :: "string \<Rightarrow> string \<Rightarrow> MapStore \<Rightarrow> string option" where
  "MapStore_HGet hash key s = hashes_get hash key (ms_hashes s)"

definition MapStore_HGetAll :: "string \<Rightarrow> MapStore \<Rightarrow> smap option" where
  "MapStore_HGetAll hash s = hashes_all hash (ms_hashes s)"

lemmas MapStore_defs = NewMapStore_def MapStore_Set_def MapStore_Del_def MapStore_Get_def
  MapStore_HSet_def MapStore_HGet_def MapStore_HGetAll_def

definition MapStore_ops :: "MapStore store_ops" where
  "MapStore_ops = \<lparr>op_Set = \<lambda>k v s. Inr (MapStore_Set k v s), op_Get = \<lambda>k s. Inr (MapStore_Get k s),
     op_Del = \<lambda>k s. Inr (MapStore_Del k s), op_HSet = \<lambda>h k v s. Inr (MapStore_HSet h k v s),
     op_HGet = \<lambda>h k s. Inr (MapStore_HGet h k s),
     op_HGetAll = \<lambda>h s. Inr (MapStore_HGetAll h s), op_Close = \<lambda>s. s\<rparr>"

definition MapStore_abs :: "MapStore \<Rightarrow> astore" where
  "MapStore_abs s = \<lparr>astr = ms_strings s, ahash = ms_hashes s\<rparr>"

lemma MapStore_abs_New [simp]: "MapStore_abs NewMapStore = a_empty"
  by (simp add: MapStore_abs_def NewMapStore_def a_empty_def)

interpretation mapst: total_store MapStore_ops "\<lambda>_. True" MapStore_abs "\<lambda>_. True"
  by unfold_locales (auto simp: MapStore_ops_def MapStore_abs_def MapStore_defs a_defs)

end
