(* ===== verification/Sync_Map_Store.thy ===== *)
theory Sync_Map_Store
  imports Store_Spec
begin

text \<open>
  \<open>SyncMapStore\<close> (\<open>store/syncmap.go\<close>): a \<open>sync.Map\<close> of strings and a \<open>sync.Map\<close> of pointers to
  inner \<open>sync.Map\<close>s, one for each hash. The operations of \<open>sync.Map\<close> that the store calls are
  modelled below by what its documentation promises of each as one atomic step. A pointer to an
  inner map is an address, so that \<open>LoadOrStore\<close> allocates a fresh inner map on every call, as
  the code does, and keeps it only when the hash is new.
\<close>

section \<open>sync.Map\<close>

definition sm_LoadOrStore :: "'k \<Rightarrow> 'v \<Rightarrow> ('k \<rightharpoonup> 'v) \<Rightarrow> 'v \<times> ('k \<rightharpoonup> 'v)" where
  "sm_LoadOrStore k v m = (case m k of Some x \<Rightarrow> (x, m) | None \<Rightarrow> (v, m(k \<mapsto> v)))"

section \<open>The store\<close>

record SyncMapStore =
  sy_strings :: smap
  sy_hashes :: "string \<rightharpoonup> nat"
  sy_heap :: "nat \<Rightarrow> smap"
  sy_next :: nat

definition NewSyncMapStore :: SyncMapStore where
  "NewSyncMapStore =
     \<lparr>sy_strings = Map.empty, sy_hashes = Map.empty, sy_heap = (\<lambda>_. Map.empty), sy_next = 0\<rparr>"

definition SyncMapStore_Set :: "string \<Rightarrow> string \<Rightarrow> SyncMapStore \<Rightarrow> SyncMapStore" where
  "SyncMapStore_Set key val s = s\<lparr>sy_strings := (sy_strings s)(key \<mapsto> val)\<rparr>"

definition SyncMapStore_Del :: "string \<Rightarrow> SyncMapStore \<Rightarrow> SyncMapStore" where
  "SyncMapStore_Del key s =
     s\<lparr>sy_strings := (sy_strings s)(key := None), sy_hashes := (sy_hashes s)(key := None)\<rparr>"

definition SyncMapStore_Get :: "string \<Rightarrow> SyncMapStore \<Rightarrow> string option" where
  "SyncMapStore_Get key s =
     (case sy_strings s key of None \<Rightarrow> None | Some str \<Rightarrow> Some str)"

definition SyncMapStore_HSet :: "string \<Rightarrow> string \<Rightarrow> string \<Rightarrow> SyncMapStore \<Rightarrow> SyncMapStore" where
  "SyncMapStore_HSet hash key val s =
     (let fresh = sy_next s;
          heap = (sy_heap s)(fresh := Map.empty);
          (h, hs) = sm_LoadOrStore hash fresh (sy_hashes s)
      in s\<lparr>sy_hashes := hs, sy_heap := heap(h := (heap h)(key \<mapsto> val)), sy_next := Suc fresh\<rparr>)"

definition SyncMapStore_HGet :: "string \<Rightarrow> string \<Rightarrow> SyncMapStore \<Rightarrow> string option" where
  "SyncMapStore_HGet hash key s =
     (case sy_hashes s hash of
        None \<Rightarrow> None
      | Some h \<Rightarrow> (case sy_heap s h key of None \<Rightarrow> None | Some str \<Rightarrow> Some str))"

text \<open>\<open>Range\<close> visits every entry once; the copy it builds does not depend on the order.\<close>

definition range_copy :: "string list \<Rightarrow> smap \<Rightarrow> smap" where
  "range_copy ks m =
     foldl (\<lambda>out k. case m k of None \<Rightarrow> out | Some v \<Rightarrow> out(k \<mapsto> v)) Map.empty ks"

definition SyncMapStore_HGetAll ::
    "(smap \<Rightarrow> string list) \<Rightarrow> string \<Rightarrow> SyncMapStore \<Rightarrow> smap option" where
  "SyncMapStore_HGetAll ord hash s =
     (case sy_hashes s hash of
        None \<Rightarrow> None
      | Some h \<Rightarrow> Some (range_copy (ord (sy_heap s h)) (sy_heap s h)))"

lemma range_copy_aux:
  "foldl (\<lambda>out k. case m k of None \<Rightarrow> out | Some v \<Rightarrow> out(k \<mapsto> v)) out ks k
     = (if k \<in> set ks \<and> m k \<noteq> None then m k else out k)"
  by (induction ks arbitrary: out) (auto split: option.splits)

lemma range_copy_eq:
  assumes "enumerates ks m"
  shows "range_copy ks m = m"
proof
  fix k
  show "range_copy ks m k = m k"
    using assms
    by (cases "m k") (auto simp: range_copy_def range_copy_aux enumerates_def)
qed

lemmas SyncMapStore_defs = NewSyncMapStore_def SyncMapStore_Set_def SyncMapStore_Del_def
  SyncMapStore_Get_def SyncMapStore_HSet_def SyncMapStore_HGet_def SyncMapStore_HGetAll_def
  sm_LoadOrStore_def

definition SyncMapStore_ops :: "(smap \<Rightarrow> string list) \<Rightarrow> SyncMapStore store_ops" where
  "SyncMapStore_ops ord =
     \<lparr>op_Set = \<lambda>k v s. Inr (SyncMapStore_Set k v s),
      op_Get = \<lambda>k s. Inr (SyncMapStore_Get k s),
      op_Del = \<lambda>k s. Inr (SyncMapStore_Del k s),
      op_HSet = \<lambda>h k v s. Inr (SyncMapStore_HSet h k v s),
      op_HGet = \<lambda>h k s. Inr (SyncMapStore_HGet h k s),
      op_HGetAll = \<lambda>h s. Inr (SyncMapStore_HGetAll ord h s), op_Close = \<lambda>s. s\<rparr>"

section \<open>Refinement\<close>

text \<open>
  The inner maps of different hashes never share an address, every address in use is allocated,
  and every inner map is finite: without the first two an \<open>HSet\<close> could write into another hash.
\<close>

definition SyncMapStore_inv :: "SyncMapStore \<Rightarrow> bool" where
  "SyncMapStore_inv s \<longleftrightarrow>
     (\<forall>h p. sy_hashes s h = Some p \<longrightarrow> p < sy_next s)
     \<and> (\<forall>h h' p. sy_hashes s h = Some p \<and> sy_hashes s h' = Some p \<longrightarrow> h = h')
     \<and> (\<forall>p. finite (dom (sy_heap s p)))"

definition SyncMapStore_abs :: "SyncMapStore \<Rightarrow> astore" where
  "SyncMapStore_abs s =
     \<lparr>astr = sy_strings s, ahash = (\<lambda>h. map_option (sy_heap s) (sy_hashes s h))\<rparr>"

lemma SyncMapStore_New:
  "SyncMapStore_inv NewSyncMapStore \<and> SyncMapStore_abs NewSyncMapStore = a_empty"
  by (simp add: SyncMapStore_inv_def SyncMapStore_abs_def NewSyncMapStore_def a_empty_def)

lemma SyncMapStore_HSet_inv:
  assumes "SyncMapStore_inv s"
  shows "SyncMapStore_inv (SyncMapStore_HSet h k v s)"
  using assms unfolding SyncMapStore_inv_def SyncMapStore_HSet_def sm_LoadOrStore_def
  by (cases "sy_hashes s h") (auto simp: Let_def less_Suc_eq)

lemma SyncMapStore_HSet_abs:
  assumes "SyncMapStore_inv s"
  shows "SyncMapStore_abs (SyncMapStore_HSet h k v s) = a_hset h k v (SyncMapStore_abs s)"
proof -
  have alloc: "sy_hashes s h' \<noteq> Some (sy_next s)" for h'
    using assms by (fastforce simp: SyncMapStore_inv_def)
  have own: "sy_hashes s h' = Some p \<Longrightarrow> sy_hashes s h'' = Some p \<Longrightarrow> h' = h''" for h' h'' p
    using assms by (auto simp: SyncMapStore_inv_def)
  have "map_option (sy_heap (SyncMapStore_HSet h k v s)) (sy_hashes (SyncMapStore_HSet h k v s) h')
      = hashes_set h k v (\<lambda>h. map_option (sy_heap s) (sy_hashes s h)) h'" for h'
    using alloc [of h] alloc [of h'] own [of h _ h']
    by (cases "sy_hashes s h'"; cases "sy_hashes s h")
      (auto simp: SyncMapStore_HSet_def sm_LoadOrStore_def hashes_set_apply Let_def)
  then show ?thesis
    by (simp add: SyncMapStore_abs_def a_hset_def fun_eq_iff)
      (simp add: SyncMapStore_HSet_def Let_def split: prod.splits)
qed

lemma SyncMapStore_update_laws:
  assumes "SyncMapStore_inv s"
  shows "SyncMapStore_inv (SyncMapStore_Set k v s)"
    and "SyncMapStore_abs (SyncMapStore_Set k v s) = a_set k v (SyncMapStore_abs s)"
    and "SyncMapStore_inv (SyncMapStore_Del k s)"
    and "SyncMapStore_abs (SyncMapStore_Del k s) = a_del k (SyncMapStore_abs s)"
  using assms
  by (auto simp: SyncMapStore_inv_def SyncMapStore_abs_def SyncMapStore_Set_def
      SyncMapStore_Del_def a_defs split: if_splits)

lemma SyncMapStore_read_laws:
  "SyncMapStore_Get k s = astr (SyncMapStore_abs s) k"
  "SyncMapStore_HGet h f s = hashes_get h f (ahash (SyncMapStore_abs s))"
  by (auto simp: SyncMapStore_abs_def SyncMapStore_Get_def SyncMapStore_HGet_def hashes_get_def
      split: option.splits)

text \<open>Whatever order \<open>Range\<close> visits the entries in, the store refines the abstract one.\<close>

locale smap_order = map_order ord for ord :: "smap \<Rightarrow> string list"

sublocale smap_order \<subseteq> syncst: total_store "SyncMapStore_ops ord"
    SyncMapStore_inv SyncMapStore_abs "\<lambda>_. True"
proof unfold_locales
  fix s :: SyncMapStore and h :: string
  assume "SyncMapStore_inv s"
  then show "op_HGetAll (SyncMapStore_ops ord) h s = Inr (ahash (SyncMapStore_abs s) h)"
    by (auto simp: SyncMapStore_ops_def SyncMapStore_HGetAll_def SyncMapStore_abs_def
        SyncMapStore_inv_def range_copy_eq ord_enumerates split: option.splits)
qed (auto simp: SyncMapStore_ops_def SyncMapStore_read_laws SyncMapStore_update_laws
    SyncMapStore_HSet_inv SyncMapStore_HSet_abs)

context smap_order
begin

lemma new_calls:
  "\<exists>s'. calls (SyncMapStore_ops ord) cs NewSyncMapStore = Inr (fst (a_calls cs a_empty), s')
    \<and> SyncMapStore_abs s' = snd (a_calls cs a_empty)"
  using syncst.calls_correct [of NewSyncMapStore cs] SyncMapStore_New by auto

end

interpretation sorted_smap: smap_order sorted_ord
  by unfold_locales

section \<open>Properties\<close>

text \<open>
  in whatever order \<open>Range\<close> visits a map, every reply and the final contents of any sequence of
  calls on a new \<open>SyncMapStore\<close> are those of the abstract store; \<open>HGetAll\<close> copies every field.
\<close>

theorem sync_map_store_correct:
  assumes "\<And>m. finite (dom m) \<Longrightarrow> enumerates (ord m) m"
  shows "\<exists>s'. calls (SyncMapStore_ops ord) cs NewSyncMapStore = Inr (fst (a_calls cs a_empty), s')
    \<and> SyncMapStore_abs s' = snd (a_calls cs a_empty)"
proof -
  have "smap_order ord" by unfold_locales (rule assms)
  then show ?thesis by (rule smap_order.new_calls)
qed

theorem sync_map_store_correct_witness:
  "\<exists>s'. calls (SyncMapStore_ops sorted_ord) [CHSet ''h'' ''f'' ''x'', CHGetAll ''h''] NewSyncMapStore
      = Inr (fst (a_calls [CHSet ''h'' ''f'' ''x'', CHGetAll ''h''] a_empty), s')
    \<and> SyncMapStore_abs s' = snd (a_calls [CHSet ''h'' ''f'' ''x'', CHGetAll ''h''] a_empty)"
  by (rule sync_map_store_correct) (rule sorted_ord.ord_enumerates)

end
