(* ===== verification/Sharded_Store.thy ===== *)
theory Sharded_Store
  imports Store_Spec
begin

unbundle bit_operations_syntax

text \<open>
  \<open>ShardedStore\<close> (\<open>store/sharded.go\<close>): a slice of shards, each with its own maps and mutex, the
  shard of a key chosen by the low bits of its 64-bit FNV-1a hash. Hash and mask are 64-bit words.
  Indexing the slice out of range would panic; the refinement shows that it never happens.
\<close>

section \<open>hash/fnv\<close>

text \<open>\<open>fnv.New64a\<close>, \<open>Write\<close>, \<open>Sum64\<close>: xor the byte in, then multiply by the prime.\<close>

definition fnv64a :: "string \<Rightarrow> 64 word" where
  "fnv64a bs = foldl (\<lambda>h c. (h XOR word_of_nat (of_char c)) * 1099511628211)
     14695981039346656037 bs"

definition slot :: "64 word \<Rightarrow> string \<Rightarrow> nat" where
  "slot msk key = unat (fnv64a key AND msk)"

lemma slot_in_range:
  assumes "0 < n" and "n \<le> 2 ^ 63" and "msk = word_of_nat (n - 1)"
  shows "slot msk key < n"
proof -
  have "slot msk key \<le> unat msk"
    unfolding slot_def by (rule word_and_le1 [THEN word_le_nat_alt [THEN iffD1]])
  also have "\<dots> = n - 1"
    using assms by (simp only: unsigned_of_nat of_nat_id) (simp add: take_bit_nat_eq_self)
  finally show ?thesis using assms(1) by simp
qed

section \<open>The store\<close>

record shard =
  sh_strings :: smap
  sh_hashes :: hmap

record ShardedStore =
  ss_shards :: "shard list"
  ss_mask :: "64 word"

definition empty_shard :: shard where
  "empty_shard = \<lparr>sh_strings = Map.empty, sh_hashes = Map.empty\<rparr>"

definition NewShardedStore :: "int \<Rightarrow> ShardedStore" where
  "NewShardedStore shardCount =
     (let n = (if shardCount \<le> 0 then 256 else shardCount)
      in \<lparr>ss_shards = replicate (nat n) empty_shard, ss_mask = word_of_int (n - 1)\<rparr>)"

definition getShard :: "string \<Rightarrow> ShardedStore \<Rightarrow> nat res" where
  "getShard key s =
     (let i = slot (ss_mask s) key in if i < length (ss_shards s) then Inr i else Inl Panic)"

text \<open>A method locks the shard it found, works on that shard's maps and unlocks it.\<close>

definition ShardedStore_Set :: "string \<Rightarrow> string \<Rightarrow> ShardedStore \<Rightarrow> ShardedStore res" where
  "ShardedStore_Set key val s = bindr (getShard key s) (\<lambda>i.
     let sh = ss_shards s ! i
     in Inr (s\<lparr>ss_shards := (ss_shards s)[i := sh\<lparr>sh_strings := (sh_strings sh)(key \<mapsto> val)\<rparr>]\<rparr>))"

definition ShardedStore_Del :: "string \<Rightarrow> ShardedStore \<Rightarrow> ShardedStore res" where
  "ShardedStore_Del key s = bindr (getShard key s) (\<lambda>i.
     let sh = ss_shards s ! i
     in Inr (s\<lparr>ss_shards := (ss_shards s)[i := sh\<lparr>sh_strings := (sh_strings sh)(key := None),
          sh_hashes := (sh_hashes sh)(key := None)\<rparr>]\<rparr>))"

definition ShardedStore_Get :: "string \<Rightarrow> ShardedStore \<Rightarrow> string option res" where
  "ShardedStore_Get key s =
     bindr (getShard key s) (\<lambda>i. Inr (sh_strings (ss_shards s ! i) key))"

definition ShardedStore_HSet ::
    "string \<Rightarrow> string \<Rightarrow> string \<Rightarrow> ShardedStore \<Rightarrow> ShardedStore res" where
  "ShardedStore_HSet hash key val s = bindr (getShard hash s) (\<lambda>i.
     let sh = ss_shards s ! i
     in Inr (s\<lparr>ss_shards := (ss_shards s)[i :=
          sh\<lparr>sh_hashes := hashes_set hash key val (sh_hashes sh)\<rparr>]\<rparr>))"

definition ShardedStore_HGet :: "string \<Rightarrow> string \<Rightarrow> ShardedStore \<Rightarrow> string option res" where
  "ShardedStore_HGet hash key s =
     bindr (getShard hash s) (\<lambda>i. Inr (hashes_get hash key (sh_hashes (ss_shards s ! i))))"

definition ShardedStore_HGetAll :: "string \<Rightarrow> ShardedStore \<Rightarrow> smap option res" where
  "ShardedStore_HGetAll hash s =
     bindr (getShard hash s) (\<lambda>i. Inr (hashes_all hash (sh_hashes (ss_shards s ! i))))"

lemmas ShardedStore_defs = ShardedStore_Set_def ShardedStore_Del_def ShardedStore_Get_def
  ShardedStore_HSet_def ShardedStore_HGet_def ShardedStore_HGetAll_def

definition ShardedStore_ops :: "ShardedStore store_ops" where
  "ShardedStore_ops = \<lparr>op_Set = ShardedStore_Set, op_Get = ShardedStore_Get,
     op_Del = ShardedStore_Del, op_HSet = ShardedStore_HSet, op_HGet = ShardedStore_HGet,
     op_HGetAll = ShardedStore_HGetAll, op_Close = \<lambda>s. s\<rparr>"

section \<open>Refinement\<close>

text \<open>
  The mask is one less than the number of shards, so a slot is always in range: \<open>h & mask\<close> is at
  most the mask, also when the number of shards is not a power of two (then some shards stay
  empty, but no key is lost).
\<close>

definition ShardedStore_inv :: "ShardedStore \<Rightarrow> bool" where
  "ShardedStore_inv s \<longleftrightarrow> 0 < length (ss_shards s) \<and> length (ss_shards s) \<le> 2 ^ 63
     \<and> ss_mask s = word_of_nat (length (ss_shards s) - 1)"

definition shard_of :: "ShardedStore \<Rightarrow> string \<Rightarrow> shard" where
  "shard_of s key = ss_shards s ! slot (ss_mask s) key"

definition ShardedStore_abs :: "ShardedStore \<Rightarrow> astore" where
  "ShardedStore_abs s =
     \<lparr>astr = (\<lambda>k. sh_strings (shard_of s k) k), ahash = (\<lambda>h. sh_hashes (shard_of s h) h)\<rparr>"

lemma slot_less: "ShardedStore_inv s \<Longrightarrow> slot (ss_mask s) key < length (ss_shards s)"
  by (rule slot_in_range) (simp_all only: ShardedStore_inv_def)

lemma getShard_ok: "ShardedStore_inv s \<Longrightarrow> getShard key s = Inr (slot (ss_mask s) key)"
  by (simp add: getShard_def slot_less)

lemma shards_New:
  assumes "is_int64 n"
  shows "\<exists>m. 0 < m \<and> m \<le> 2 ^ 63 \<and> ss_shards (NewShardedStore n) = replicate m empty_shard
    \<and> ss_mask (NewShardedStore n) = word_of_nat (m - 1)"
proof -
  define k where "k = (if n \<le> 0 then 256 else n)"
  have k: "0 < k" "k \<le> 2 ^ 63" using assms by (auto simp: k_def int64_defs)
  then have "k - 1 = int (nat k - 1)" by simp
  then have "word_of_int (k - 1) = (word_of_nat (nat k - 1) :: 64 word)"
    by (simp only: of_int_of_nat_eq)
  then show ?thesis
    using k by (intro exI [of _ "nat k"]) (simp add: NewShardedStore_def k_def [symmetric] Let_def)
qed

lemma NewShardedStore_inv: "is_int64 n \<Longrightarrow> ShardedStore_inv (NewShardedStore n)"
  using shards_New [of n] by (auto simp: ShardedStore_inv_def simp del: of_nat_diff)

lemma NewShardedStore_abs:
  assumes "is_int64 n"
  shows "ShardedStore_abs (NewShardedStore n) = a_empty"
proof -
  have "shard_of (NewShardedStore n) k = empty_shard" for k
    using shards_New [OF assms] slot_less [OF NewShardedStore_inv [OF assms], of k]
    by (auto simp: shard_of_def)
  then show ?thesis
    by (simp add: ShardedStore_abs_def a_empty_def empty_shard_def)
qed

text \<open>Replacing the shard of a key changes no other shard.\<close>

lemma shard_of_update:
  assumes "ShardedStore_inv s"
  shows "shard_of (s\<lparr>ss_shards := (ss_shards s)[slot (ss_mask s) k := sh]\<rparr>) k' =
    (if slot (ss_mask s) k' = slot (ss_mask s) k then sh else shard_of s k')"
  using slot_less [OF assms] by (auto simp: shard_of_def nth_list_update)

lemma shard_at_slot: "ss_shards s ! slot (ss_mask s) k = shard_of s k"
  by (simp add: shard_of_def)

lemma shard_of_same_slot:
  "slot (ss_mask s) k' = slot (ss_mask s) k \<Longrightarrow> shard_of s k' = shard_of s k"
  by (simp add: shard_of_def)

lemma ShardedStore_inv_update:
  "ShardedStore_inv s \<Longrightarrow> ShardedStore_inv (s\<lparr>ss_shards := (ss_shards s)[i := sh]\<rparr>)"
  by (simp add: ShardedStore_inv_def)

lemma ShardedStore_abs_update:
  assumes "ShardedStore_inv s"
    and "\<And>k'. k' \<noteq> k \<Longrightarrow> sh_strings sh k' = sh_strings (shard_of s k) k'
      \<and> sh_hashes sh k' = sh_hashes (shard_of s k) k'"
  shows "ShardedStore_abs (s\<lparr>ss_shards := (ss_shards s)[slot (ss_mask s) k := sh]\<rparr>) =
    \<lparr>astr = (astr (ShardedStore_abs s))(k := sh_strings sh k),
     ahash = (ahash (ShardedStore_abs s))(k := sh_hashes sh k)\<rparr>"
  using assms(2)
  by (auto simp: ShardedStore_abs_def shard_of_update [OF assms(1)] fun_eq_iff
      dest: shard_of_same_slot)

interpretation shardst: total_store ShardedStore_ops ShardedStore_inv ShardedStore_abs "\<lambda>_. True"
  by unfold_locales
    (auto simp: ShardedStore_ops_def ShardedStore_defs getShard_ok ShardedStore_inv_update Let_def
      ShardedStore_abs_update shard_at_slot a_defs hashes_set_apply,
     auto simp: ShardedStore_abs_def hashes_set_apply hashes_get_def)

section \<open>Properties\<close>

text \<open>
  C10: for every shard count an \<open>int\<close> can hold, zero, negative and not a power of two included, the
  calls on a new \<open>ShardedStore\<close> never index outside the slice of shards, and every reply and the
  final contents are those of the abstract store: splitting the keys over shards is invisible.
\<close>

theorem sharded_store_correct:
  assumes "is_int64 n"
  shows "\<exists>s'. calls ShardedStore_ops cs (NewShardedStore n) = Inr (fst (a_calls cs a_empty), s')
    \<and> ShardedStore_abs s' = snd (a_calls cs a_empty)"
  using shardst.calls_correct [of "NewShardedStore n" cs] NewShardedStore_inv [OF assms]
    NewShardedStore_abs [OF assms] by auto

theorem sharded_store_correct_witness:
  "\<exists>s'. calls ShardedStore_ops [CSet ''a'' ''x'', CGet ''a''] (NewShardedStore 3)
      = Inr (fst (a_calls [CSet ''a'' ''x'', CGet ''a''] a_empty), s')
    \<and> ShardedStore_abs s' = snd (a_calls [CSet ''a'' ''x'', CGet ''a''] a_empty)"
  by (rule sharded_store_correct) (simp add: is_int64_def int64_defs)

end
