(* ===== verification/Crdt_Store.thy ===== *)
theory Crdt_Store
  imports Store_Spec
begin

text \<open>
  \<open>CRDTStore\<close> (\<open>store/crdt.go\<close>): last-writer-wins values with 64-bit timestamps. The store's
  \<open>sync.RWMutex\<close> is part of the state, because \<open>Merge\<close> does not release what it acquires:
  \<open>cr_readers\<close> counts the read locks that are held while no method runs. A method that takes the
  write lock while a read lock is held blocks, and nobody is left to release it.
\<close>

record crdtValue =
  cv_value :: string
  cv_ts :: "64 word"

record CRDTStore =
  cr_data :: "string \<rightharpoonup> crdtValue"
  cr_hashes :: hmap
  cr_clock :: "64 word"
  cr_readers :: nat

definition NewCRDTStore :: CRDTStore where
  "NewCRDTStore = \<lparr>cr_data = Map.empty, cr_hashes = Map.empty, cr_clock = 0, cr_readers = 0\<rparr>"

text \<open>\<open>mu.Lock()\<close>, the body, \<open>mu.Unlock()\<close>.\<close>

definition with_lock :: "(CRDTStore \<Rightarrow> CRDTStore) \<Rightarrow> CRDTStore \<Rightarrow> CRDTStore res" where
  "with_lock body s = (if cr_readers s > 0 then Inl Deadlock else Inr (body s))"

definition nextTS :: "CRDTStore \<Rightarrow> 64 word \<times> CRDTStore" where
  "nextTS s = (let c = cr_clock s + 1 in (c, s\<lparr>cr_clock := c\<rparr>))"

definition CRDTStore_Set :: "string \<Rightarrow> string \<Rightarrow> CRDTStore \<Rightarrow> CRDTStore res" where
  "CRDTStore_Set key val = with_lock (\<lambda>s.
     let (ts, s') = nextTS s
     in s'\<lparr>cr_data := (cr_data s')(key \<mapsto> \<lparr>cv_value = val, cv_ts = ts\<rparr>)\<rparr>)"

definition CRDTStore_Del :: "string \<Rightarrow> CRDTStore \<Rightarrow> CRDTStore res" where
  "CRDTStore_Del key = with_lock (\<lambda>s.
     s\<lparr>cr_data := (cr_data s)(key := None), cr_hashes := (cr_hashes s)(key := None)\<rparr>)"

definition CRDTStore_Get :: "string \<Rightarrow> CRDTStore \<Rightarrow> string option res" where
  "CRDTStore_Get key s =
     Inr (case cr_data s key of None \<Rightarrow> None | Some v \<Rightarrow> Some (cv_value v))"

definition CRDTStore_SetWithTS :: "string \<Rightarrow> string \<Rightarrow> 64 word \<Rightarrow> CRDTStore \<Rightarrow> CRDTStore res" where
  "CRDTStore_SetWithTS key val ts = with_lock (\<lambda>s.
     let s' = (case cr_data s key of
           None \<Rightarrow> s\<lparr>cr_data := (cr_data s)(key \<mapsto> \<lparr>cv_value = val, cv_ts = ts\<rparr>)\<rparr>
         | Some existing \<Rightarrow>
             if ts > cv_ts existing \<or> (ts = cv_ts existing \<and> False)
             then s\<lparr>cr_data := (cr_data s)(key \<mapsto> \<lparr>cv_value = val, cv_ts = ts\<rparr>)\<rparr> else s)
     in if ts > cr_clock s' then s'\<lparr>cr_clock := ts\<rparr> else s')"

text \<open>
  \<open>Merge\<close>, for two different stores. The loops run over the other store's maps in the orders
  \<open>ks\<close> and \<open>hs\<close>; each iteration takes and releases the receiver's write lock.
\<close>

definition merge_value :: "string \<Rightarrow> crdtValue \<Rightarrow> CRDTStore \<Rightarrow> CRDTStore res" where
  "merge_value key v = with_lock (\<lambda>s.
     let s' = (case cr_data s key of
           None \<Rightarrow> s\<lparr>cr_data := (cr_data s)(key \<mapsto> v)\<rparr>
         | Some existing \<Rightarrow>
             if cv_ts v > cv_ts existing then s\<lparr>cr_data := (cr_data s)(key \<mapsto> v)\<rparr> else s)
     in if cv_ts v > cr_clock s' then s'\<lparr>cr_clock := cv_ts v\<rparr> else s')"

definition merge_hash :: "string \<Rightarrow> smap \<Rightarrow> CRDTStore \<Rightarrow> CRDTStore res" where
  "merge_hash hash inner = with_lock (\<lambda>s.
     let s' = (case cr_hashes s hash of
           None \<Rightarrow> s\<lparr>cr_hashes := (cr_hashes s)(hash \<mapsto> Map.empty)\<rparr> | Some _ \<Rightarrow> s)
     in case cr_hashes s' hash of None \<Rightarrow> s'
        | Some m \<Rightarrow> s'\<lparr>cr_hashes := (cr_hashes s')(hash \<mapsto> m ++ inner)\<rparr>)"

fun merge_values :: "string list \<Rightarrow> (string \<rightharpoonup> crdtValue) \<Rightarrow> CRDTStore \<Rightarrow> CRDTStore res" where
  "merge_values [] m s = Inr s"
| "merge_values (k # ks) m s =
     (case m k of None \<Rightarrow> merge_values ks m s
      | Some v \<Rightarrow> bindr (merge_value k v s) (merge_values ks m))"

fun merge_hashes :: "string list \<Rightarrow> hmap \<Rightarrow> CRDTStore \<Rightarrow> CRDTStore res" where
  "merge_hashes [] m s = Inr s"
| "merge_hashes (h # hs) m s =
     (case m h of None \<Rightarrow> merge_hashes hs m s
      | Some inner \<Rightarrow> bindr (merge_hash h inner s) (merge_hashes hs m))"

definition RLock :: "CRDTStore \<Rightarrow> CRDTStore" where
  "RLock s = s\<lparr>cr_readers := cr_readers s + 1\<rparr>"

definition RUnlock :: "CRDTStore \<Rightarrow> CRDTStore" where
  "RUnlock s = s\<lparr>cr_readers := cr_readers s - 1\<rparr>"

definition CRDTStore_Merge ::
    "string list \<Rightarrow> string list \<Rightarrow> CRDTStore \<Rightarrow> CRDTStore \<Rightarrow> (CRDTStore \<times> CRDTStore) res" where
  "CRDTStore_Merge ks hs s other =
     (let other1 = RLock other
      in bindr (merge_values ks (cr_data other1) s) (\<lambda>s1.
         let other2 = RLock other1
         in bindr (merge_hashes hs (cr_hashes other2) s1) (\<lambda>s2.
            Inr (s2, RUnlock other2))))"

definition CRDTStore_Snapshot :: "CRDTStore \<Rightarrow> string \<rightharpoonup> crdtValue" where
  "CRDTStore_Snapshot s = cr_data s"

definition CRDTStore_HSet :: "string \<Rightarrow> string \<Rightarrow> string \<Rightarrow> CRDTStore \<Rightarrow> CRDTStore res" where
  "CRDTStore_HSet hash key val = with_lock (\<lambda>s.
     s\<lparr>cr_hashes := hashes_set hash key val (cr_hashes s)\<rparr>)"

definition CRDTStore_HGet :: "string \<Rightarrow> string \<Rightarrow> CRDTStore \<Rightarrow> string option res" where
  "CRDTStore_HGet hash key s = Inr (hashes_get hash key (cr_hashes s))"

definition CRDTStore_HGetAll :: "string \<Rightarrow> CRDTStore \<Rightarrow> smap option res" where
  "CRDTStore_HGetAll hash s = Inr (hashes_all hash (cr_hashes s))"

lemmas CRDTStore_defs = CRDTStore_Set_def CRDTStore_Del_def CRDTStore_Get_def
  CRDTStore_SetWithTS_def CRDTStore_HSet_def CRDTStore_HGet_def CRDTStore_HGetAll_def nextTS_def
  with_lock_def

definition CRDTStore_ops :: "CRDTStore store_ops" where
  "CRDTStore_ops = \<lparr>op_Set = CRDTStore_Set, op_Get = CRDTStore_Get, op_Del = CRDTStore_Del,
     op_HSet = CRDTStore_HSet, op_HGet = CRDTStore_HGet, op_HGetAll = CRDTStore_HGetAll,
     op_Close = \<lambda>s. s\<rparr>"

section \<open>As a store\<close>

definition CRDTStore_abs :: "CRDTStore \<Rightarrow> astore" where
  "CRDTStore_abs s =
     \<lparr>astr = (\<lambda>k. map_option cv_value (cr_data s k)), ahash = cr_hashes s\<rparr>"

definition unlocked :: "CRDTStore \<Rightarrow> bool" where
  "unlocked s \<longleftrightarrow> cr_readers s = 0"

interpretation crdtst: total_store CRDTStore_ops unlocked CRDTStore_abs "\<lambda>_. True"
  by unfold_locales
    (auto simp: CRDTStore_ops_def CRDTStore_defs CRDTStore_abs_def unlocked_def a_defs Let_def
      fun_eq_iff split: option.splits)

lemma NewCRDTStore_ok: "unlocked NewCRDTStore \<and> CRDTStore_abs NewCRDTStore = a_empty"
  by (simp add: unlocked_def NewCRDTStore_def CRDTStore_abs_def a_empty_def)

section \<open>Merging\<close>

text \<open>The winner of two values of one key: the other one only if it is strictly newer.\<close>

fun lww :: "crdtValue option \<Rightarrow> crdtValue option \<Rightarrow> crdtValue option" where
  "lww a None = a"
| "lww None (Some b) = Some b"
| "lww (Some a) (Some b) = (if cv_ts b > cv_ts a then Some b else Some a)"

lemma lww_None [simp]: "lww None b = b"
  by (cases b) auto

lemma lww_idem [simp]: "lww a a = a"
  by (cases a) auto

lemma lww_assoc: "lww (lww a b) c = lww a (lww b c)"
  by (cases a; cases b; cases c) auto

text \<open>Two values of one key with the same timestamp must be the same write.\<close>

definition no_tie :: "crdtValue option \<Rightarrow> crdtValue option \<Rightarrow> bool" where
  "no_tie a b \<longleftrightarrow> (\<forall>x y. a = Some x \<and> b = Some y \<and> cv_ts x = cv_ts y \<longrightarrow> x = y)"

lemma lww_commute: "no_tie a b \<Longrightarrow> lww a b = lww b a"
  by (cases a; cases b) (auto simp: no_tie_def dest: not_less_iff_gr_or_eq [THEN iffD1])

definition lww_hash :: "smap option \<Rightarrow> smap option \<Rightarrow> smap option" where
  "lww_hash a b = (case b of None \<Rightarrow> a
     | Some inner \<Rightarrow> Some ((case a of None \<Rightarrow> Map.empty | Some m \<Rightarrow> m) ++ inner))"

lemma merge_value_eq:
  assumes "unlocked s"
  shows "merge_value k v s = Inr (s\<lparr>cr_data := (cr_data s)(k := lww (cr_data s k) (Some v)),
    cr_clock := max (cr_clock s) (cv_ts v)\<rparr>)"
  using assms
  by (cases "cr_data s k")
    (auto simp: merge_value_def with_lock_def unlocked_def Let_def max_def fun_upd_idem
      intro!: CRDTStore.equality)

lemma merge_hash_eq:
  assumes "unlocked s"
  shows "merge_hash h inner s =
    Inr (s\<lparr>cr_hashes := (cr_hashes s)(h := lww_hash (cr_hashes s h) (Some inner))\<rparr>)"
  using assms
  by (cases "cr_hashes s h")
    (auto simp: merge_hash_def with_lock_def unlocked_def Let_def lww_hash_def)

lemma merge_values_eq:
  assumes "unlocked s" and "distinct ks"
  shows "\<exists>s'. merge_values ks m s = Inr s' \<and> unlocked s' \<and> cr_hashes s' = cr_hashes s
    \<and> (\<forall>k. cr_data s' k = (if k \<in> set ks then lww (cr_data s k) (m k) else cr_data s k))
    \<and> cr_clock s \<le> cr_clock s' \<and> (\<forall>k \<in> set ks. \<forall>v. m k = Some v \<longrightarrow> cv_ts v \<le> cr_clock s')"
  using assms
proof (induction ks arbitrary: s)
  case Nil
  then show ?case by simp
next
  case (Cons k ks)
  show ?case
  proof (cases "m k")
    case None
    with Cons show ?thesis by fastforce
  next
    case (Some v)
    define s1 where "s1 = s\<lparr>cr_data := (cr_data s)(k := lww (cr_data s k) (Some v)),
      cr_clock := max (cr_clock s) (cv_ts v)\<rparr>"
    have "unlocked s1" using Cons.prems(1) by (simp add: s1_def unlocked_def)
    then obtain s' where s': "merge_values ks m s1 = Inr s'" "unlocked s'"
      "cr_hashes s' = cr_hashes s1"
      "\<forall>k. cr_data s' k = (if k \<in> set ks then lww (cr_data s1 k) (m k) else cr_data s1 k)"
      "cr_clock s1 \<le> cr_clock s'" "\<forall>k \<in> set ks. \<forall>v. m k = Some v \<longrightarrow> cv_ts v \<le> cr_clock s'"
      using Cons.IH [of s1] Cons.prems(2) by auto
    have "merge_values (k # ks) m s = Inr s'"
      using Some s'(1) merge_value_eq [OF Cons.prems(1)] by (simp add: s1_def)
    moreover have "cr_clock s \<le> cr_clock s'" "cv_ts v \<le> cr_clock s'"
      using s'(5) by (auto simp: s1_def)
    ultimately show ?thesis
      using s' Some Cons.prems(2) by (auto simp: s1_def)
  qed
qed

lemma merge_hashes_eq:
  assumes "unlocked s" and "distinct hs"
  shows "\<exists>s'. merge_hashes hs m s = Inr s' \<and> unlocked s' \<and> cr_data s' = cr_data s
    \<and> cr_clock s' = cr_clock s
    \<and> (\<forall>h. cr_hashes s' h = (if h \<in> set hs then lww_hash (cr_hashes s h) (m h) else cr_hashes s h))"
  using assms
proof (induction hs arbitrary: s)
  case Nil
  then show ?case by simp
next
  case (Cons h hs)
  show ?case
  proof (cases "m h")
    case None
    with Cons show ?thesis by (fastforce simp: lww_hash_def)
  next
    case (Some inner)
    define s1 where
      "s1 = s\<lparr>cr_hashes := (cr_hashes s)(h := lww_hash (cr_hashes s h) (Some inner))\<rparr>"
    have "unlocked s1" using Cons.prems(1) by (simp add: s1_def unlocked_def)
    then obtain s' where s': "merge_hashes hs m s1 = Inr s'" "unlocked s'" "cr_data s' = cr_data s1"
      "cr_clock s' = cr_clock s1"
      "\<forall>h. cr_hashes s' h = (if h \<in> set hs then lww_hash (cr_hashes s1 h) (m h) else cr_hashes s1 h)"
      using Cons.IH [of s1] Cons.prems(2) by auto
    have "merge_hashes (h # hs) m s = Inr s'"
      using Some s'(1) merge_hash_eq [OF Cons.prems(1)] by (simp add: s1_def)
    then show ?thesis
      using s' Some Cons.prems(2) by (auto simp: s1_def)
  qed
qed

lemma Merge_spec:
  assumes "unlocked s" and "enumerates ks (cr_data other)" and "enumerates hs (cr_hashes other)"
  shows "\<exists>s'. CRDTStore_Merge ks hs s other = Inr (s', RLock other) \<and> unlocked s'
    \<and> cr_data s' = (\<lambda>k. lww (cr_data s k) (cr_data other k))
    \<and> cr_hashes s' = (\<lambda>h. lww_hash (cr_hashes s h) (cr_hashes other h))
    \<and> cr_clock s \<le> cr_clock s' \<and> (\<forall>k v. cr_data other k = Some v \<longrightarrow> cv_ts v \<le> cr_clock s')"
proof -
  obtain s1 where s1: "merge_values ks (cr_data other) s = Inr s1" "unlocked s1"
    "cr_hashes s1 = cr_hashes s"
    "\<forall>k. cr_data s1 k = (if k \<in> set ks then lww (cr_data s k) (cr_data other k) else cr_data s k)"
    "cr_clock s \<le> cr_clock s1"
    "\<forall>k \<in> set ks. \<forall>v. cr_data other k = Some v \<longrightarrow> cv_ts v \<le> cr_clock s1"
    using merge_values_eq [OF assms(1), of ks "cr_data other"] assms(2)
    unfolding enumerates_def by blast
  obtain s2 where s2: "merge_hashes hs (cr_hashes other) s1 = Inr s2" "unlocked s2"
    "cr_data s2 = cr_data s1" "cr_clock s2 = cr_clock s1"
    "\<forall>h. cr_hashes s2 h =
      (if h \<in> set hs then lww_hash (cr_hashes s1 h) (cr_hashes other h) else cr_hashes s1 h)"
    using merge_hashes_eq [OF s1(2), of hs "cr_hashes other"] assms(3)
    unfolding enumerates_def by blast
  have data: "cr_data s1 = (\<lambda>k. lww (cr_data s k) (cr_data other k))"
    using s1(4) assms(2) by (fastforce simp: enumerates_def)
  have hashes: "cr_hashes s2 = (\<lambda>h. lww_hash (cr_hashes s h) (cr_hashes other h))"
    using s2(5) s1(3) assms(3) by (fastforce simp: enumerates_def lww_hash_def)
  have ts: "\<forall>k v. cr_data other k = Some v \<longrightarrow> cv_ts v \<le> cr_clock s1"
    using s1(6) assms(2) by (auto simp: enumerates_def)
  show ?thesis
    using s1 s2 data hashes ts by (simp add: CRDTStore_Merge_def RLock_def RUnlock_def)
qed

section \<open>Several merges\<close>

text \<open>\<open>not_newer a b\<close>: \<open>b\<close> wins against \<open>a\<close>, or they carry the same timestamp.\<close>

definition not_newer :: "crdtValue option \<Rightarrow> crdtValue option \<Rightarrow> bool" where
  "not_newer a b \<longleftrightarrow> (\<forall>x. a = Some x \<longrightarrow> (\<exists>y. b = Some y \<and> cv_ts x \<le> cv_ts y))"

lemma not_newer_refl [simp]: "not_newer a a"
  by (simp add: not_newer_def)

lemma not_newer_trans: "not_newer a b \<Longrightarrow> not_newer b c \<Longrightarrow> not_newer a c"
  by (cases a; cases b; cases c; simp add: not_newer_def)

lemma not_newer_antisym:
  assumes "not_newer a b" and "not_newer b a" and "no_tie a b"
  shows "a = b"
proof (cases a)
  case None
  with assms(2) show ?thesis by (cases b) (simp_all add: not_newer_def)
next
  case (Some x)
  with assms(1) obtain y where y: "b = Some y" "cv_ts x \<le> cv_ts y"
    by (auto simp: not_newer_def)
  moreover have "cv_ts y \<le> cv_ts x" using assms(2) Some y(1) by (auto simp: not_newer_def)
  ultimately have "cv_ts x = cv_ts y" by simp
  with assms(3) Some y(1) show ?thesis unfolding no_tie_def by blast
qed

lemma lww_upper1: "not_newer a (lww a b)"
  by (cases a; cases b) (simp_all add: not_newer_def less_imp_le not_less)

lemma lww_upper2: "not_newer b (lww a b)"
  by (cases a; cases b) (simp_all add: not_newer_def less_imp_le not_less)

lemmas lww_upper = lww_upper1 lww_upper2

lemma lww_cases: "lww a b = a \<or> lww a b = b"
  by (cases a; cases b) auto

lemma fold_lww_greatest:
  "foldl lww a bs \<in> insert a (set bs) \<and> (\<forall>x \<in> insert a (set bs). not_newer x (foldl lww a bs))"
proof (induction bs arbitrary: a)
  case Nil
  then show ?case by simp
next
  case (Cons b bs)
  have "not_newer a (foldl lww (lww a b) bs)" "not_newer b (foldl lww (lww a b) bs)"
    using Cons.IH [of "lww a b"] lww_upper not_newer_trans by blast+
  then show ?case
    using Cons.IH [of "lww a b"] lww_cases [of a b] by auto
qed

lemma fold_lww_order:
  assumes "set bs = set cs" and "\<forall>x \<in> insert a (set bs). \<forall>y \<in> insert a (set bs). no_tie x y"
  shows "foldl lww a bs = foldl lww a cs"
proof (rule not_newer_antisym)
  show "not_newer (foldl lww a bs) (foldl lww a cs)" "not_newer (foldl lww a cs) (foldl lww a bs)"
    using fold_lww_greatest [of a bs] fold_lww_greatest [of a cs] assms(1) by auto
  show "no_tie (foldl lww a bs) (foldl lww a cs)"
    using fold_lww_greatest [of a bs] fold_lww_greatest [of a cs] assms by auto
qed

text \<open>\<open>gather s rs\<close>: the store \<open>s\<close> merges the stores \<open>rs\<close> one after the other.\<close>

fun gather :: "CRDTStore \<Rightarrow> (string list \<times> string list \<times> CRDTStore) list \<Rightarrow> CRDTStore res" where
  "gather s [] = Inr s"
| "gather s ((ks, hs, other) # rs) =
     bindr (CRDTStore_Merge ks hs s other) (\<lambda>(s', _). gather s' rs)"

definition replica_ok :: "string list \<times> string list \<times> CRDTStore \<Rightarrow> bool" where
  "replica_ok r = (case r of (ks, hs, other) \<Rightarrow>
     enumerates ks (cr_data other) \<and> enumerates hs (cr_hashes other))"

definition replica_data :: "string list \<times> string list \<times> CRDTStore \<Rightarrow> string \<rightharpoonup> crdtValue" where
  "replica_data r = cr_data (snd (snd r))"

lemma gather_data:
  assumes "unlocked s" and "\<forall>r \<in> set rs. replica_ok r"
  shows "\<exists>s'. gather s rs = Inr s' \<and> unlocked s'
    \<and> cr_data s' = (\<lambda>k. foldl lww (cr_data s k) (map (\<lambda>r. replica_data r k) rs))"
  using assms
proof (induction rs arbitrary: s)
  case Nil
  then show ?case by simp
next
  case (Cons r rs)
  obtain ks hs other where r: "r = (ks, hs, other)" by (cases r)
  with Cons.prems(2) have "enumerates ks (cr_data other)" "enumerates hs (cr_hashes other)"
    by (auto simp: replica_ok_def)
  then obtain s1 where s1: "CRDTStore_Merge ks hs s other = Inr (s1, RLock other)" "unlocked s1"
    "cr_data s1 = (\<lambda>k. lww (cr_data s k) (cr_data other k))"
    using Merge_spec [OF Cons.prems(1)] by blast
  obtain s' where "gather s1 rs = Inr s'" "unlocked s'"
    "cr_data s' = (\<lambda>k. foldl lww (cr_data s1 k) (map (\<lambda>r. replica_data r k) rs))"
    using Cons.IH [OF s1(2)] Cons.prems(2) by auto
  then show ?case using s1 r by (auto simp: replica_data_def)
qed

section \<open>Properties\<close>

text \<open>
  after any sequence of calls on a new store, every reply and the final contents are those of
  the abstract store: the timestamps are invisible through the \<open>Store\<close> interface.
\<close>

theorem crdt_store_correct:
  "\<exists>s'. calls CRDTStore_ops cs NewCRDTStore = Inr (fst (a_calls cs a_empty), s')
     \<and> CRDTStore_abs s' = snd (a_calls cs a_empty)"
  using crdtst.calls_correct [of NewCRDTStore cs] NewCRDTStore_ok by auto


text \<open>Two replicas with one key each, the second with the larger timestamp for \<open>a\<close>.\<close>

definition replica_one :: "string \<Rightarrow> string \<Rightarrow> 64 word \<Rightarrow> CRDTStore" where
  "replica_one k v ts = \<lparr>cr_data = [k \<mapsto> \<lparr>cv_value = v, cv_ts = ts\<rparr>], cr_hashes = Map.empty,
     cr_clock = ts, cr_readers = 0\<rparr>"

lemma replica_one_ok:
  "unlocked (replica_one k v ts)" "enumerates [k] (cr_data (replica_one k v ts))"
  "enumerates [] (cr_hashes (replica_one k v ts))"
  by (simp_all add: replica_one_def unlocked_def enumerates_def)


text \<open>
  C12: strong eventual consistency of the values: merging the same replicas, in any order and any
  number of times, gives the same values, as long as two writes of a key never carry the same
  timestamp (ties are not broken by the code).
\<close>

theorem crdt_gather_converges:
  assumes "unlocked s" and "\<forall>r \<in> set rs. replica_ok r" and "\<forall>r \<in> set qs. replica_ok r"
    and "replica_data ` set rs = replica_data ` set qs"
    and "\<forall>k. \<forall>x \<in> insert (cr_data s) (replica_data ` set rs).
      \<forall>y \<in> insert (cr_data s) (replica_data ` set rs). no_tie (x k) (y k)"
  shows "\<exists>s1 s2. gather s rs = Inr s1 \<and> gather s qs = Inr s2 \<and> cr_data s1 = cr_data s2"
proof -
  have "foldl lww (cr_data s k) (map (\<lambda>r. replica_data r k) rs)
      = foldl lww (cr_data s k) (map (\<lambda>r. replica_data r k) qs)" for k
  proof (rule fold_lww_order)
    show "set (map (\<lambda>r. replica_data r k) rs) = set (map (\<lambda>r. replica_data r k) qs)"
      using arg_cong [OF assms(4), of "image (\<lambda>m. m k)"] by (simp add: image_image)
    show "\<forall>x \<in> insert (cr_data s k) (set (map (\<lambda>r. replica_data r k) rs)).
        \<forall>y \<in> insert (cr_data s k) (set (map (\<lambda>r. replica_data r k) rs)). no_tie x y"
      using assms(5) by auto
  qed
  then show ?thesis
    using gather_data [OF assms(1,2)] gather_data [OF assms(1,3)] by auto
qed

theorem crdt_gather_converges_witness:
  "\<exists>s1 s2. gather NewCRDTStore [([''a''], [], replica_one ''a'' ''x'' 1), ([''a''], [], replica_one ''a'' ''y'' 2)]
      = Inr s1
    \<and> gather NewCRDTStore [([''a''], [], replica_one ''a'' ''y'' 2), ([''a''], [], replica_one ''a'' ''x'' 1)]
      = Inr s2 \<and> cr_data s1 = cr_data s2"
  by (rule crdt_gather_converges)
    (auto simp: NewCRDTStore_def replica_one_def unlocked_def replica_ok_def replica_data_def
      enumerates_def no_tie_def)

text \<open>
  C19: \<open>Merge\<close> leaves its argument read-locked: it calls \<open>RLock\<close> twice and \<open>RUnlock\<close> once, so
  every later writing call on that store blocks forever.
\<close>

theorem crdt_merge_leaks_read_lock:
  assumes "CRDTStore_Merge ks hs s other = Inr (s', other')"
  shows "cr_readers other' = cr_readers other + 1
    \<and> CRDTStore_Set k v other' = Inl Deadlock \<and> CRDTStore_Del k other' = Inl Deadlock
    \<and> CRDTStore_HSet h f v other' = Inl Deadlock \<and> CRDTStore_SetWithTS k v ts other' = Inl Deadlock"
  using assms
  by (auto simp: CRDTStore_Merge_def res_simps RLock_def RUnlock_def Let_def CRDTStore_defs)

theorem crdt_merge_leaks_read_lock_witness:
  "\<exists>s' other'. CRDTStore_Merge [] [] NewCRDTStore NewCRDTStore = Inr (s', other')
    \<and> CRDTStore_Set ''a'' ''x'' other' = Inl Deadlock"
proof -
  have "CRDTStore_Merge [] [] NewCRDTStore NewCRDTStore
      = Inr (NewCRDTStore, RUnlock (RLock (RLock NewCRDTStore)))"
    by (simp add: CRDTStore_Merge_def Let_def RLock_def)
  with crdt_merge_leaks_read_lock [OF this] show ?thesis by blast
qed

end
