(* ===== verification/Bitcask_Store.thy ===== *)
theory Bitcask_Store
  imports Store_Spec
begin

text \<open>
  \<open>BitcaskStore\<close> (\<open>store/bitcask.go\<close>): two maps in memory and an append-only log. The data file is
  its contents with the offset of the next write; a write at the offset overwrites what is there
  and extends the file. Reads and writes of an open file succeed; opening may fail. A closed file
  refuses writes, and \<open>writeOp\<close>'s callers ignore that.
\<close>

record BitcaskStore =
  bc_file :: string
  bc_off :: nat
  bc_open :: bool
  bc_strings :: smap
  bc_hashes :: hmap

definition bitcaskMagic :: string where
  "bitcaskMagic = ''FCBT01''"

datatype bitcask_error = BC_open | BC_short_magic | BC_invalid_magic

definition file_Write :: "string \<Rightarrow> BitcaskStore \<Rightarrow> BitcaskStore" where
  "file_Write buf s =
     (if bc_open s
      then s\<lparr>bc_file := take (bc_off s) (bc_file s)
                 @ replicate (bc_off s - length (bc_file s)) (byte_of 0)
                 @ buf @ drop (bc_off s + length buf) (bc_file s),
             bc_off := bc_off s + length buf\<rparr>
      else s)"

section \<open>Recovery\<close>

text \<open>\<open>f.ReadAt(buf, pos)\<close>: an error (here \<^term>\<open>None\<close>) when fewer bytes are left than asked for.\<close>

definition ReadAt :: "string \<Rightarrow> nat \<Rightarrow> nat \<Rightarrow> string option" where
  "ReadAt f n pos = (if pos + n \<le> length f then Some (take n (drop pos f)) else None)"

definition readStringAt :: "string \<Rightarrow> nat \<Rightarrow> string \<times> nat" where
  "readStringAt f pos =
     (case ReadAt f 4 pos of
        None \<Rightarrow> ([], pos)
      | Some lenBuf \<Rightarrow>
          let strLen = be_nat lenBuf; pos = pos + 4
          in if strLen = 0 then ([], pos)
             else case ReadAt f strLen pos of
                    None \<Rightarrow> ([], pos)
                  | Some buf \<Rightarrow> (buf, pos + strLen))"

lemma readStringAt_pos: "pos \<le> snd (readStringAt f pos)"
  by (auto simp: readStringAt_def Let_def split: option.splits)

text \<open>One turn of the loop after the operation byte \<open>op\<close> has been read; \<open>pos\<close> is past it.\<close>

definition recover_op ::
    "string \<Rightarrow> char \<Rightarrow> nat \<Rightarrow> smap \<times> hmap \<Rightarrow> nat \<times> smap \<times> hmap" where
  "recover_op f op pos st =
     (case st of (strs, hs) \<Rightarrow>
      if op = CHR ''S'' then
        let (key, pos) = readStringAt f pos; (val, pos) = readStringAt f pos
        in (pos, strs(key \<mapsto> val), hs)
      else if op = CHR ''D'' then
        let (key, pos) = readStringAt f pos
        in (pos, strs(key := None), hs(key := None))
      else if op = CHR ''H'' then
        let (hash, pos) = readStringAt f pos; (field, pos) = readStringAt f pos;
            (val, pos) = readStringAt f pos
        in (pos, strs, hashes_set hash field val hs)
      else (pos, strs, hs))"

lemma recover_op_pos: "pos \<le> fst (recover_op f op pos st)"
proof -
  have two: "p \<le> snd (readStringAt f (snd (readStringAt f p)))" for p
    by (rule order_trans [OF readStringAt_pos readStringAt_pos])
  have "pos \<le> snd (readStringAt f (snd (readStringAt f (snd (readStringAt f pos)))))"
    by (rule order_trans [OF readStringAt_pos two])
  with two [of pos] show ?thesis
    using readStringAt_pos [of pos f]
    by (auto simp: recover_op_def Let_def split_def)
qed

function recover_loop :: "string \<Rightarrow> nat \<Rightarrow> smap \<times> hmap \<Rightarrow> smap \<times> hmap" where
  "recover_loop f pos st =
     (case ReadAt f 1 pos of
        None \<Rightarrow> st
      | Some op \<Rightarrow>
          let r = recover_op f (hd op) (pos + 1) st in recover_loop f (fst r) (snd r))"
  by pat_completeness auto
termination
proof (relation "measure (\<lambda>(f, pos, st). length f - pos)")
  fix f pos st op r
  assume "ReadAt f 1 pos = Some op" and "r = recover_op f (hd op) (pos + 1) st"
  moreover then have "pos + 1 \<le> fst r" using recover_op_pos by blast
  ultimately show "((f, fst r, snd r), f, pos, st) \<in> measure (\<lambda>(f, pos, st). length f - pos)"
    by (auto simp: ReadAt_def split_def split: if_splits)
qed simp

declare recover_loop.simps [simp del]

definition recover :: "BitcaskStore \<Rightarrow> bitcask_error + BitcaskStore" where
  "recover s =
     (if length (bc_file s) = 0 then Inr (file_Write bitcaskMagic s)
      else case ReadAt (bc_file s) (length bitcaskMagic) 0 of
             None \<Rightarrow> Inl BC_short_magic
           | Some m \<Rightarrow>
               if m \<noteq> bitcaskMagic then Inl BC_invalid_magic
               else let st = recover_loop (bc_file s) (length bitcaskMagic)
                               (bc_strings s, bc_hashes s)
                    in Inr (s\<lparr>bc_strings := fst st, bc_hashes := snd st,
                              bc_off := length (bc_file s)\<rparr>))"

text \<open>\<open>NewBitcaskStore\<close>: \<open>file\<close> is what \<open>os.OpenFile\<close> gives, \<^term>\<open>None\<close> when it fails.\<close>

definition NewBitcaskStore :: "string option \<Rightarrow> bitcask_error + BitcaskStore" where
  "NewBitcaskStore file =
     (case file of
        None \<Rightarrow> Inl BC_open
      | Some f \<Rightarrow> recover \<lparr>bc_file = f, bc_off = 0, bc_open = True,
                          bc_strings = Map.empty, bc_hashes = Map.empty\<rparr>)"

section \<open>Methods\<close>

definition op_bytes :: "char \<Rightarrow> string list \<Rightarrow> string" where
  "op_bytes op parts = op # concat (map (\<lambda>p. put_uint32 (length p) @ p) parts)"

definition writeOp :: "char \<Rightarrow> string list \<Rightarrow> BitcaskStore \<Rightarrow> BitcaskStore" where
  "writeOp op parts s = file_Write (op_bytes op parts) s"

definition BitcaskStore_Set :: "string \<Rightarrow> string \<Rightarrow> BitcaskStore \<Rightarrow> BitcaskStore" where
  "BitcaskStore_Set key val s =
     writeOp CHR ''S'' [key, val] (s\<lparr>bc_strings := (bc_strings s)(key \<mapsto> val)\<rparr>)"

definition BitcaskStore_Get :: "string \<Rightarrow> BitcaskStore \<Rightarrow> string option" where
  "BitcaskStore_Get key s = bc_strings s key"

definition BitcaskStore_Del :: "string \<Rightarrow> BitcaskStore \<Rightarrow> BitcaskStore" where
  "BitcaskStore_Del key s =
     writeOp CHR ''D'' [key]
       (s\<lparr>bc_strings := (bc_strings s)(key := None), bc_hashes := (bc_hashes s)(key := None)\<rparr>)"

definition BitcaskStore_HSet :: "string \<Rightarrow> string \<Rightarrow> string \<Rightarrow> BitcaskStore \<Rightarrow> BitcaskStore" where
  "BitcaskStore_HSet hash key val s =
     writeOp CHR ''H'' [hash, key, val]
       (s\<lparr>bc_hashes := hashes_set hash key val (bc_hashes s)\<rparr>)"

definition BitcaskStore_HGet :: "string \<Rightarrow> string \<Rightarrow> BitcaskStore \<Rightarrow> string option" where
  "BitcaskStore_HGet hash key s = hashes_get hash key (bc_hashes s)"

definition BitcaskStore_HGetAll :: "string \<Rightarrow> BitcaskStore \<Rightarrow> smap option" where
  "BitcaskStore_HGetAll hash s = hashes_all hash (bc_hashes s)"

definition BitcaskStore_Close :: "BitcaskStore \<Rightarrow> BitcaskStore" where
  "BitcaskStore_Close s = s\<lparr>bc_open := False\<rparr>"

lemmas BitcaskStore_defs = BitcaskStore_Set_def BitcaskStore_Get_def BitcaskStore_Del_def
  BitcaskStore_HSet_def BitcaskStore_HGet_def BitcaskStore_HGetAll_def BitcaskStore_Close_def writeOp_def

definition BitcaskStore_ops :: "BitcaskStore store_ops" where
  "BitcaskStore_ops = \<lparr>op_Set = \<lambda>k v s. Inr (BitcaskStore_Set k v s),
     op_Get = \<lambda>k s. Inr (BitcaskStore_Get k s), op_Del = \<lambda>k s. Inr (BitcaskStore_Del k s),
     op_HSet = \<lambda>h k v s. Inr (BitcaskStore_HSet h k v s),
     op_HGet = \<lambda>h k s. Inr (BitcaskStore_HGet h k s),
     op_HGetAll = \<lambda>h s. Inr (BitcaskStore_HGetAll h s), op_Close = BitcaskStore_Close\<rparr>"

section \<open>As a store\<close>

definition BitcaskStore_abs :: "BitcaskStore \<Rightarrow> astore" where
  "BitcaskStore_abs s = \<lparr>astr = bc_strings s, ahash = bc_hashes s\<rparr>"

lemma file_Write_maps [simp]:
  "bc_strings (file_Write b s) = bc_strings s" "bc_hashes (file_Write b s) = bc_hashes s"
  by (simp_all add: file_Write_def)

interpretation bitst: total_store BitcaskStore_ops "\<lambda>_. True" BitcaskStore_abs "\<lambda>_. True"
  by unfold_locales
    (auto simp: BitcaskStore_ops_def BitcaskStore_abs_def BitcaskStore_defs a_defs)

section \<open>The log\<close>

datatype log_rec = LSet string string | LDel string | LHSet string string string

fun rec_bytes :: "log_rec \<Rightarrow> string" where
  "rec_bytes (LSet k v) = op_bytes CHR ''S'' [k, v]"
| "rec_bytes (LDel k) = op_bytes CHR ''D'' [k]"
| "rec_bytes (LHSet h k v) = op_bytes CHR ''H'' [h, k, v]"

fun rec_apply :: "smap \<times> hmap \<Rightarrow> log_rec \<Rightarrow> smap \<times> hmap" where
  "rec_apply (strs, hs) (LSet k v) = (strs(k \<mapsto> v), hs)"
| "rec_apply (strs, hs) (LDel k) = (strs(k := None), hs(k := None))"
| "rec_apply (strs, hs) (LHSet h k v) = (strs, hashes_set h k v hs)"

definition fits :: "string \<Rightarrow> bool" where
  "fits x \<longleftrightarrow> length x < 2 ^ 32"

fun rec_fits :: "log_rec \<Rightarrow> bool" where
  "rec_fits (LSet k v) \<longleftrightarrow> fits k \<and> fits v"
| "rec_fits (LDel k) \<longleftrightarrow> fits k"
| "rec_fits (LHSet h k v) \<longleftrightarrow> fits h \<and> fits k \<and> fits v"

lemma ReadAt_middle [simp]:
  "ReadAt (pre @ x @ post) (length x) (length pre) = Some x"
  by (simp add: ReadAt_def)

lemma readStringAt_part:
  assumes "fits x"
  shows "readStringAt (pre @ put_uint32 (length x) @ x @ post) (length pre)
    = (x, length pre + 4 + length x)"
proof -
  have len: "be_nat (put_uint32 (length x)) = length x"
    using assms by (simp add: codec_simps fits_def)
  have "ReadAt (pre @ put_uint32 (length x) @ x @ post) 4 (length pre) = Some (put_uint32 (length x))"
    using ReadAt_middle [of pre "put_uint32 (length x)" "x @ post"] by simp
  moreover have "ReadAt (pre @ put_uint32 (length x) @ x @ post) (length x) (length pre + 4) = Some x"
    using ReadAt_middle [of "pre @ put_uint32 (length x)" x post] by simp
  ultimately show ?thesis
    by (simp add: readStringAt_def Let_def len)
qed

text \<open>A record of the log is read back as the operation it was written for.\<close>

lemma recover_op_record:
  assumes "rec_fits r" and "f = pre @ rec_bytes r @ post"
  shows "recover_op f (hd (rec_bytes r)) (length pre + 1) st
    = (length pre + length (rec_bytes r), rec_apply st r)"
proof -
  obtain strs hs where st: "st = (strs, hs)" by (cases st)
  let ?len = "\<lambda>x. put_uint32 (length x)"
  show ?thesis
  proof (cases r)
    case (LSet k v)
    have "f = (pre @ [CHR ''S'']) @ ?len k @ k @ (?len v @ v @ post)"
      "f = (pre @ CHR ''S'' # ?len k @ k) @ ?len v @ v @ post"
      using assms(2) LSet by (simp_all add: op_bytes_def)
    then have "readStringAt f (length pre + 1) = (k, length pre + 5 + length k)"
      "readStringAt f (length pre + 5 + length k) = (v, length pre + 9 + length k + length v)"
      using assms(1) LSet readStringAt_part [of k "pre @ [CHR ''S'']" "?len v @ v @ post"]
        readStringAt_part [of v "pre @ CHR ''S'' # ?len k @ k" post] by (simp_all add: add_ac)
    then show ?thesis using LSet st by (simp add: recover_op_def op_bytes_def)
  next
    case (LDel k)
    have "f = (pre @ [CHR ''D'']) @ ?len k @ k @ post"
      using assms(2) LDel by (simp add: op_bytes_def)
    then have "readStringAt f (length pre + 1) = (k, length pre + 5 + length k)"
      using assms(1) LDel readStringAt_part [of k "pre @ [CHR ''D'']" post] by (simp add: add_ac)
    then show ?thesis using LDel st by (simp add: recover_op_def op_bytes_def)
  next
    case (LHSet h k v)
    have "f = (pre @ [CHR ''H'']) @ ?len h @ h @ (?len k @ k @ ?len v @ v @ post)"
      "f = (pre @ CHR ''H'' # ?len h @ h) @ ?len k @ k @ (?len v @ v @ post)"
      "f = (pre @ CHR ''H'' # ?len h @ h @ ?len k @ k) @ ?len v @ v @ post"
      using assms(2) LHSet by (simp_all add: op_bytes_def)
    then have "readStringAt f (length pre + 1) = (h, length pre + 5 + length h)"
      "readStringAt f (length pre + 5 + length h) = (k, length pre + 9 + length h + length k)"
      "readStringAt f (length pre + 9 + length h + length k)
        = (v, length pre + 13 + length h + length k + length v)"
      using assms(1) LHSet
        readStringAt_part [of h "pre @ [CHR ''H'']" "?len k @ k @ ?len v @ v @ post"]
        readStringAt_part [of k "pre @ CHR ''H'' # ?len h @ h" "?len v @ v @ post"]
        readStringAt_part [of v "pre @ CHR ''H'' # ?len h @ h @ ?len k @ k" post]
      by (simp_all add: add_ac)
    then show ?thesis using LHSet st by (simp add: recover_op_def op_bytes_def)
  qed
qed

lemma rec_bytes_Cons: "\<exists>op bs. rec_bytes r = op # bs"
  by (cases r) (simp_all add: op_bytes_def)

definition log_bytes :: "log_rec list \<Rightarrow> string" where
  "log_bytes rs = concat (map rec_bytes rs)"

lemma log_bytes_simps [simp]:
  "log_bytes [] = []" "log_bytes (r # rs) = rec_bytes r @ log_bytes rs"
  "log_bytes (rs @ qs) = log_bytes rs @ log_bytes qs"
  by (simp_all add: log_bytes_def)

text \<open>Recovery of a log followed by anything: the log is applied, then the rest is read.\<close>

lemma recover_loop_log:
  assumes "list_all rec_fits rs"
  shows "recover_loop (pre @ log_bytes rs @ post) (length pre) st
    = recover_loop (pre @ log_bytes rs @ post) (length (pre @ log_bytes rs)) (foldl rec_apply st rs)"
  using assms
proof (induction rs arbitrary: pre st)
  case Nil
  then show ?case by simp
next
  case (Cons r rs)
  let ?f = "pre @ log_bytes (r # rs) @ post"
  obtain op bs where op: "rec_bytes r = op # bs" using rec_bytes_Cons by blast
  have "ReadAt ?f 1 (length pre) = Some [op]"
    using op by (simp add: ReadAt_def)
  moreover have "recover_op ?f op (length pre + 1) st
      = (length (pre @ rec_bytes r), rec_apply st r)"
    using recover_op_record [of r ?f pre "log_bytes rs @ post" st] Cons.prems op by simp
  ultimately have "recover_loop ?f (length pre) st
      = recover_loop ?f (length (pre @ rec_bytes r)) (rec_apply st r)"
    by (subst recover_loop.simps) simp
  also have "\<dots> = recover_loop ?f (length (pre @ log_bytes (r # rs)))
      (foldl rec_apply (rec_apply st r) rs)"
    using Cons.IH [of "pre @ rec_bytes r" "rec_apply st r"] Cons.prems by simp
  finally show ?case by simp
qed

lemma recover_loop_end: "length f \<le> pos \<Longrightarrow> recover_loop f pos st = st"
  by (subst recover_loop.simps) (simp add: ReadAt_def)

section \<open>Durability\<close>

text \<open>
  The invariant of an open store: the file is the magic followed by a log of whole records, the
  next write goes to its end, and the maps are what the log says.
\<close>

definition logged :: "BitcaskStore \<Rightarrow> bool" where
  "logged s \<longleftrightarrow> bc_open s \<and> bc_off s = length (bc_file s)
     \<and> (\<exists>rs. list_all rec_fits rs \<and> bc_file s = bitcaskMagic @ log_bytes rs
            \<and> (bc_strings s, bc_hashes s) = foldl rec_apply (Map.empty, Map.empty) rs)"

fun call_fits :: "store_call \<Rightarrow> bool" where
  "call_fits (CSet k v) \<longleftrightarrow> fits k \<and> fits v"
| "call_fits (CDel k) \<longleftrightarrow> fits k"
| "call_fits (CHSet h k v) \<longleftrightarrow> fits h \<and> fits k \<and> fits v"
| "call_fits _ \<longleftrightarrow> True"

lemma logged_append:
  assumes "logged s" and "rec_fits r"
    and "(strs', hs') = rec_apply (bc_strings s, bc_hashes s) r"
  shows "logged (file_Write (rec_bytes r) (s\<lparr>bc_strings := strs', bc_hashes := hs'\<rparr>))"
proof -
  obtain rs where rs: "list_all rec_fits rs" "bc_file s = bitcaskMagic @ log_bytes rs"
    "(bc_strings s, bc_hashes s) = foldl rec_apply (Map.empty, Map.empty) rs"
    using assms(1) by (auto simp: logged_def)
  then have "list_all rec_fits (rs @ [r])"
    "bc_file s @ rec_bytes r = bitcaskMagic @ log_bytes (rs @ [r])"
    "(strs', hs') = foldl rec_apply (Map.empty, Map.empty) (rs @ [r])"
    using assms(2,3) by simp_all
  moreover have "bc_open s" "bc_off s = length (bc_file s)"
    using assms(1) by (simp_all add: logged_def)
  ultimately show ?thesis
    unfolding logged_def by (intro conjI exI [of _ "rs @ [r]"]) (simp_all add: file_Write_def)
qed

lemma logged_Set: "logged s \<Longrightarrow> fits k \<Longrightarrow> fits v \<Longrightarrow> logged (BitcaskStore_Set k v s)"
  using logged_append [of s "LSet k v"] by (simp add: BitcaskStore_defs)

lemma logged_Del: "logged s \<Longrightarrow> fits k \<Longrightarrow> logged (BitcaskStore_Del k s)"
  using logged_append [of s "LDel k"] by (simp add: BitcaskStore_defs)

lemma logged_HSet:
  "logged s \<Longrightarrow> fits h \<Longrightarrow> fits k \<Longrightarrow> fits v \<Longrightarrow> logged (BitcaskStore_HSet h k v s)"
  using logged_append [of s "LHSet h k v"] by (simp add: BitcaskStore_defs)

lemma logged_call:
  assumes "logged s" and "call_fits c" and "call BitcaskStore_ops c s = Inr (r, s')"
  shows "logged s'"
  using assms by (cases c) (auto simp: BitcaskStore_ops_def logged_Set logged_Del logged_HSet)

lemma logged_calls:
  assumes "logged s" and "\<forall>c \<in> set cs. call_fits c" and "calls BitcaskStore_ops cs s = Inr (rs, s')"
  shows "logged s'"
  using assms
proof (induction cs arbitrary: s rs)
  case Nil
  then show ?case by simp
next
  case (Cons c cs)
  then show ?case by (auto simp: res_simps dest: logged_call)
qed

text \<open>Opening the file of such a store rebuilds the very store.\<close>

lemma reopen_logged:
  assumes "logged s" and "bc_file s' = bc_file s"
  shows "NewBitcaskStore (Some (bc_file s')) = Inr s"
proof -
  obtain rs where rs: "list_all rec_fits rs" "bc_file s = bitcaskMagic @ log_bytes rs"
    "(bc_strings s, bc_hashes s) = foldl rec_apply (Map.empty, Map.empty) rs"
    using assms(1) by (auto simp: logged_def)
  have "recover_loop (bc_file s) (length bitcaskMagic) (Map.empty, Map.empty)
      = (bc_strings s, bc_hashes s)"
    using recover_loop_log [OF rs(1), of bitcaskMagic "[]"] rs(2,3)
    by (simp add: recover_loop_end)
  moreover have "ReadAt (bc_file s) (length bitcaskMagic) 0 = Some bitcaskMagic"
    using rs(2) by (simp add: ReadAt_def)
  moreover have "bc_file s \<noteq> []"
    using rs(2) by (simp add: bitcaskMagic_def)
  ultimately show ?thesis
    using assms by (simp add: NewBitcaskStore_def recover_def Let_def logged_def)
qed

definition fresh_bitcask :: BitcaskStore where
  "fresh_bitcask = \<lparr>bc_file = bitcaskMagic, bc_off = length bitcaskMagic, bc_open = True,
     bc_strings = Map.empty, bc_hashes = Map.empty\<rparr>"

lemma open_empty_file: "NewBitcaskStore (Some []) = Inr fresh_bitcask"
  by (simp add: NewBitcaskStore_def recover_def file_Write_def fresh_bitcask_def)

lemma logged_fresh: "logged fresh_bitcask"
  unfolding logged_def fresh_bitcask_def
  by (auto intro!: exI [of _ "[]"])

section \<open>Properties\<close>

text \<open>
  C3: the log is durable. From an empty file, or from any file left by earlier sessions, whatever
  is called (with strings below 4 GiB), closing the store and opening its file again gives a
  store with exactly the contents the abstract store has, and that is again a good log.
\<close>

theorem bitcask_durable:
  assumes "logged s" and "\<forall>c \<in> set cs. call_fits c"
  shows "\<exists>s' s''. calls BitcaskStore_ops cs s = Inr (fst (a_calls cs (BitcaskStore_abs s)), s')
    \<and> NewBitcaskStore (Some (bc_file (BitcaskStore_Close s'))) = Inr s'' \<and> logged s''
    \<and> BitcaskStore_abs s'' = snd (a_calls cs (BitcaskStore_abs s))"
proof -
  obtain s' where s': "calls BitcaskStore_ops cs s = Inr (fst (a_calls cs (BitcaskStore_abs s)), s')"
    "BitcaskStore_abs s' = snd (a_calls cs (BitcaskStore_abs s))"
    using bitst.calls_correct [where s = s and cs = cs] by auto
  have "logged s'" using logged_calls [OF assms s'(1)] .
  moreover then have "NewBitcaskStore (Some (bc_file (BitcaskStore_Close s'))) = Inr s'"
    using reopen_logged [of s' "BitcaskStore_Close s'"] by (simp add: BitcaskStore_Close_def)
  ultimately show ?thesis using s' by blast
qed

theorem bitcask_durable_witness:
  "\<exists>s' s''. calls BitcaskStore_ops [CSet ''k'' ''v'', CHSet ''h'' ''f'' ''x'', CDel ''k'']
      fresh_bitcask = Inr ([RUnit, RUnit, RUnit], s')
    \<and> NewBitcaskStore (Some (bc_file (BitcaskStore_Close s'))) = Inr s''
    \<and> BitcaskStore_abs s'' = \<lparr>astr = Map.empty, ahash = [''h'' \<mapsto> [''f'' \<mapsto> ''x'']]\<rparr>"
proof -
  let ?cs = "[CSet ''k'' ''v'', CHSet ''h'' ''f'' ''x'', CDel ''k'']"
  have fit: "\<forall>c \<in> set ?cs. call_fits c" by (simp add: fits_def)
  have "a_calls ?cs (BitcaskStore_abs fresh_bitcask)
      = ([RUnit, RUnit, RUnit], \<lparr>astr = Map.empty, ahash = [''h'' \<mapsto> [''f'' \<mapsto> ''x'']]\<rparr>)"
    by (simp add: BitcaskStore_abs_def fresh_bitcask_def a_defs hashes_set_def)
  then show ?thesis using bitcask_durable [OF logged_fresh fit] by auto
qed

text \<open>
  a crash that leaves only the operation byte of a \<open>Set\<close> at the end of the log is not
  detected: recovery reads an empty key and an empty value past the end of the file and stores
  them, so that a key nobody wrote appears.
\<close>

theorem bitcask_torn_set:
  assumes "logged s"
  shows "\<exists>s'. NewBitcaskStore (Some (bc_file s @ take 1 (op_bytes CHR ''S'' [k, v]))) = Inr s'
    \<and> bc_strings s' = (bc_strings s)([] \<mapsto> []) \<and> bc_hashes s' = bc_hashes s"
proof -
  obtain rs where rs: "list_all rec_fits rs" "bc_file s = bitcaskMagic @ log_bytes rs"
    "(bc_strings s, bc_hashes s) = foldl rec_apply (Map.empty, Map.empty) rs"
    using assms by (auto simp: logged_def)
  let ?f = "bc_file s @ ''S''"
  have torn: "readStringAt ?f (length (bc_file s) + 1) = ([], length (bc_file s) + 1)"
    by (simp add: readStringAt_def ReadAt_def)
  have "recover_loop ?f (length (bc_file s)) (bc_strings s, bc_hashes s)
      = recover_loop ?f (length (bc_file s) + 1) ((bc_strings s)([] \<mapsto> []), bc_hashes s)"
    using torn by (subst recover_loop.simps) (simp add: ReadAt_def recover_op_def)
  also have "\<dots> = ((bc_strings s)([] \<mapsto> []), bc_hashes s)"
    by (simp add: recover_loop_end)
  finally have "recover_loop ?f (length bitcaskMagic) (Map.empty, Map.empty)
      = ((bc_strings s)([] \<mapsto> []), bc_hashes s)"
    using recover_loop_log [OF rs(1), of bitcaskMagic "''S''"] rs(2,3) by simp
  moreover have "ReadAt ?f (length bitcaskMagic) 0 = Some bitcaskMagic"
    using rs(2) by (simp add: ReadAt_def)
  moreover have "take 1 (op_bytes CHR ''S'' [k, v]) = ''S''"
    by (simp add: op_bytes_def)
  ultimately show ?thesis
    by (simp add: NewBitcaskStore_def recover_def Let_def)
qed

theorem bitcask_torn_set_witness:
  "logged fresh_bitcask \<and> (\<exists>s'. NewBitcaskStore
      (Some (bc_file fresh_bitcask @ take 1 (op_bytes CHR ''S'' [''a'', ''b'']))) = Inr s'
    \<and> bc_strings s' = [[] \<mapsto> []])"
  using bitcask_torn_set [OF logged_fresh, of "''a''" "''b''"] logged_fresh
  by (auto simp: fresh_bitcask_def)

end
