(* ===== verification/Go_Strings.thy ===== *)
theory Go_Strings
  imports FC_Prelude
begin

text \<open>
  What the program uses of \<open>strconv\<close> and \<open>strings\<close>: decimal printing and parsing of 64-bit integers
  (\<open>Itoa\<close>, \<open>ParseInt(s, 10, 64)\<close>, \<open>Atoi\<close>) and \<open>ToUpper\<close>. The two errors of \<open>ParseInt\<close> (syntax and
  range) are one value \<open>None\<close>: no caller tells them apart.
\<close>

section \<open>Decimal numbers\<close>

definition digit :: "nat \<Rightarrow> char" where
  "digit d = char_of (48 + d)"

fun dec :: "nat \<Rightarrow> string" where
  "dec n = (if n < 10 then [digit n] else dec (n div 10) @ [digit (n mod 10)])"

declare dec.simps [simp del]

definition Itoa :: "int \<Rightarrow> string" where
  "Itoa i = (if i < 0 then CHR ''-'' # dec (nat (- i)) else dec (nat i))"

definition digit_val :: "char \<Rightarrow> nat option" where
  "digit_val c = (let d = of_char c :: nat in if 48 \<le> d \<and> d \<le> 57 then Some (d - 48) else None)"

fun parse_digits :: "nat \<Rightarrow> string \<Rightarrow> nat option" where
  "parse_digits acc [] = Some acc"
| "parse_digits acc (c # cs) =
     (case digit_val c of None \<Rightarrow> None | Some d \<Rightarrow> parse_digits (acc * 10 + d) cs)"

definition ParseUint :: "string \<Rightarrow> nat option" where
  "ParseUint s = (if s = [] then None else parse_digits 0 s)"

definition ParseInt :: "string \<Rightarrow> int option" where
  "ParseInt s =
     (let neg = (s \<noteq> [] \<and> hd s = CHR ''-'');
          digits = (if s \<noteq> [] \<and> (hd s = CHR ''-'' \<or> hd s = CHR ''+'') then tl s else s)
      in case ParseUint digits of
           None \<Rightarrow> None
         | Some n \<Rightarrow> let i = (if neg then - int n else int n) in if is_int64 i then Some i else None)"

lemma digit_val_digit [simp]: "d < 10 \<Longrightarrow> digit_val (digit d) = Some d"
  by (simp add: digit_val_def digit_def)

lemma parse_digits_append:
  "parse_digits acc (xs @ ys)
     = (case parse_digits acc xs of None \<Rightarrow> None | Some n \<Rightarrow> parse_digits n ys)"
  by (induction xs arbitrary: acc) (auto split: option.splits)

lemma dec_not_Nil [simp]: "dec n \<noteq> []"
  by (subst dec.simps) simp

lemma parse_digits_dec: "parse_digits acc (dec n) = Some (acc * 10 ^ length (dec n) + n)"
proof (induction n arbitrary: acc rule: dec.induct)
  case (1 n)
  show ?case
  proof (cases "n < 10")
    case True
    then show ?thesis by (simp add: dec.simps [of n])
  next
    case False
    then have "parse_digits acc (dec n)
        = Some ((acc * 10 ^ length (dec (n div 10)) + n div 10) * 10 + n mod 10)"
      using 1 [OF False] by (simp add: dec.simps [of n] parse_digits_append)
    also have "\<dots> = Some (acc * 10 ^ length (dec n) + n)"
      using False by (simp add: dec.simps [of n] algebra_simps)
    finally show ?thesis .
  qed
qed

lemma ParseUint_dec [simp]: "ParseUint (dec n) = Some n"
  by (simp add: ParseUint_def parse_digits_dec)

lemma hd_dec: "\<exists>d < 10. hd (dec n) = digit d"
proof (induction n rule: dec.induct)
  case (1 n)
  then show ?case by (cases "n < 10") (auto simp: dec.simps [of n])
qed

lemma set_dec: "c \<in> set (dec n) \<Longrightarrow> \<exists>d < 10. c = digit d"
proof (induction n rule: dec.induct)
  case (1 n)
  then show ?case
    by (cases "n < 10") (auto simp: dec.simps [of n] intro: exI [of _ "n mod 10"])
qed

lemma digit_neq: "d < 10 \<Longrightarrow> digit d \<noteq> CHR ''-'' \<and> digit d \<noteq> CHR ''+'' \<and> digit d \<noteq> CHR 0x0D"
  using digit_val_digit [of d] by (auto simp: digit_val_def Let_def)

lemma hd_dec_neq: "hd (dec n) \<noteq> CHR ''-'' \<and> hd (dec n) \<noteq> CHR ''+''"
  using hd_dec [of n] digit_neq by metis

lemma ParseInt_dec: "int n \<le> max_int64 \<Longrightarrow> ParseInt (dec n) = Some (int n)"
  using hd_dec_neq [of n] by (simp add: ParseInt_def Let_def int64_defs)

lemma ParseInt_Itoa: "is_int64 i \<Longrightarrow> ParseInt (Itoa i) = Some i"
  using hd_dec_neq [of "nat i"] by (auto simp: ParseInt_def Itoa_def Let_def)

lemma dec_no_CR: "CHR 0x0D \<notin> set (dec n)"
  using set_dec [of "CHR 0x0D" n] digit_neq by metis

lemma Itoa_no_CR: "CHR 0x0D \<notin> set (Itoa i)"
  by (simp add: Itoa_def dec_no_CR)

lemma ParseInt_range: "ParseInt s = Some i \<Longrightarrow> is_int64 i"
  by (auto simp: ParseInt_def Let_def split: option.splits if_splits)

text \<open>\<open>Atoi\<close> gives what \<open>ParseInt(s, 10, 0)\<close> gives; \<open>int\<close> has 64 bits.\<close>

definition Atoi :: "string \<Rightarrow> int option" where
  "Atoi s = ParseInt s"

section \<open>Upper case\<close>

text \<open>
  \<open>strings.ToUpper\<close> maps the letters of an ASCII string; on any other string it maps each rune by
  the Unicode tables, the parameter \<open>up\<close>.
\<close>

definition upper_char :: "char \<Rightarrow> char" where
  "upper_char c = (let n = of_char c :: nat in if 97 \<le> n \<and> n \<le> 122 then char_of (n - 32) else c)"

definition is_ascii :: "string \<Rightarrow> bool" where
  "is_ascii s = list_all (\<lambda>c. (of_char c :: nat) < 128) s"

definition ToUpper :: "(string \<Rightarrow> string) \<Rightarrow> string \<Rightarrow> string" where
  "ToUpper up s = (if is_ascii s then map upper_char s else up s)"

end
