(* ===== verification/Resp.thy ===== *)
theory Resp
  imports Go_Strings
begin

text \<open>
  The wire protocol (\<open>resp/value.go\<close>, \<open>resp/writer.go\<close>, \<open>resp/reader.go\<close>). The reader sits on a
  \<open>bufio.Reader\<close>: a buffer of 4096 bytes over a source that hands out its bytes in chunks, as a
  connection does packet by packet; a file is a source of one chunk. What a read returns depends on
  where the chunks end, so the chunks are part of the state.
\<close>

section \<open>Values and their encoding\<close>

datatype Value =
  Value (Type: string) (Str: string) (Num: int) (Bulk: string) (Array: "Value list")

text \<open>The composite literals of the sources: the fields that are not given have their zero value.\<close>

definition null_value :: Value where "null_value = Value ''null'' [] 0 [] []"
definition string_value :: "string \<Rightarrow> Value" where "string_value s = Value ''string'' s 0 [] []"
definition error_value :: "string \<Rightarrow> Value" where "error_value s = Value ''error'' s 0 [] []"
definition int_value :: "int \<Rightarrow> Value" where "int_value n = Value ''integer'' [] n [] []"
definition bulk_value :: "string \<Rightarrow> Value" where "bulk_value b = Value ''bulk'' [] 0 b []"
definition array_value :: "Value list \<Rightarrow> Value" where "array_value vs = Value ''array'' [] 0 [] vs"
definition zero_value :: Value where "zero_value = Value [] [] 0 [] []"

lemmas value_defs = null_value_def string_value_def error_value_def int_value_def bulk_value_def
  array_value_def zero_value_def

abbreviation CR :: char where "CR \<equiv> CHR 0x0D"
abbreviation LF :: char where "LF \<equiv> CHR 0x0A"

definition CRLF :: string where "CRLF = [CR, LF]"

definition marshalString :: "Value \<Rightarrow> string" where
  "marshalString v = CHR ''+'' # Str v @ CRLF"

definition marshallError :: "Value \<Rightarrow> string" where
  "marshallError v = CHR ''-'' # Str v @ CRLF"

definition marshalBulk :: "Value \<Rightarrow> string" where
  "marshalBulk v = CHR ''$'' # Itoa (int (length (Bulk v))) @ CRLF @ Bulk v @ CRLF"

definition marshallNull :: "Value \<Rightarrow> string" where
  "marshallNull v = ''$-1'' @ CRLF"

definition marshalInteger :: "Value \<Rightarrow> string" where
  "marshalInteger v = CHR '':'' # Itoa (Num v) @ CRLF"

fun Marshal :: "Value \<Rightarrow> string" where
  "Marshal (Value t s n b vs) =
     (if t = ''array'' then CHR ''*'' # Itoa (int (length vs)) @ CRLF @ concat (map Marshal vs)
      else if t = ''bulk'' then marshalBulk (Value t s n b vs)
      else if t = ''string'' then marshalString (Value t s n b vs)
      else if t = ''null'' then marshallNull (Value t s n b vs)
      else if t = ''error'' then marshallError (Value t s n b vs)
      else if t = ''integer'' then marshalInteger (Value t s n b vs)
      else [])"

section \<open>bufio.Reader\<close>

record breader =
  br_buf :: string
  br_src :: "string list"

abbreviation bufsize :: nat where "bufsize \<equiv> 4096"

text \<open>One \<open>Read\<close> of the source into \<open>c\<close> bytes: at most the rest of the current chunk.\<close>

fun src_Read :: "nat \<Rightarrow> string list \<Rightarrow> (string \<times> string list) option" where
  "src_Read c [] = None"
| "src_Read c ([] # cs) = src_Read c cs"
| "src_Read c ((x # xs) # cs) =
     Some (take c (x # xs), if length (x # xs) > c then drop c (x # xs) # cs else cs)"

definition bufio_ReadByte :: "breader \<Rightarrow> (char \<times> breader) option" where
  "bufio_ReadByte r =
     (case br_buf r of
        b # bs \<Rightarrow> Some (b, r\<lparr>br_buf := bs\<rparr>)
      | [] \<Rightarrow>
          (case src_Read bufsize (br_src r) of
             Some (b # bs, src) \<Rightarrow> Some (b, \<lparr>br_buf = bs, br_src = src\<rparr>)
           | _ \<Rightarrow> None))"

text \<open>
  \<open>Read(p)\<close> for a slice of \<open>n\<close> bytes: what is buffered if anything is; else one read of the source,
  straight into \<open>p\<close> if that is at least as long as the buffer. It does not try to fill \<open>p\<close>.
\<close>

definition bufio_Read :: "nat \<Rightarrow> breader \<Rightarrow> string \<times> breader" where
  "bufio_Read n r =
     (if n = 0 then ([], r)
      else if br_buf r \<noteq> [] then (take n (br_buf r), r\<lparr>br_buf := drop n (br_buf r)\<rparr>)
      else if n \<ge> bufsize then
        (case src_Read n (br_src r) of
           None \<Rightarrow> ([], r) | Some (bs, src) \<Rightarrow> (bs, r\<lparr>br_src := src\<rparr>))
      else
        (case src_Read bufsize (br_src r) of
           None \<Rightarrow> ([], r)
         | Some (bs, src) \<Rightarrow> (take n bs, \<lparr>br_buf = drop n bs, br_src = src\<rparr>)))"

definition remaining :: "breader \<Rightarrow> string" where
  "remaining r = br_buf r @ concat (br_src r)"

lemma src_Read_concat: "src_Read c src = Some (bs, src') \<Longrightarrow> concat src = bs @ concat src'"
  by (induction c src rule: src_Read.induct) (auto split: if_splits)

lemma src_Read_nonempty: "src_Read c src = Some (bs, src') \<Longrightarrow> 0 < c \<Longrightarrow> bs \<noteq> []"
  by (induction c src rule: src_Read.induct) (auto split: if_splits)

lemma src_Read_None: "src_Read c src = None \<longleftrightarrow> concat src = []"
  by (induction c src rule: src_Read.induct) auto

lemma src_Read_length: "src_Read c src = Some (bs, src') \<Longrightarrow> length bs \<le> c"
  by (induction c src rule: src_Read.induct) (auto split: if_splits)

lemma ReadByte_remaining:
  "bufio_ReadByte r = Some (b, r') \<Longrightarrow> remaining r = b # remaining r'"
  using src_Read_concat [of bufsize "br_src r"]
  by (fastforce simp: bufio_ReadByte_def remaining_def split: list.splits option.splits)

lemma ReadByte_None: "bufio_ReadByte r = None \<longleftrightarrow> remaining r = []"
proof -
  have "src_Read bufsize src = Some ([], src') \<Longrightarrow> False" for src src'
    using src_Read_nonempty [of bufsize src "[]"] by simp
  then show ?thesis
    using src_Read_None [of bufsize "br_src r"]
    by (auto simp: bufio_ReadByte_def remaining_def split: list.splits option.splits)
qed

lemma bufio_Read_remaining:
  "bufio_Read n r = (bs, r') \<Longrightarrow> remaining r = bs @ remaining r' \<and> length bs \<le> n"
  using src_Read_concat [of n "br_src r"] src_Read_concat [of bufsize "br_src r"]
    src_Read_length [of n "br_src r"]
  by (auto simp: bufio_Read_def remaining_def split: if_splits option.splits)

section \<open>The reader\<close>

text \<open>
  \<open>io.EOF\<close> when the source ends, or the error of \<open>ParseInt\<close>. A panic ends the program. The methods'
  byte counts \<open>n\<close> are left out: no caller uses them.
\<close>

datatype rd_error = EOF | BadInt

datatype 'a rd_out = Done 'a breader | Fail rd_error breader | Crash | Deep

function readLine_loop :: "string \<Rightarrow> breader \<Rightarrow> string option \<times> breader" where
  "readLine_loop line r =
     (case bufio_ReadByte r of
        None \<Rightarrow> (None, r)
      | Some (b, r') \<Rightarrow>
          let line' = line @ [b]
          in if length line' \<ge> 2 \<and> line' ! (length line' - 2) = CR
             then (Some (take (length line' - 2) line'), r')
             else readLine_loop line' r')"
  by pat_completeness auto

termination
proof (relation "measure (\<lambda>(line, r). length (remaining r))")
  show "wf (measure (\<lambda>(line, r). length (remaining r)))" by simp
next
  fix line r x b r' line'
  assume "bufio_ReadByte r = Some x" and "(b, r') = x"
  then show "((line', r'), line, r) \<in> measure (\<lambda>(line, r). length (remaining r))"
    using ReadByte_remaining [of r b r'] by auto
qed

declare readLine_loop.simps [simp del]

definition readLine :: "breader \<Rightarrow> string option \<times> breader" where
  "readLine r = readLine_loop [] r"

definition readInteger :: "breader \<Rightarrow> int rd_out" where
  "readInteger r =
     (case readLine r of
        (None, r') \<Rightarrow> Fail EOF r'
      | (Some line, r') \<Rightarrow> (case ParseInt line of None \<Rightarrow> Fail BadInt r' | Some i \<Rightarrow> Done i r'))"

text \<open>\<open>make([]byte, len)\<close> panics for a negative length and for one above the address space.\<close>

abbreviation maxAlloc :: int where "maxAlloc \<equiv> 2 ^ 48"

definition readBulk :: "breader \<Rightarrow> Value rd_out" where
  "readBulk r =
     (case readInteger r of
        Done len r1 \<Rightarrow>
          if len = -1 then Done null_value r1
          else if len < 0 \<or> len > maxAlloc then Crash
          else let (bs, r2) = bufio_Read (nat len) r1
               in Done (bulk_value (bs @ replicate (nat len - length bs) (CHR 0x00)))
                    (snd (readLine r2))
      | Fail err r1 \<Rightarrow> Fail err r1 | Crash \<Rightarrow> Crash | Deep \<Rightarrow> Deep)"

definition readSimpleString :: "breader \<Rightarrow> Value rd_out" where
  "readSimpleString r =
     (case readLine r of
        (None, r') \<Rightarrow> Fail EOF r' | (Some line, r') \<Rightarrow> Done (string_value line) r')"

definition readError :: "breader \<Rightarrow> Value rd_out" where
  "readError r =
     (case readLine r of
        (None, r') \<Rightarrow> Fail EOF r' | (Some line, r') \<Rightarrow> Done (error_value line) r')"

definition readIntegerValue :: "breader \<Rightarrow> Value rd_out" where
  "readIntegerValue r =
     (case readInteger r of
        Done n r1 \<Rightarrow> Done (int_value n) r1
      | Fail err r1 \<Rightarrow> Fail err r1 | Crash \<Rightarrow> Crash | Deep \<Rightarrow> Deep)"

text \<open>The loop of \<open>readArray\<close>, over the method \<open>Read\<close>.\<close>

fun read_elems :: "(breader \<Rightarrow> Value rd_out) \<Rightarrow> nat \<Rightarrow> Value list \<Rightarrow> breader \<Rightarrow> Value rd_out" where
  "read_elems rd 0 vs r = Done (array_value vs) r"
| "read_elems rd (Suc n) vs r =
     (case rd r of
        Done v r1 \<Rightarrow> read_elems rd n (vs @ [v]) r1
      | Fail err r1 \<Rightarrow> Fail err r1 | Crash \<Rightarrow> Crash | Deep \<Rightarrow> Deep)"

definition readArray :: "(breader \<Rightarrow> Value rd_out) \<Rightarrow> breader \<Rightarrow> Value rd_out" where
  "readArray rd r =
     (case readInteger r of
        Done len r1 \<Rightarrow> read_elems rd (nat len) [] r1
      | Fail err r1 \<Rightarrow> Fail err r1 | Crash \<Rightarrow> Crash | Deep \<Rightarrow> Deep)"

text \<open>
  \<open>Read\<close> calls itself through \<open>readArray\<close>, once per level of nesting; the first argument bounds the
  levels. A level takes a byte of the input, so the number of bytes left is enough for every input.
\<close>

fun Read_depth :: "nat \<Rightarrow> breader \<Rightarrow> Value rd_out" where
  "Read_depth 0 r = Deep"
| "Read_depth (Suc d) r =
     (case bufio_ReadByte r of
        None \<Rightarrow> Fail EOF r
      | Some (b, r1) \<Rightarrow>
          if b = CHR ''*'' then readArray (Read_depth d) r1
          else if b = CHR ''$'' then readBulk r1
          else if b = CHR ''+'' then readSimpleString r1
          else if b = CHR ''-'' then readError r1
          else if b = CHR '':'' then readIntegerValue r1
          else Done zero_value r1)"

definition Read :: "breader \<Rightarrow> Value rd_out" where
  "Read r = Read_depth (Suc (length (remaining r))) r"

definition NewResp :: "string list \<Rightarrow> breader" where
  "NewResp src = \<lparr>br_buf = [], br_src = src\<rparr>"

section \<open>The reader only moves forward, and returns\<close>

definition moves :: "breader \<Rightarrow> breader \<Rightarrow> bool" where
  "moves r r' \<longleftrightarrow> (\<exists>p. remaining r = p @ remaining r')"

lemma moves_refl [simp]: "moves r r"
  by (simp add: moves_def)

lemma moves_trans [trans]: "moves a b \<Longrightarrow> moves b c \<Longrightarrow> moves a c"
  by (metis append.assoc moves_def)

lemma moves_length: "moves r r' \<Longrightarrow> length (remaining r') \<le> length (remaining r)"
  by (auto simp: moves_def)

lemma readLine_loop_moves: "readLine_loop line r = (x, r') \<Longrightarrow> moves r r'"
proof (induction line r arbitrary: x r' rule: readLine_loop.induct)
  case (1 line r)
  show ?case
  proof (cases "bufio_ReadByte r")
    case None
    then show ?thesis using 1(2) by (simp add: readLine_loop.simps [of line r])
  next
    case (Some br)
    obtain b r1 where br: "br = (b, r1)" by (cases br)
    have m: "moves r r1" using ReadByte_remaining Some br by (auto simp: moves_def)
    show ?thesis
    proof (cases "length (line @ [b]) \<ge> 2 \<and> (line @ [b]) ! (length (line @ [b]) - 2) = CR")
      case True
      then show ?thesis using 1(2) Some br m by (simp add: readLine_loop.simps [of line r] Let_def)
    next
      case False
      then have "readLine_loop (line @ [b]) r1 = (x, r')"
        using 1(2) Some br by (auto simp: readLine_loop.simps [of line r] Let_def split: if_splits)
      then have "moves r1 r'" using 1(1) Some br False by metis
      with m show ?thesis by (rule moves_trans)
    qed
  qed
qed

lemma readLine_moves: "readLine r = (x, r') \<Longrightarrow> moves r r'"
  by (simp add: readLine_def readLine_loop_moves)

text \<open>\<open>steps out r\<close>: where a result leaves the reader, it has only moved forward.\<close>

fun steps :: "'a rd_out \<Rightarrow> breader \<Rightarrow> bool" where
  "steps (Done v r') r \<longleftrightarrow> moves r r'"
| "steps (Fail err r') r \<longleftrightarrow> moves r r'"
| "steps Crash r \<longleftrightarrow> True"
| "steps Deep r \<longleftrightarrow> False"

lemma steps_moves: "steps out r1 \<Longrightarrow> moves r r1 \<Longrightarrow> steps out r"
  by (cases out) (auto intro: moves_trans)

lemma readInteger_steps: "steps (readInteger r) r"
  using readLine_moves [of r] by (auto simp: readInteger_def split: prod.splits option.splits)

lemma readBulk_steps: "steps (readBulk r) r"
proof (cases "readInteger r")
  case (Done len r1)
  then have m: "moves r r1" using readInteger_steps [of r] by simp
  obtain bs r2 where b: "bufio_Read (nat len) r1 = (bs, r2)" by fastforce
  have "moves r1 r2" using bufio_Read_remaining [OF b] by (auto simp: moves_def)
  moreover have "moves r2 (snd (readLine r2))" using readLine_moves [of r2] by (cases "readLine r2") simp
  ultimately have "moves r (snd (readLine r2))" using m moves_trans by blast
  with Done b m show ?thesis by (simp add: readBulk_def)
qed (use readInteger_steps [of r] in \<open>simp_all add: readBulk_def\<close>)

lemma read_leaf_steps: "steps (readSimpleString r) r" "steps (readError r) r" "steps (readIntegerValue r) r"
  using readLine_moves [of r] readInteger_steps [of r]
  by (auto simp: readSimpleString_def readError_def readIntegerValue_def
      split: prod.splits option.splits rd_out.splits)

lemma read_elems_steps:
  assumes "\<And>r'. moves r r' \<Longrightarrow> steps (rd r') r'"
  shows "steps (read_elems rd n vs r) r"
  using assms
proof (induction n arbitrary: vs r)
  case 0
  then show ?case by simp
next
  case (Suc n)
  show ?case
  proof (cases "rd r")
    case (Done v r1)
    then have m: "moves r r1" using Suc.prems [of r] by simp
    then have "steps (read_elems rd n (vs @ [v]) r1) r1"
      using Suc.IH Suc.prems moves_trans by blast
    with Done m show ?thesis using steps_moves by simp
  qed (use Suc.prems [of r] in simp_all)
qed

lemma readArray_steps:
  assumes "\<And>r'. moves r r' \<Longrightarrow> steps (rd r') r'"
  shows "steps (readArray rd r) r"
proof (cases "readInteger r")
  case (Done len r2)
  then have m2: "moves r r2" using readInteger_steps [of r] by simp
  have "steps (read_elems rd (nat len) [] r2) r2"
    using assms moves_trans [OF m2] by (intro read_elems_steps) blast
  with Done m2 show ?thesis by (simp add: readArray_def steps_moves)
qed (use readInteger_steps [of r] in \<open>simp_all add: readArray_def\<close>)

lemma Read_depth_steps: "length (remaining r) < d \<Longrightarrow> steps (Read_depth d r) r"
proof (induction d arbitrary: r)
  case 0
  then show ?case by simp
next
  case (Suc d)
  show ?case
  proof (cases "bufio_ReadByte r")
    case None
    then show ?thesis by simp
  next
    case (Some br)
    obtain b r1 where br: "br = (b, r1)" by (cases br)
    have rem: "remaining r = b # remaining r1" using ReadByte_remaining Some br by simp
    then have m: "moves r r1" by (auto simp: moves_def)
    have "steps (readArray (Read_depth d) r1) r1"
      using Suc.IH Suc.prems rem by (intro readArray_steps) (auto dest: moves_length)
    then show ?thesis
      using Some br m readBulk_steps [of r1] read_leaf_steps [of r1] by (auto intro: steps_moves)
  qed
qed

section \<open>Reading what was written\<close>

abbreviation rd_at :: "string \<Rightarrow> string list \<Rightarrow> breader" where
  "rd_at buf src \<equiv> \<lparr>br_buf = buf, br_src = src\<rparr>"

lemma ReadByte_buffered [simp]: "bufio_ReadByte (rd_at (b # bs) src) = Some (b, rd_at bs src)"
  by (simp add: bufio_ReadByte_def)

lemma readLine_loop_end:
  assumes "bufio_ReadByte r = Some (CR, r1)" and "bufio_ReadByte r1 = Some (c, r2)"
    and "CR \<notin> set line"
  shows "readLine_loop line r = (Some line, r2)"
proof -
  have no: "\<not> (length (line @ [CR]) \<ge> 2 \<and> (line @ [CR]) ! (length (line @ [CR]) - 2) = CR)"
  proof (cases line rule: rev_cases)
    case Nil
    then show ?thesis by simp
  next
    case (snoc ys y)
    then show ?thesis using assms(3) by (auto simp: nth_append)
  qed
  have "readLine_loop line r = readLine_loop (line @ [CR]) r1"
    using assms(1) no by (subst readLine_loop.simps) (auto simp: Let_def)
  also have "\<dots> = (Some line, r2)"
    using assms(2) by (subst readLine_loop.simps) (simp add: Let_def nth_append)
  finally show ?thesis .
qed

lemma readLine_loop_step:
  assumes "bufio_ReadByte r = Some (b, r1)" and "CR \<notin> set line"
  shows "b \<noteq> CR \<Longrightarrow> readLine_loop line r = readLine_loop (line @ [b]) r1"
proof -
  have "\<not> (length (line @ [b]) \<ge> 2 \<and> (line @ [b]) ! (length (line @ [b]) - 2) = CR)"
  proof (cases line rule: rev_cases)
    case Nil
    then show ?thesis by simp
  next
    case (snoc ys y)
    then show ?thesis using assms(2) by (auto simp: nth_append)
  qed
  then show ?thesis using assms(1) by (subst readLine_loop.simps) (auto simp: Let_def)
qed

lemma readLine_loop_buffered:
  assumes "CR \<notin> set line" and "CR \<notin> set xs"
  shows "readLine_loop line (rd_at (xs @ CR # c # y) src) = (Some (line @ xs), rd_at y src)"
  using assms
proof (induction xs arbitrary: line)
  case Nil
  then show ?case by (simp add: readLine_loop_end)
next
  case (Cons x xs)
  have "readLine_loop line (rd_at ((x # xs) @ CR # c # y) src)
      = readLine_loop (line @ [x]) (rd_at (xs @ CR # c # y) src)"
    using Cons.prems by (intro readLine_loop_step) auto
  also have "\<dots> = (Some ((line @ [x]) @ xs), rd_at y src)"
    using Cons.prems by (intro Cons.IH) auto
  finally show ?case by simp
qed

lemma readLine_buffered:
  "CR \<notin> set xs \<Longrightarrow> readLine (rd_at (xs @ CRLF @ y) src) = (Some xs, rd_at y src)"
  using readLine_loop_buffered [of "[]" xs LF y src] by (simp add: readLine_def CRLF_def)

text \<open>The same wherever the chunks end: only the bytes matter to \<open>readLine\<close>.\<close>

lemma ReadByte_Cons:
  assumes "remaining r = b # y"
  shows "\<exists>r'. bufio_ReadByte r = Some (b, r') \<and> remaining r' = y"
proof -
  have "bufio_ReadByte r \<noteq> None" using assms ReadByte_None by simp
  then obtain b' r' where "bufio_ReadByte r = Some (b', r')" by auto
  then show ?thesis using assms ReadByte_remaining by fastforce
qed

lemma readLine_loop_any:
  assumes "CR \<notin> set line" and "CR \<notin> set xs" and "remaining r = xs @ CR # c # y"
  shows "\<exists>r'. readLine_loop line r = (Some (line @ xs), r') \<and> remaining r' = y"
  using assms
proof (induction xs arbitrary: line r)
  case Nil
  then obtain r1 where r1: "bufio_ReadByte r = Some (CR, r1)" "remaining r1 = c # y"
    using ReadByte_Cons [of r CR "c # y"] by auto
  then obtain r2 where "bufio_ReadByte r1 = Some (c, r2)" "remaining r2 = y"
    using ReadByte_Cons by blast
  then show ?case using readLine_loop_end [OF r1(1)] Nil.prems(1) by simp
next
  case (Cons x xs)
  then obtain r1 where r1: "bufio_ReadByte r = Some (x, r1)" "remaining r1 = xs @ CR # c # y"
    using ReadByte_Cons [of r x] by auto
  have "readLine_loop line r = readLine_loop (line @ [x]) r1"
    using Cons.prems by (intro readLine_loop_step [OF r1(1)]) auto
  then show ?case using Cons.IH [of "line @ [x]" r1] Cons.prems r1(2) by auto
qed

lemma readInteger_any:
  assumes "is_int64 n" and "remaining r = Itoa n @ CRLF @ y"
  shows "\<exists>r'. readInteger r = Done n r' \<and> remaining r' = y"
  using readLine_loop_any [of "[]" "Itoa n" r LF y] assms Itoa_no_CR [of n]
  by (auto simp: readInteger_def readLine_def CRLF_def ParseInt_Itoa)

lemma readInteger_buffered:
  "is_int64 n \<Longrightarrow> readInteger (rd_at (Itoa n @ CRLF @ y) src) = Done n (rd_at y src)"
  by (simp add: readInteger_def readLine_buffered Itoa_no_CR ParseInt_Itoa)

lemma bufio_Read_buffered:
  "bufio_Read (length bs) (rd_at (bs @ y) src) = (bs, rd_at y src)"
  by (simp add: bufio_Read_def)

lemma readBulk_buffered:
  assumes "int (length b) \<le> maxAlloc"
  shows "readBulk (rd_at (Itoa (int (length b)) @ CRLF @ b @ CRLF @ y) src)
    = Done (bulk_value b) (rd_at y src)"
proof -
  have "is_int64 (int (length b))" using assms by (simp add: int64_defs)
  then have "readInteger (rd_at (Itoa (int (length b)) @ CRLF @ b @ CRLF @ y) src)
      = Done (int (length b)) (rd_at (b @ CRLF @ y) src)"
    using readInteger_buffered [of "int (length b)" "b @ CRLF @ y" src] by simp
  then show ?thesis
    using assms readLine_buffered [of "[]" y src] by (simp add: readBulk_def bufio_Read_buffered)
qed

text \<open>The values the program writes: the fields that their type does not use are zero.\<close>

fun wf_value :: "Value \<Rightarrow> bool" where
  "wf_value (Value t s n b vs) \<longleftrightarrow>
     (if t = ''array'' then
        s = [] \<and> n = 0 \<and> b = [] \<and> int (length vs) \<le> max_int64 \<and> list_all wf_value vs
      else if t = ''bulk'' then s = [] \<and> n = 0 \<and> vs = [] \<and> int (length b) \<le> maxAlloc
      else if t = ''string'' \<or> t = ''error'' then n = 0 \<and> b = [] \<and> vs = [] \<and> CR \<notin> set s
      else if t = ''null'' then s = [] \<and> n = 0 \<and> b = [] \<and> vs = []
      else t = ''integer'' \<and> s = [] \<and> b = [] \<and> vs = [] \<and> is_int64 n)"

lemma wf_value_type:
  "wf_value (Value t s n b vs) \<Longrightarrow> t = ''array'' \<or> t = ''bulk'' \<or> t = ''string'' \<or> t = ''error''
    \<or> t = ''null'' \<or> t = ''integer''"
  unfolding wf_value.simps by metis

lemma read_elems_buffered:
  assumes "\<And>v y. v \<in> set vs \<Longrightarrow> rd (rd_at (Marshal v @ y) src) = Done v (rd_at y src)"
  shows "read_elems rd (length vs) ws (rd_at (concat (map Marshal vs) @ y) src)
    = Done (array_value (ws @ vs)) (rd_at y src)"
  using assms by (induction vs arbitrary: ws) auto

lemma Read_depth_Marshal:
  assumes "wf_value v" and "length (Marshal v) < d"
  shows "Read_depth d (rd_at (Marshal v @ y) src) = Done v (rd_at y src)"
  using assms
proof (induction v arbitrary: d y)
  case (Value t s n b vs)
  obtain d' where d: "d = Suc d'" using Value.prems(2) by (cases d) auto
  consider "t = ''array''" | "t = ''bulk''" | "t = ''string''" | "t = ''error''" | "t = ''null''"
    | "t = ''integer''" using wf_value_type [OF Value.prems(1)] by metis
  then show ?case
  proof cases
    case 1
    have "Read_depth d' (rd_at (Marshal v @ y) src) = Done v (rd_at y src)" if v: "v \<in> set vs" for v y
    proof -
      have "length (Marshal v) \<le> length (concat (map Marshal vs))"
        using v by (induction vs) auto
      then show ?thesis using Value.IH [OF v] Value.prems v 1 d by (simp add: list_all_iff)
    qed
    then have "read_elems (Read_depth d') (length vs) [] (rd_at (concat (map Marshal vs) @ y) src)
        = Done (array_value ([] @ vs)) (rd_at y src)" by (rule read_elems_buffered)
    then show ?thesis
      using 1 d Value.prems(1) readInteger_buffered [of "int (length vs)" "concat (map Marshal vs) @ y" src]
      by (simp add: readArray_def array_value_def int64_defs)
  next
    case 2
    then show ?thesis
      using d Value.prems(1) readBulk_buffered [of b y src] by (simp add: marshalBulk_def bulk_value_def)
  next
    case 3
    then show ?thesis
      using d Value.prems(1) readLine_buffered [of s y src]
      by (simp add: marshalString_def readSimpleString_def string_value_def)
  next
    case 4
    then show ?thesis
      using d Value.prems(1) readLine_buffered [of s y src]
      by (simp add: marshallError_def readError_def error_value_def)
  next
    case 5
    have "Itoa (-1) = ''-1''" by code_simp
    then show ?thesis
      using 5 d Value.prems(1) readInteger_buffered [of "-1" y src]
      by (simp add: marshallNull_def readBulk_def null_value_def int64_defs)
  next
    case 6
    then show ?thesis
      using d Value.prems(1) readInteger_buffered [of n y src]
      by (simp add: marshalInteger_def readIntegerValue_def int_value_def)
  qed
qed

lemma Read_Marshal: "wf_value v \<Longrightarrow> Read (rd_at (Marshal v @ y) src) = Done v (rd_at y src)"
  unfolding Read_def by (rule Read_depth_Marshal) (simp_all add: remaining_def)

lemma Read_first_chunk:
  assumes "x \<noteq> []" and "length x \<le> bufsize"
  shows "Read (NewResp (x # cs)) = Read (rd_at x cs)"
proof -
  have "bufio_ReadByte (NewResp (x # cs)) = bufio_ReadByte (rd_at x cs)"
    using assms by (cases x) (simp_all add: bufio_ReadByte_def NewResp_def)
  moreover have "remaining (NewResp (x # cs)) = remaining (rd_at x cs)"
    by (simp add: remaining_def NewResp_def)
  moreover obtain b r1 where "bufio_ReadByte (rd_at x cs) = Some (b, r1)"
    using assms(1) by (cases x) auto
  ultimately show ?thesis by (simp add: Read_def)
qed

text \<open>A longer chunk fills the buffer and leaves the rest in the source.\<close>

lemma Read_long_chunk:
  assumes "bufsize < length x"
  shows "Read (NewResp (x # cs)) = Read (rd_at (take bufsize x) (drop bufsize x # cs))"
proof -
  have "bufio_ReadByte (NewResp (x # cs)) = bufio_ReadByte (rd_at (take bufsize x) (drop bufsize x # cs))"
    using assms by (cases x) (simp_all add: bufio_ReadByte_def NewResp_def)
  moreover have "remaining (NewResp (x # cs)) = remaining (rd_at (take bufsize x) (drop bufsize x # cs))"
    by (simp add: remaining_def NewResp_def)
  moreover obtain b r1 where "bufio_ReadByte (rd_at (take bufsize x) (drop bufsize x # cs)) = Some (b, r1)"
    using assms by (cases x) auto
  ultimately show ?thesis by (simp add: Read_def)
qed

lemma Marshal_not_Nil:
  assumes "wf_value v"
  shows "Marshal v \<noteq> []"
proof (cases v)
  case (Value t s n b vs)
  then have "wf_value (Value t s n b vs)" using assms by simp
  from wf_value_type [OF this] Value show ?thesis
    by (elim disjE) (simp_all add: marshalBulk_def marshalString_def marshallNull_def
        marshallError_def marshalInteger_def)
qed

section \<open>Properties\<close>




text \<open>
  C22: a bulk string with a negative length other than -1 crashes the reader, and with it the server,
  however the bytes arrive.
\<close>

theorem resp_negative_length_crashes:
  assumes "is_int64 n" and "n < -1" and "remaining r = CHR ''$'' # Itoa n @ CRLF @ y"
  shows "Read r = Crash"
proof -
  obtain r1 where r1: "bufio_ReadByte r = Some (CHR ''$'', r1)" "remaining r1 = Itoa n @ CRLF @ y"
    using ReadByte_Cons [OF assms(3)] by blast
  obtain r2 where "readInteger r1 = Done n r2"
    using readInteger_any [OF assms(1) r1(2)] by blast
  then show ?thesis using r1(1) assms(2) by (simp add: Read_def readBulk_def)
qed

theorem resp_negative_length_crashes_witness: "Read (NewResp [''$-'', ''2'' @ CRLF]) = Crash"
proof -
  have "Itoa (-2) = ''-2''" by code_simp
  then show ?thesis
    by (intro resp_negative_length_crashes [of "-2" _ "[]"])
      (simp_all add: int64_defs remaining_def NewResp_def)
qed

text \<open>
  C23: a bulk string that arrives in two chunks is cut at the end of the first one and padded with
  zero bytes up to its length: \<open>readBulk\<close> calls \<open>Read\<close> once and does not look at what it returned.
\<close>

theorem resp_split_bulk_corrupted:
  assumes "p \<noteq> []" and "int (length (p @ q)) \<le> maxAlloc"
    and "length (CHR ''$'' # Itoa (int (length (p @ q))) @ CRLF @ p) \<le> 4096"
  shows "\<exists>r'. Read (NewResp [CHR ''$'' # Itoa (int (length (p @ q))) @ CRLF @ p, q @ CRLF])
    = Done (bulk_value (p @ replicate (length q) (CHR 0x00))) r'"
proof -
  let ?n = "int (length (p @ q))"
  have "is_int64 ?n" using assms(2) by (simp add: int64_defs)
  then have "readInteger (rd_at (Itoa ?n @ CRLF @ p) [q @ CRLF]) = Done ?n (rd_at p [q @ CRLF])"
    by (rule readInteger_buffered)
  moreover have "bufio_Read (nat ?n) (rd_at p [q @ CRLF]) = (p, rd_at [] [q @ CRLF])"
    using assms(1) by (cases p) (simp_all add: bufio_Read_def nat_add_distrib)
  ultimately have "\<exists>r'. readBulk (rd_at (Itoa ?n @ CRLF @ p) [q @ CRLF])
      = Done (bulk_value (p @ replicate (length q) (CHR 0x00))) r'"
    using assms(2) by (simp add: readBulk_def nat_add_distrib)
  then show ?thesis
    using Read_first_chunk [OF _ assms(3), of "[q @ CRLF]"] by (simp add: Read_def)
qed

theorem resp_split_bulk_corrupted_witness:
  "\<exists>r'. Read (NewResp [CHR ''$'' # Itoa 4 @ CRLF @ ''ab'', ''cd'' @ CRLF])
    = Done (bulk_value [CHR ''a'', CHR ''b'', CHR 0x00, CHR 0x00]) r'"
proof -
  have "length (CHR ''$'' # Itoa 4 @ CRLF @ ''ab'') \<le> 4096" by code_simp
  then show ?thesis
    using resp_split_bulk_corrupted [of "''ab''" "''cd''"] by (simp add: numeral_2_eq_2)
qed

end
