(* ===== verification/Evict.thy ===== *)
theory Evict
  imports FC_Prelude
begin

text \<open>
  The eviction policies (\<open>evict/*.go\<close>). An instant (\<open>time.Time\<close>) is a number of nanoseconds since
  Go's zero time, a duration a signed 64-bit number of nanoseconds. The interface
  \<open>EvictionPolicy\<close> has five implementations, and nothing outside the package adds one: it is the
  datatype \<open>policy\<close>, each value with the state its Go struct keeps, and the interface's methods
  dispatch on it. What the environment supplies is an argument: the clock's reading \<open>now\<close> and
  \<open>rand.IntN\<close>.
\<close>

section \<open>Instants and durations\<close>

type_synonym instant = int

text \<open>\<open>t.Sub(u)\<close> saturates at the extreme durations.\<close>

definition time_Sub :: "instant \<Rightarrow> instant \<Rightarrow> int" where
  "time_Sub t u = (if t - u > max_int64 then max_int64
     else if t - u < min_int64 then min_int64 else t - u)"

lemma time_Sub_mono: "t \<le> t' \<Longrightarrow> time_Sub t u \<le> time_Sub t' u"
  by (auto simp: time_Sub_def int64_defs)

section \<open>Policies\<close>

datatype policy =
    NoEviction
  | LRUPolicy (access: "string \<rightharpoonup> instant")
  | LFUPolicy (freq: "string \<rightharpoonup> int")
  | RandomPolicy
  | TTLPolicy

definition NewLRUPolicy :: policy where "NewLRUPolicy = LRUPolicy Map.empty"
definition NewLFUPolicy :: policy where "NewLFUPolicy = LFUPolicy Map.empty"

subsection \<open>Name, Record, Delete\<close>

fun Name :: "policy \<Rightarrow> string" where
  "Name NoEviction = ''none''"
| "Name (LRUPolicy _) = ''allkeys-lru''"
| "Name (LFUPolicy _) = ''allkeys-lfu''"
| "Name RandomPolicy = ''allkeys-random''"
| "Name TTLPolicy = ''volatile-ttl''"

definition LRU_Record :: "string \<Rightarrow> instant \<Rightarrow> (string \<rightharpoonup> instant) \<Rightarrow> (string \<rightharpoonup> instant)" where
  "LRU_Record key now acc = acc(key \<mapsto> now)"

definition LRU_Delete :: "string \<Rightarrow> (string \<rightharpoonup> instant) \<Rightarrow> (string \<rightharpoonup> instant)" where
  "LRU_Delete key acc = acc(key := None)"

definition LFU_Record :: "string \<Rightarrow> (string \<rightharpoonup> int) \<Rightarrow> (string \<rightharpoonup> int)" where
  "LFU_Record key fr = fr(key \<mapsto> (case fr key of None \<Rightarrow> 0 | Some f \<Rightarrow> f) + 1)"

definition LFU_Delete :: "string \<Rightarrow> (string \<rightharpoonup> int) \<Rightarrow> (string \<rightharpoonup> int)" where
  "LFU_Delete key fr = fr(key := None)"

fun Record :: "string \<Rightarrow> instant \<Rightarrow> policy \<Rightarrow> policy" where
  "Record key now (LRUPolicy acc) = LRUPolicy (LRU_Record key now acc)"
| "Record key now (LFUPolicy fr) = LFUPolicy (LFU_Record key fr)"
| "Record key now p = p"

fun Delete :: "string \<Rightarrow> policy \<Rightarrow> policy" where
  "Delete key (LRUPolicy acc) = LRUPolicy (LRU_Delete key acc)"
| "Delete key (LFUPolicy fr) = LFUPolicy (LFU_Delete key fr)"
| "Delete key p = p"

subsection \<open>Evict\<close>

text \<open>
  The loop of \<open>LRUPolicy.Evict\<close> and of \<open>LFUPolicy.Evict\<close>: keep the first key, replace it by a later
  one that is in the table with a smaller entry. A key missing from the table reads as Go's zero
  value.
\<close>

fun scan_min :: "(string \<rightharpoonup> int) \<Rightarrow> string \<Rightarrow> int \<Rightarrow> string list \<Rightarrow> string" where
  "scan_min m best bestv [] = best"
| "scan_min m best bestv (key # ks) =
     (case m key of
        Some t \<Rightarrow> if t < bestv then scan_min m key t ks else scan_min m best bestv ks
      | None \<Rightarrow> scan_min m best bestv ks)"

definition map_zero :: "(string \<rightharpoonup> int) \<Rightarrow> string \<Rightarrow> int" where
  "map_zero m key = (case m key of None \<Rightarrow> 0 | Some t \<Rightarrow> t)"

definition LRU_Evict :: "string list \<Rightarrow> (string \<rightharpoonup> instant) \<Rightarrow> string" where
  "LRU_Evict candidates acc =
     (case candidates of [] \<Rightarrow> []
      | oldest # ks \<Rightarrow> scan_min acc oldest (map_zero acc oldest) ks)"

definition LFU_Evict :: "string list \<Rightarrow> (string \<rightharpoonup> int) \<Rightarrow> string" where
  "LFU_Evict candidates fr =
     (case candidates of [] \<Rightarrow> []
      | lowest # ks \<Rightarrow> scan_min fr lowest (map_zero fr lowest) ks)"

definition Random_Evict :: "(nat \<Rightarrow> nat) \<Rightarrow> string list \<Rightarrow> string" where
  "Random_Evict intN candidates =
     (case candidates of [] \<Rightarrow> [] | _ \<Rightarrow> candidates ! intN (length candidates))"

fun ttl_scan :: "(string \<rightharpoonup> instant) \<Rightarrow> instant \<Rightarrow> string \<Rightarrow> int \<Rightarrow> string list \<Rightarrow> string" where
  "ttl_scan expireAt now nearest nearestTTL [] = nearest"
| "ttl_scan expireAt now nearest nearestTTL (key # ks) =
     (case expireAt key of
        None \<Rightarrow> ttl_scan expireAt now nearest nearestTTL ks
      | Some exp \<Rightarrow>
          let ttl = time_Sub exp now
          in if ttl < nearestTTL then ttl_scan expireAt now key ttl ks
             else ttl_scan expireAt now nearest nearestTTL ks)"

definition TTL_Evict :: "instant \<Rightarrow> string list \<Rightarrow> (string \<rightharpoonup> instant) \<Rightarrow> string" where
  "TTL_Evict now candidates expireAt =
     (case candidates of [] \<Rightarrow> []
      | nearest # ks \<Rightarrow>
          ttl_scan expireAt now nearest
            (case expireAt nearest of None \<Rightarrow> 0 | Some exp \<Rightarrow> time_Sub exp now) ks)"

fun Evict :: "(nat \<Rightarrow> nat) \<Rightarrow> instant \<Rightarrow> string list \<Rightarrow> (string \<rightharpoonup> instant) \<Rightarrow> policy \<Rightarrow> string" where
  "Evict intN now candidates expireAt NoEviction = []"
| "Evict intN now candidates expireAt (LRUPolicy acc) = LRU_Evict candidates acc"
| "Evict intN now candidates expireAt (LFUPolicy fr) = LFU_Evict candidates fr"
| "Evict intN now candidates expireAt RandomPolicy = Random_Evict intN candidates"
| "Evict intN now candidates expireAt TTLPolicy = TTL_Evict now candidates expireAt"

section \<open>What the policies choose\<close>

lemma scan_min_mem: "scan_min m best bestv ks \<in> insert best (set ks)"
  by (induction ks arbitrary: best bestv) (auto split: option.splits)

lemma scan_min_least:
  assumes "m best = Some bestv" and "set ks \<subseteq> dom m"
  shows "\<exists>v. m (scan_min m best bestv ks) = Some v \<and> v \<le> bestv
    \<and> (\<forall>k \<in> set ks. \<forall>w. m k = Some w \<longrightarrow> v \<le> w)"
  using assms
proof (induction ks arbitrary: best bestv)
  case Nil
  then show ?case by simp
next
  case (Cons k ks)
  from Cons.prems obtain t where t: "m k = Some t" by auto
  show ?case
  proof (cases "t < bestv")
    case True
    with Cons.IH [OF t] Cons.prems(2) t show ?thesis by force
  next
    case False
    with Cons.IH [OF Cons.prems(1)] Cons.prems(2) t show ?thesis by force
  qed
qed

lemma ttl_scan_mem: "ttl_scan e now best bestv ks \<in> insert best (set ks)"
  by (induction ks arbitrary: best bestv) (auto simp: Let_def split: option.splits)

lemma ttl_scan_is_scan_min:
  "ttl_scan e now best bestv ks
     = scan_min (\<lambda>k. map_option (\<lambda>exp. time_Sub exp now) (e k)) best bestv ks"
  by (induction ks arbitrary: best bestv) (auto simp: Let_def split: option.splits)

lemma LRU_Evict_mem: "cs \<noteq> [] \<Longrightarrow> LRU_Evict cs acc \<in> set cs"
  using scan_min_mem by (cases cs) (fastforce simp: LRU_Evict_def)+

lemma LFU_Evict_mem: "cs \<noteq> [] \<Longrightarrow> LFU_Evict cs fr \<in> set cs"
  using scan_min_mem by (cases cs) (fastforce simp: LFU_Evict_def)+

lemma TTL_Evict_mem: "cs \<noteq> [] \<Longrightarrow> TTL_Evict now cs e \<in> set cs"
  using ttl_scan_mem by (cases cs) (fastforce simp: TTL_Evict_def)+

lemma Random_Evict_mem:
  "cs \<noteq> [] \<Longrightarrow> intN (length cs) < length cs \<Longrightarrow> Random_Evict intN cs \<in> set cs"
  using nth_mem [of "intN (length cs)" cs] by (cases cs) (simp_all add: Random_Evict_def)

lemma Evict_mem:
  assumes "cs \<noteq> []" and "intN (length cs) < length cs"
  shows "Evict intN now cs e p \<in> set cs \<or> p = NoEviction"
  using assms LRU_Evict_mem LFU_Evict_mem TTL_Evict_mem Random_Evict_mem by (cases p) auto

lemma LRU_Evict_least:
  assumes "cs \<noteq> []" and "set cs \<subseteq> dom acc"
  shows "\<exists>t. acc (LRU_Evict cs acc) = Some t \<and> (\<forall>k \<in> set cs. \<forall>u. acc k = Some u \<longrightarrow> t \<le> u)"
proof -
  obtain c ks where cs: "cs = c # ks" using assms(1) by (cases cs) auto
  obtain v where v: "acc c = Some v" using assms(2) cs by auto
  with scan_min_least [of acc c v ks] assms(2) cs show ?thesis
    by (auto simp: LRU_Evict_def map_zero_def)
qed

lemma LFU_Evict_least:
  assumes "cs \<noteq> []" and "set cs \<subseteq> dom fr"
  shows "\<exists>t. fr (LFU_Evict cs fr) = Some t \<and> (\<forall>k \<in> set cs. \<forall>u. fr k = Some u \<longrightarrow> t \<le> u)"
  using LRU_Evict_least [OF assms] by (simp add: LRU_Evict_def LFU_Evict_def)

lemma TTL_Evict_least:
  assumes "cs \<noteq> []" and "set cs \<subseteq> dom e"
  shows "\<exists>t. e (TTL_Evict now cs e) = Some t
    \<and> (\<forall>k \<in> set cs. \<forall>u. e k = Some u \<longrightarrow> time_Sub t now \<le> time_Sub u now)"
proof -
  let ?m = "\<lambda>k. map_option (\<lambda>exp. time_Sub exp now) (e k)"
  obtain c ks where cs: "cs = c # ks" using assms(1) by (cases cs) auto
  obtain v where v: "e c = Some v" using assms(2) cs by auto
  have "set ks \<subseteq> dom ?m" using assms(2) cs by auto
  with scan_min_least [of ?m c "time_Sub v now" ks] v cs show ?thesis
    by (auto simp: TTL_Evict_def ttl_scan_is_scan_min)
qed

end
