(* ===== verification/Ttl_Store.thy ===== *)
theory Ttl_Store
  imports Store_Spec Evict
begin

text \<open>
  \<open>TTLStore\<close> (\<open>store/ttl.go\<close>): expiry and eviction around any \<open>Store\<close>. The inner store is a state
  with its method table; every operation takes the table first. The environment of a call is a
  record: the readings of \<open>time.Now()\<close> in the order the call makes them, the order in which the
  runtime iterates a map, and \<open>rand.IntN\<close>. An operation is modelled from its first to its last
  critical section as one step, which is what one client at a time observes.
\<close>

section \<open>State and environment\<close>

record env =
  clk :: "nat \<Rightarrow> instant"
  keyord :: "string set \<Rightarrow> string list"
  intN :: "nat \<Rightarrow> nat"

definition env_ok :: "env \<Rightarrow> bool" where
  "env_ok e \<longleftrightarrow> (\<forall>S. finite S \<longrightarrow> distinct (keyord e S) \<and> set (keyord e S) = S)
     \<and> (\<forall>n > 0. intN e n < n)"

record 's TTLStore =
  tt_inner :: 's
  tt_expireAt :: "string \<rightharpoonup> instant"
  tt_allKeys :: "string set"
  tt_policy :: policy
  tt_maxKeys :: int
  tt_done :: bool

definition NewTTLStore :: "'s \<Rightarrow> 's TTLStore" where
  "NewTTLStore inner = \<lparr>tt_inner = inner, tt_expireAt = Map.empty, tt_allKeys = {},
     tt_policy = NoEviction, tt_maxKeys = 0, tt_done = False\<rparr>"

definition SetEvictionPolicy :: "policy \<Rightarrow> int \<Rightarrow> 's TTLStore \<Rightarrow> 's TTLStore" where
  "SetEvictionPolicy p maxKeys t = t\<lparr>tt_policy := p, tt_maxKeys := maxKeys\<rparr>"

section \<open>Tracking and eviction\<close>

definition track :: "instant \<Rightarrow> string \<Rightarrow> 's TTLStore \<Rightarrow> 's TTLStore" where
  "track now key t =
     t\<lparr>tt_allKeys := insert key (tt_allKeys t), tt_policy := Record key now (tt_policy t)\<rparr>"

definition untrack :: "string \<Rightarrow> 's TTLStore \<Rightarrow> 's TTLStore" where
  "untrack key t = t\<lparr>tt_allKeys := tt_allKeys t - {key},
     tt_expireAt := (tt_expireAt t)(key := None), tt_policy := Delete key (tt_policy t)\<rparr>"

definition isVolatile :: "policy \<Rightarrow> bool" where
  "isVolatile p \<longleftrightarrow> length (Name p) > 8 \<and> take 8 (Name p) = ''volatile''"

definition candidates :: "env \<Rightarrow> 's TTLStore \<Rightarrow> string list" where
  "candidates e t =
     (if isVolatile (tt_policy t) then keyord e (dom (tt_expireAt t))
      else keyord e (tt_allKeys t))"

definition inner_Del :: "'s store_ops \<Rightarrow> string \<Rightarrow> 's TTLStore \<Rightarrow> 's TTLStore res" where
  "inner_Del ops key t = bindr (op_Del ops key (tt_inner t)) (\<lambda>i. Inr (t\<lparr>tt_inner := i\<rparr>))"

definition evictIfNeeded :: "'s store_ops \<Rightarrow> env \<Rightarrow> 's TTLStore \<Rightarrow> 's TTLStore res" where
  "evictIfNeeded ops e t =
     (if \<not> (tt_maxKeys t > 0 \<and> int (card (tt_allKeys t)) > tt_maxKeys t) then Inr t
      else let cs = candidates e t
           in if length cs = 0 then Inr t
              else let key = Evict (intN e) (clk e 2) cs (tt_expireAt t) (tt_policy t)
                   in if key = [] then Inr t else inner_Del ops key (untrack key t))"

definition isExpired :: "instant \<Rightarrow> string \<Rightarrow> 's TTLStore \<Rightarrow> bool" where
  "isExpired now key t =
     (case tt_expireAt t key of None \<Rightarrow> False | Some exp \<Rightarrow> now > exp)"

definition delExpired :: "'s store_ops \<Rightarrow> string \<Rightarrow> 's TTLStore \<Rightarrow> 's TTLStore res" where
  "delExpired ops key t = inner_Del ops key (untrack key t)"

text \<open>\<open>sweep\<close>: drop every expired key from the tables, then from the policy and the inner store.\<close>

fun sweep_dels :: "'s store_ops \<Rightarrow> string list \<Rightarrow> 's TTLStore \<Rightarrow> 's TTLStore res" where
  "sweep_dels ops [] t = Inr t"
| "sweep_dels ops (key # ks) t =
     bindr (inner_Del ops key (t\<lparr>tt_policy := Delete key (tt_policy t)\<rparr>)) (sweep_dels ops ks)"

definition sweep :: "'s store_ops \<Rightarrow> env \<Rightarrow> 's TTLStore \<Rightarrow> 's TTLStore res" where
  "sweep ops e t =
     (let now = clk e 0;
          expired = filter (\<lambda>key. isExpired now key t) (keyord e (dom (tt_expireAt t)))
      in sweep_dels ops expired
           (t\<lparr>tt_expireAt := (\<lambda>key. if key \<in> set expired then None else tt_expireAt t key),
              tt_allKeys := tt_allKeys t - set expired\<rparr>))"

section \<open>The methods\<close>

definition TTL_Set ::
    "'s store_ops \<Rightarrow> env \<Rightarrow> string \<Rightarrow> string \<Rightarrow> 's TTLStore \<Rightarrow> 's TTLStore res" where
  "TTL_Set ops e key val t =
     bindr (op_Set ops key val (tt_inner t)) (\<lambda>i.
       evictIfNeeded ops e (track (clk e 1) key (t\<lparr>tt_inner := i\<rparr>)))"

definition SetWithTTL ::
    "'s store_ops \<Rightarrow> env \<Rightarrow> string \<Rightarrow> string \<Rightarrow> int \<Rightarrow> 's TTLStore \<Rightarrow> 's TTLStore res" where
  "SetWithTTL ops e key val ttl t =
     TTL_Set ops e key val (t\<lparr>tt_expireAt := (tt_expireAt t)(key \<mapsto> clk e 0 + ttl)\<rparr>)"

definition TTL_Get ::
    "'s store_ops \<Rightarrow> env \<Rightarrow> string \<Rightarrow> 's TTLStore \<Rightarrow> (string option \<times> 's TTLStore) res" where
  "TTL_Get ops e key t =
     (if isExpired (clk e 0) key t
      then bindr (delExpired ops key t) (\<lambda>t'. Inr (None, t'))
      else let t' = t\<lparr>tt_policy := Record key (clk e 1) (tt_policy t)\<rparr>
           in bindr (op_Get ops key (tt_inner t')) (\<lambda>v. Inr (v, t')))"

definition TTL_Del :: "'s store_ops \<Rightarrow> string \<Rightarrow> 's TTLStore \<Rightarrow> 's TTLStore res" where
  "TTL_Del ops key t = inner_Del ops key (untrack key t)"

definition Expire ::
    "'s store_ops \<Rightarrow> env \<Rightarrow> string \<Rightarrow> int \<Rightarrow> 's TTLStore \<Rightarrow> (bool \<times> 's TTLStore) res" where
  "Expire ops e key ttl t =
     bindr (op_Get ops key (tt_inner t)) (\<lambda>v.
       case v of None \<Rightarrow> Inr (False, t)
       | Some _ \<Rightarrow> Inr (True, t\<lparr>tt_expireAt := (tt_expireAt t)(key \<mapsto> clk e 0 + ttl)\<rparr>))"

definition TTL :: "env \<Rightarrow> string \<Rightarrow> 's TTLStore \<Rightarrow> int" where
  "TTL e key t =
     (case tt_expireAt t key of
        None \<Rightarrow> -2
      | Some exp \<Rightarrow> let d = time_Sub exp (clk e 0) in if d \<le> 0 then -2 else d)"

definition TTL_HSet ::
    "'s store_ops \<Rightarrow> env \<Rightarrow> string \<Rightarrow> string \<Rightarrow> string \<Rightarrow> 's TTLStore \<Rightarrow> 's TTLStore res" where
  "TTL_HSet ops e hash key val t =
     bindr (op_HSet ops hash key val (tt_inner t)) (\<lambda>i.
       evictIfNeeded ops e (track (clk e 1) hash (t\<lparr>tt_inner := i\<rparr>)))"

definition TTL_HGet ::
    "'s store_ops \<Rightarrow> env \<Rightarrow> string \<Rightarrow> string \<Rightarrow> 's TTLStore \<Rightarrow> (string option \<times> 's TTLStore) res" where
  "TTL_HGet ops e hash key t =
     (if isExpired (clk e 0) hash t
      then bindr (delExpired ops hash t) (\<lambda>t'. Inr (None, t'))
      else let t' = t\<lparr>tt_policy := Record hash (clk e 1) (tt_policy t)\<rparr>
           in bindr (op_HGet ops hash key (tt_inner t')) (\<lambda>v. Inr (v, t')))"

definition TTL_HGetAll ::
    "'s store_ops \<Rightarrow> env \<Rightarrow> string \<Rightarrow> 's TTLStore \<Rightarrow> (smap option \<times> 's TTLStore) res" where
  "TTL_HGetAll ops e hash t =
     (if isExpired (clk e 0) hash t
      then bindr (delExpired ops hash t) (\<lambda>t'. Inr (None, t'))
      else let t' = t\<lparr>tt_policy := Record hash (clk e 1) (tt_policy t)\<rparr>
           in bindr (op_HGetAll ops hash (tt_inner t')) (\<lambda>v. Inr (v, t')))"

text \<open>Closing the \<open>done\<close> channel a second time panics.\<close>

definition TTL_Close :: "'s store_ops \<Rightarrow> 's TTLStore \<Rightarrow> 's TTLStore res" where
  "TTL_Close ops t =
     (if tt_done t then Inl Panic
      else Inr (t\<lparr>tt_done := True, tt_inner := op_Close ops (tt_inner t)\<rparr>))"

definition KeyCount :: "'s TTLStore \<Rightarrow> nat" where
  "KeyCount t = card (tt_allKeys t)"

section \<open>The invariant\<close>

text \<open>
  The tables agree with the inner store: the tracked keys are exactly the keys it holds, only
  tracked keys have a deadline, and the policy knows every tracked key.
\<close>

fun policy_covers :: "string set \<Rightarrow> policy \<Rightarrow> bool" where
  "policy_covers K (LRUPolicy acc) \<longleftrightarrow> K \<subseteq> dom acc"
| "policy_covers K (LFUPolicy fr) \<longleftrightarrow> K \<subseteq> dom fr"
| "policy_covers K _ \<longleftrightarrow> True"

definition ttl_inv ::
    "('s \<Rightarrow> bool) \<Rightarrow> ('s \<Rightarrow> astore) \<Rightarrow> (string \<Rightarrow> bool) \<Rightarrow> 's TTLStore \<Rightarrow> bool" where
  "ttl_inv invar abst okkey t \<longleftrightarrow> invar (tt_inner t) \<and> finite (tt_allKeys t)
     \<and> a_keys (abst (tt_inner t)) = tt_allKeys t \<and> dom (tt_expireAt t) \<subseteq> tt_allKeys t
     \<and> (\<forall>k \<in> tt_allKeys t. okkey k) \<and> policy_covers (tt_allKeys t) (tt_policy t)"

lemma policy_covers_Record:
  "policy_covers K p \<Longrightarrow> policy_covers (insert key K) (Record key now p)"
  by (cases p) (auto simp: LRU_Record_def LFU_Record_def)

lemma policy_covers_Record_same: "policy_covers K p \<Longrightarrow> policy_covers K (Record key now p)"
  by (cases p) (auto simp: LRU_Record_def LFU_Record_def)

lemma policy_covers_Delete:
  "policy_covers K p \<Longrightarrow> policy_covers (K - {key}) (Delete key p)"
  by (cases p) (auto simp: LRU_Delete_def LFU_Delete_def)

lemma Name_Record [simp]: "Name (Record key now p) = Name p"
  by (cases p) auto

lemma Name_Delete [simp]: "Name (Delete key p) = Name p"
  by (cases p) auto

lemma isVolatile_iff: "isVolatile p \<longleftrightarrow> p = TTLPolicy"
  by (cases p) (simp_all add: isVolatile_def)

lemma Name_eq_iff:
  "Name p = ''none'' \<longleftrightarrow> p = NoEviction" "Name p = ''volatile-ttl'' \<longleftrightarrow> p = TTLPolicy"
  by (cases p; simp)+

text \<open>The calls of a session, with the environment of each; \<open>TSweep\<close> is a tick of the sweeper.\<close>

datatype ttl_call =
    TSet string string | TSetTTL string string int | TGet string | TDel string
  | TExpire string int | THSet string string string | THGet string string | THGetAll string
  | TSweep

fun ttl_step :: "'s store_ops \<Rightarrow> env \<Rightarrow> ttl_call \<Rightarrow> 's TTLStore \<Rightarrow> 's TTLStore res" where
  "ttl_step ops e (TSet k v) t = TTL_Set ops e k v t"
| "ttl_step ops e (TSetTTL k v d) t = SetWithTTL ops e k v d t"
| "ttl_step ops e (TGet k) t = bindr (TTL_Get ops e k t) (\<lambda>(_, t'). Inr t')"
| "ttl_step ops e (TDel k) t = TTL_Del ops k t"
| "ttl_step ops e (TExpire k d) t = bindr (Expire ops e k d t) (\<lambda>(_, t'). Inr t')"
| "ttl_step ops e (THSet h k v) t = TTL_HSet ops e h k v t"
| "ttl_step ops e (THGet h k) t = bindr (TTL_HGet ops e h k t) (\<lambda>(_, t'). Inr t')"
| "ttl_step ops e (THGetAll h) t = bindr (TTL_HGetAll ops e h t) (\<lambda>(_, t'). Inr t')"
| "ttl_step ops e TSweep t = sweep ops e t"

fun ttl_run :: "'s store_ops \<Rightarrow> (env \<times> ttl_call) list \<Rightarrow> 's TTLStore \<Rightarrow> 's TTLStore res" where
  "ttl_run ops [] t = Inr t"
| "ttl_run ops ((e, c) # cs) t = bindr (ttl_step ops e c t) (ttl_run ops cs)"

fun ttl_call_key :: "ttl_call \<Rightarrow> string option" where
  "ttl_call_key (TSet k v) = Some k"
| "ttl_call_key (TSetTTL k v d) = Some k"
| "ttl_call_key (TGet k) = Some k"
| "ttl_call_key (TDel k) = Some k"
| "ttl_call_key (TExpire k d) = Some k"
| "ttl_call_key (THSet h k v) = Some h"
| "ttl_call_key (THGet h k) = Some h"
| "ttl_call_key (THGetAll h) = Some h"
| "ttl_call_key TSweep = None"

lemma env_ok_ord: "env_ok e \<Longrightarrow> finite S \<Longrightarrow> set (keyord e S) = S \<and> distinct (keyord e S)"
  by (simp add: env_ok_def)

lemma env_ok_intN: "env_ok e \<Longrightarrow> 0 < n \<Longrightarrow> intN e n < n"
  by (simp add: env_ok_def)

lemmas ttl_defs = TTL_Set_def SetWithTTL_def TTL_Get_def TTL_Del_def Expire_def TTL_HSet_def
  TTL_HGet_def TTL_HGetAll_def delExpired_def

section \<open>The contract over any store\<close>

context total_store
begin

abbreviation good where "good \<equiv> ttl_inv invar abst okkey"

text \<open>Dropping a key from the tables and from the inner store.\<close>

lemma drop_key:
  assumes "good t" and "okkey key"
  shows "\<exists>i. inner_Del ops key (untrack key t) = Inr ((untrack key t)\<lparr>tt_inner := i\<rparr>)
    \<and> good ((untrack key t)\<lparr>tt_inner := i\<rparr>) \<and> abst i = a_del key (abst (tt_inner t))"
proof -
  have i: "invar (tt_inner t)" using assms(1) by (simp add: ttl_inv_def)
  obtain i where di: "op_Del ops key (tt_inner t) = Inr i"
    using Del_total [OF i assms(2)] by blast
  moreover have "invar i \<and> abst i = a_del key (abst (tt_inner t))"
    using Del_law [OF i assms(2) di] .
  ultimately show ?thesis
    using assms(1)
    by (intro exI [of _ i]) (auto simp: inner_Del_def untrack_def ttl_inv_def policy_covers_Delete)
qed

lemma candidates_sub:
  assumes "good t" and "env_ok e"
  shows "set (candidates e t) \<subseteq> tt_allKeys t"
proof -
  have "finite (tt_allKeys t)" "finite (dom (tt_expireAt t))" "dom (tt_expireAt t) \<subseteq> tt_allKeys t"
    using assms(1) finite_subset by (auto simp: ttl_inv_def)
  then show ?thesis
    using env_ok_ord [OF assms(2)] by (auto simp: candidates_def)
qed

text \<open>What \<open>evictIfNeeded\<close> does: nothing, or it drops one tracked key that is not empty.\<close>

lemma evict_cases:
  assumes "good t" and "env_ok e"
  obtains (none) "evictIfNeeded ops e t = Inr t"
      and "tt_maxKeys t \<le> 0 \<or> int (card (tt_allKeys t)) \<le> tt_maxKeys t \<or> candidates e t = []
        \<or> Evict (intN e) (clk e 2) (candidates e t) (tt_expireAt t) (tt_policy t) = []"
  | (one) key i where "evictIfNeeded ops e t = Inr ((untrack key t)\<lparr>tt_inner := i\<rparr>)"
      and "good ((untrack key t)\<lparr>tt_inner := i\<rparr>)" and "abst i = a_del key (abst (tt_inner t))"
      and "key \<noteq> []" and "key \<in> set (candidates e t)" and "key \<in> tt_allKeys t"
      and "key = Evict (intN e) (clk e 2) (candidates e t) (tt_expireAt t) (tt_policy t)"
      and "0 < tt_maxKeys t" and "tt_maxKeys t < int (card (tt_allKeys t))"
proof -
  let ?cs = "candidates e t"
  let ?key = "Evict (intN e) (clk e 2) ?cs (tt_expireAt t) (tt_policy t)"
  show thesis
  proof (cases "tt_maxKeys t \<le> 0 \<or> int (card (tt_allKeys t)) \<le> tt_maxKeys t \<or> ?cs = [] \<or> ?key = []")
    case True
    then have "evictIfNeeded ops e t = Inr t" by (auto simp: evictIfNeeded_def Let_def)
    with True show thesis by (rule none [rotated])
  next
    case False
    then have over: "0 < tt_maxKeys t" "tt_maxKeys t < int (card (tt_allKeys t))"
      and cs: "?cs \<noteq> []" and ne: "?key \<noteq> []" by auto
    have ev: "evictIfNeeded ops e t = inner_Del ops ?key (untrack ?key t)"
      using over cs ne by (simp add: evictIfNeeded_def Let_def)
    have "tt_policy t \<noteq> NoEviction" using ne by auto
    then have mem: "?key \<in> set ?cs"
      using Evict_mem [OF cs, of "intN e" "clk e 2" "tt_expireAt t" "tt_policy t"]
        env_ok_intN [OF assms(2), of "length ?cs"] cs by simp
    then have all: "?key \<in> tt_allKeys t" using candidates_sub [OF assms] by blast
    then have "okkey ?key" using assms(1) by (auto simp: ttl_inv_def)
    then show thesis using drop_key [OF assms(1)] one over ne mem all ev by metis
  qed
qed

lemma Set_tracked:
  assumes "good t" and "okkey k" and "dom ea \<subseteq> insert k (tt_allKeys t)"
  shows "\<exists>i. op_Set ops k v (tt_inner t) = Inr i
    \<and> good (track now k (t\<lparr>tt_expireAt := ea, tt_inner := i\<rparr>))
    \<and> abst i = a_set k v (abst (tt_inner t))"
proof -
  have i: "invar (tt_inner t)" using assms(1) by (simp add: ttl_inv_def)
  obtain i where si: "op_Set ops k v (tt_inner t) = Inr i"
    using Set_total [OF i assms(2)] by blast
  have "invar i \<and> abst i = a_set k v (abst (tt_inner t))"
    using Set_law [OF i assms(2) si] .
  then show ?thesis
    using assms si by (auto simp: track_def ttl_inv_def policy_covers_Record)
qed

lemma HSet_tracked:
  assumes "good t" and "okkey h"
  shows "\<exists>i. op_HSet ops h f v (tt_inner t) = Inr i \<and> good (track now h (t\<lparr>tt_inner := i\<rparr>))
    \<and> abst i = a_hset h f v (abst (tt_inner t))"
proof -
  have i: "invar (tt_inner t)" using assms(1) by (simp add: ttl_inv_def)
  obtain i where si: "op_HSet ops h f v (tt_inner t) = Inr i"
    using HSet_total [OF i assms(2)] by blast
  have "invar i \<and> abst i = a_hset h f v (abst (tt_inner t))"
    using HSet_law [OF i assms(2) si] .
  then show ?thesis
    using assms si by (auto simp: track_def ttl_inv_def policy_covers_Record)
qed

lemma record_good: "good t \<Longrightarrow> good (t\<lparr>tt_policy := Record k now (tt_policy t)\<rparr>)"
  by (auto simp: ttl_inv_def policy_covers_Record_same)

text \<open>\<open>keeps t t'\<close>: what no call changes, and the keys a call that is no write leaves alone.\<close>

abbreviation keeps where
  "keeps t t' \<equiv> good t' \<and> tt_maxKeys t' = tt_maxKeys t
    \<and> Name (tt_policy t') = Name (tt_policy t) \<and> tt_done t' = tt_done t"

lemma drop_keeps:
  assumes "good t" and "okkey key"
  shows "\<exists>t'. inner_Del ops key (untrack key t) = Inr t' \<and> keeps t t'
    \<and> tt_allKeys t' = tt_allKeys t - {key}"
  using drop_key [OF assms] by (auto simp: untrack_def)

lemma evict_keeps:
  assumes "good t" and "env_ok e"
  shows "\<exists>t'. evictIfNeeded ops e t = Inr t' \<and> keeps t t' \<and> tt_allKeys t' \<subseteq> tt_allKeys t"
  using assms
proof (cases rule: evict_cases)
  case none
  then show ?thesis using assms by simp
next
  case one
  then show ?thesis by (auto simp: untrack_def)
qed

lemma sweep_dels_keeps:
  assumes "invar (tt_inner t)" and "\<forall>k \<in> set ks. okkey k"
  shows "\<exists>i p. sweep_dels ops ks t = Inr (t\<lparr>tt_inner := i, tt_policy := p\<rparr>) \<and> invar i
    \<and> abst i = foldl (\<lambda>a k. a_del k a) (abst (tt_inner t)) ks
    \<and> p = foldl (\<lambda>p k. Delete k p) (tt_policy t) ks"
  using assms
proof (induction ks arbitrary: t)
  case Nil
  then show ?case by (intro exI [of _ "tt_inner t"] exI [of _ "tt_policy t"]) simp
next
  case (Cons k ks)
  obtain i where i: "op_Del ops k (tt_inner t) = Inr i"
    using Del_total Cons.prems by fastforce
  then have "invar i \<and> abst i = a_del k (abst (tt_inner t))"
    using Del_law Cons.prems by fastforce
  with i Cons.IH [of "t\<lparr>tt_policy := Delete k (tt_policy t), tt_inner := i\<rparr>"] Cons.prems
  show ?case by (auto simp: inner_Del_def)
qed

end

lemma foldl_a_del:
  "foldl (\<lambda>a k. a_del k a) a ks = \<lparr>astr = (\<lambda>k. if k \<in> set ks then None else astr a k),
     ahash = (\<lambda>k. if k \<in> set ks then None else ahash a k)\<rparr>"
proof (induction ks arbitrary: a)
  case Nil
  then show ?case by simp
next
  case (Cons k ks)
  then show ?case by (auto simp: a_del_def fun_eq_iff)
qed

lemma a_keys_foldl_a_del: "a_keys (foldl (\<lambda>a k. a_del k a) a ks) = a_keys a - set ks"
  by (auto simp: foldl_a_del a_keys_def split: if_splits)

lemma policy_covers_foldl_Delete:
  "policy_covers K p \<Longrightarrow> policy_covers (K - set ks) (foldl (\<lambda>p k. Delete k p) p ks)"
proof (induction ks arbitrary: K p)
  case Nil
  then show ?case by simp
next
  case (Cons k ks)
  have "policy_covers (K - {k} - set ks) (foldl (\<lambda>p k. Delete k p) (Delete k p) ks)"
    using Cons policy_covers_Delete by blast
  then show ?case by (simp add: Diff_insert2 [symmetric])
qed

lemma Name_foldl_Delete [simp]: "Name (foldl (\<lambda>p k. Delete k p) p ks) = Name p"
  by (induction ks arbitrary: p) auto

context total_store
begin

lemma sweep_spec:
  assumes "good t" and "env_ok e"
  shows "\<exists>t'. sweep ops e t = Inr t' \<and> keeps t t'
    \<and> tt_allKeys t' = {k \<in> tt_allKeys t. \<not> isExpired (clk e 0) k t}
    \<and> (\<forall>k. tt_expireAt t' k = (if isExpired (clk e 0) k t then None else tt_expireAt t k))
    \<and> (\<forall>k. astr (abst (tt_inner t')) k =
          (if isExpired (clk e 0) k t then None else astr (abst (tt_inner t)) k))
    \<and> (\<forall>k. ahash (abst (tt_inner t')) k =
          (if isExpired (clk e 0) k t then None else ahash (abst (tt_inner t)) k))"
proof -
  define ks where "ks = filter (\<lambda>k. isExpired (clk e 0) k t) (keyord e (dom (tt_expireAt t)))"
  let ?ea = "\<lambda>k. if k \<in> set ks then None else tt_expireAt t k"
  let ?t = "t\<lparr>tt_expireAt := ?ea, tt_allKeys := tt_allKeys t - set ks\<rparr>"
  have g: "invar (tt_inner t)" "finite (tt_allKeys t)" "a_keys (abst (tt_inner t)) = tt_allKeys t"
    "dom (tt_expireAt t) \<subseteq> tt_allKeys t" "\<forall>k \<in> tt_allKeys t. okkey k"
    "policy_covers (tt_allKeys t) (tt_policy t)"
    using assms(1) by (auto simp: ttl_inv_def)
  have fin: "finite (dom (tt_expireAt t))" using g(2,4) finite_subset by blast
  have exp: "k \<in> set ks \<longleftrightarrow> isExpired (clk e 0) k t" for k
    using env_ok_ord [OF assms(2) fin] by (auto simp: ks_def isExpired_def split: option.splits)
  have "set ks \<subseteq> tt_allKeys t"
    using g(4) env_ok_ord [OF assms(2) fin] by (auto simp: ks_def)
  then have ok: "\<forall>k \<in> set ks. okkey k" using g(5) by blast
  obtain i where i: "sweep_dels ops ks ?t = Inr (?t\<lparr>tt_inner := i,
      tt_policy := foldl (\<lambda>p k. Delete k p) (tt_policy t) ks\<rparr>)"
    and inv: "invar i" and ab: "abst i = foldl (\<lambda>a k. a_del k a) (abst (tt_inner t)) ks"
    using sweep_dels_keeps [of ?t ks] g(1) ok by auto
  let ?t' = "?t\<lparr>tt_inner := i, tt_policy := foldl (\<lambda>p k. Delete k p) (tt_policy t) ks\<rparr>"
  have "good ?t'"
    unfolding ttl_inv_def
    using inv ab g policy_covers_foldl_Delete [OF g(6), of ks]
    by (auto simp: a_keys_foldl_a_del split: if_splits)
  moreover have "sweep ops e t = Inr ?t'"
    using i by (simp add: sweep_def Let_def ks_def)
  ultimately show ?thesis
    using ab by (intro exI [of _ ?t']) (auto simp: foldl_a_del exp)
qed

text \<open>A write first reaches the inner store and the tables; then eviction looks at the result.\<close>

lemma TTL_Set_pre:
  assumes "good t" and "okkey k"
  shows "\<exists>i. abst i = a_set k v (abst (tt_inner t)) \<and> good (track (clk e 1) k (t\<lparr>tt_inner := i\<rparr>))
    \<and> TTL_Set ops e k v t = evictIfNeeded ops e (track (clk e 1) k (t\<lparr>tt_inner := i\<rparr>))"
proof -
  have "dom (tt_expireAt t) \<subseteq> insert k (tt_allKeys t)"
    using assms(1) unfolding ttl_inv_def by blast
  from Set_tracked [OF assms this, of v "clk e 1"]
  obtain i where "op_Set ops k v (tt_inner t) = Inr i"
    and "good (track (clk e 1) k (t\<lparr>tt_expireAt := tt_expireAt t, tt_inner := i\<rparr>))"
    and "abst i = a_set k v (abst (tt_inner t))" by blast
  then show ?thesis by (intro exI [of _ i]) (simp add: TTL_Set_def)
qed

lemma SetWithTTL_pre:
  fixes d :: int and e :: env
  defines "ea k t \<equiv> (tt_expireAt t)(k \<mapsto> clk e 0 + d)"
  assumes "good t" and "okkey k"
  shows "\<exists>i. abst i = a_set k v (abst (tt_inner t))
    \<and> good (track (clk e 1) k (t\<lparr>tt_expireAt := ea k t, tt_inner := i\<rparr>))
    \<and> SetWithTTL ops e k v d t
        = evictIfNeeded ops e (track (clk e 1) k (t\<lparr>tt_expireAt := ea k t, tt_inner := i\<rparr>))"
proof -
  have "dom (ea k t) \<subseteq> insert k (tt_allKeys t)"
    using assms(2) unfolding ttl_inv_def ea_def by auto
  from Set_tracked [OF assms(2,3) this, of v "clk e 1"]
  obtain i where "op_Set ops k v (tt_inner t) = Inr i"
    and "good (track (clk e 1) k (t\<lparr>tt_expireAt := ea k t, tt_inner := i\<rparr>))"
    and "abst i = a_set k v (abst (tt_inner t))" by blast
  then show ?thesis
    by (intro exI [of _ i]) (simp add: SetWithTTL_def TTL_Set_def ea_def)
qed

lemma TTL_HSet_pre:
  assumes "good t" and "okkey h"
  shows "\<exists>i. abst i = a_hset h f v (abst (tt_inner t))
    \<and> good (track (clk e 1) h (t\<lparr>tt_inner := i\<rparr>))
    \<and> TTL_HSet ops e h f v t = evictIfNeeded ops e (track (clk e 1) h (t\<lparr>tt_inner := i\<rparr>))"
  using HSet_tracked [OF assms, of f v "clk e 1"] by (auto simp: TTL_HSet_def)

lemma track_fields [simp]:
  "tt_maxKeys (track now k t) = tt_maxKeys t" "Name (tt_policy (track now k t)) = Name (tt_policy t)"
  "tt_done (track now k t) = tt_done t" "tt_allKeys (track now k t) = insert k (tt_allKeys t)"
  "tt_expireAt (track now k t) = tt_expireAt t" "tt_inner (track now k t) = tt_inner t"
  "tt_policy (track now k t) = Record k now (tt_policy t)"
  by (simp_all add: track_def)

lemma step_keeps:
  assumes "good t" and "env_ok e" and "\<And>k. ttl_call_key c = Some k \<Longrightarrow> okkey k"
  shows "\<exists>t'. ttl_step ops e c t = Inr t' \<and> keeps t t'"
proof (cases c)
  case (TSet k v)
  then have "okkey k" using assms(3) by simp
  from TTL_Set_pre [OF assms(1) this, of v e] obtain i where
    g: "good (track (clk e 1) k (t\<lparr>tt_inner := i\<rparr>))"
    and s: "TTL_Set ops e k v t = evictIfNeeded ops e (track (clk e 1) k (t\<lparr>tt_inner := i\<rparr>))" by blast
  show ?thesis using evict_keeps [OF g assms(2)] s TSet by auto
next
  case (TSetTTL k v d)
  let ?ea = "(tt_expireAt t)(k \<mapsto> clk e 0 + d)"
  have "okkey k" using assms(3) TSetTTL by simp
  from SetWithTTL_pre [OF assms(1) this, of v e d] obtain i where
    g: "good (track (clk e 1) k (t\<lparr>tt_expireAt := ?ea, tt_inner := i\<rparr>))"
    and s: "SetWithTTL ops e k v d t
      = evictIfNeeded ops e (track (clk e 1) k (t\<lparr>tt_expireAt := ?ea, tt_inner := i\<rparr>))" by blast
  show ?thesis using evict_keeps [OF g assms(2)] s TSetTTL by auto
next
  case (THSet h k v)
  then have "okkey h" using assms(3) by simp
  from TTL_HSet_pre [OF assms(1) this, of k v e] obtain i where
    g: "good (track (clk e 1) h (t\<lparr>tt_inner := i\<rparr>))"
    and s: "TTL_HSet ops e h k v t = evictIfNeeded ops e (track (clk e 1) h (t\<lparr>tt_inner := i\<rparr>))"
    by blast
  show ?thesis using evict_keeps [OF g assms(2)] s THSet by auto
next
  case TSweep
  then show ?thesis using sweep_spec [OF assms(1,2)] by auto
next
  case (TExpire k d)
  have "invar (tt_inner t)" using assms(1) by (simp add: ttl_inv_def)
  moreover have "okkey k" using assms(3) TExpire by simp
  ultimately have "op_Get ops k (tt_inner t) = Inr (astr (abst (tt_inner t)) k)"
    by (rule Get_law)
  then show ?thesis
    using assms(1) TExpire
    by (auto simp: Expire_def ttl_inv_def a_keys_def split: option.splits)
next
  case (TDel k)
  then show ?thesis using drop_keeps [OF assms(1)] assms(3) by (fastforce simp: TTL_Del_def)
next
  case (TGet k)
  then have "okkey k" "op_Get ops k (tt_inner t) = Inr (astr (abst (tt_inner t)) k)"
    using assms(1,3) Get_law by (auto simp: ttl_inv_def)
  then show ?thesis
    using drop_keeps [OF assms(1)] record_good [OF assms(1)] TGet
    by (fastforce simp: TTL_Get_def delExpired_def Let_def)
next
  case (THGet h k)
  then have "okkey h" "op_HGet ops h k (tt_inner t) = Inr (hashes_get h k (ahash (abst (tt_inner t))))"
    using assms(1,3) HGet_law by (auto simp: ttl_inv_def)
  then show ?thesis
    using drop_keeps [OF assms(1)] record_good [OF assms(1)] THGet
    by (fastforce simp: TTL_HGet_def delExpired_def Let_def)
next
  case (THGetAll h)
  then have "okkey h" "op_HGetAll ops h (tt_inner t) = Inr (ahash (abst (tt_inner t)) h)"
    using assms(1,3) HGetAll_law by (auto simp: ttl_inv_def)
  then show ?thesis
    using drop_keeps [OF assms(1)] record_good [OF assms(1)] THGetAll
    by (fastforce simp: TTL_HGetAll_def delExpired_def Let_def)
qed

text \<open>Reads: the value of the inner store, or nothing after dropping a key whose time is over.\<close>

lemma TTL_Get_live:
  assumes "good t" and "okkey k" and "\<not> isExpired (clk e 0) k t"
  shows "TTL_Get ops e k t
    = Inr (astr (abst (tt_inner t)) k, t\<lparr>tt_policy := Record k (clk e 1) (tt_policy t)\<rparr>)"
  using assms Get_law by (simp add: TTL_Get_def ttl_inv_def Let_def)

lemma TTL_Get_expired:
  assumes "good t" and "okkey k" and "isExpired (clk e 0) k t"
  shows "\<exists>t'. TTL_Get ops e k t = Inr (None, t') \<and> keeps t t' \<and> tt_allKeys t' = tt_allKeys t - {k}
    \<and> abst (tt_inner t') = a_del k (abst (tt_inner t)) \<and> tt_expireAt t' = (tt_expireAt t)(k := None)"
  using drop_key [OF assms(1,2)] assms(3)
  by (auto simp: TTL_Get_def delExpired_def untrack_def)

text \<open>Eviction and the limit.\<close>

lemma evict_bound:
  assumes "good t" and "env_ok e" and "Name (tt_policy t) \<notin> {''none'', ''volatile-ttl''}"
    and "0 < tt_maxKeys t" and "int (card (tt_allKeys t)) \<le> tt_maxKeys t + 1" and "[] \<notin> tt_allKeys t"
  shows "\<exists>t'. evictIfNeeded ops e t = Inr t' \<and> keeps t t' \<and> tt_allKeys t' \<subseteq> tt_allKeys t
    \<and> int (card (tt_allKeys t')) \<le> tt_maxKeys t"
  using assms(1,2)
proof (cases rule: evict_cases)
  case none
  have fin: "finite (tt_allKeys t)" using assms(1) by (simp add: ttl_inv_def)
  have "\<not> isVolatile (tt_policy t)" "tt_policy t \<noteq> NoEviction"
    using assms(3) by (auto simp: isVolatile_iff)
  then have cs: "set (candidates e t) = tt_allKeys t"
    using env_ok_ord [OF assms(2) fin] by (simp add: candidates_def)
  have "int (card (tt_allKeys t)) \<le> tt_maxKeys t"
  proof (rule ccontr)
    assume over: "\<not> int (card (tt_allKeys t)) \<le> tt_maxKeys t"
    then have ne: "candidates e t \<noteq> []" using cs assms(4) by auto
    then have "Evict (intN e) (clk e 2) (candidates e t) (tt_expireAt t) (tt_policy t) \<in> tt_allKeys t"
      using Evict_mem [OF ne, of "intN e" "clk e 2" "tt_expireAt t" "tt_policy t"]
        env_ok_intN [OF assms(2), of "length (candidates e t)"] cs \<open>tt_policy t \<noteq> NoEviction\<close> by simp
    then show False using none(2) over ne assms(4,6) by auto
  qed
  with none(1) assms(1) show ?thesis by simp
next
  case (one key i)
  have "card (tt_allKeys t - {key}) = card (tt_allKeys t) - 1"
    using one(6) assms(1) by (simp add: ttl_inv_def)
  then show ?thesis using one assms(5) by (auto simp: untrack_def)
qed

lemma read_call_keys:
  assumes "good t" and "env_ok e" and "\<And>k. ttl_call_key c = Some k \<Longrightarrow> okkey k"
    and "ttl_step ops e c t = Inr t'"
    and "\<forall>k v. c \<noteq> TSet k v" and "\<forall>k v d. c \<noteq> TSetTTL k v d" and "\<forall>h k v. c \<noteq> THSet h k v"
  shows "tt_allKeys t' \<subseteq> tt_allKeys t"
proof (cases c)
  case TSweep
  then show ?thesis using sweep_spec [OF assms(1,2)] assms(4) by auto
next
  case (TExpire k d)
  then show ?thesis using assms(4) by (auto simp: Expire_def res_simps split: option.splits)
qed (use assms in \<open>auto simp: ttl_defs inner_Del_def untrack_def Let_def res_simps split: if_splits\<close>)

lemma step_bound:
  assumes "good t" and "env_ok e" and "\<And>k. ttl_call_key c = Some k \<Longrightarrow> okkey k \<and> k \<noteq> []"
    and "Name (tt_policy t) \<notin> {''none'', ''volatile-ttl''}" and "0 < tt_maxKeys t"
    and "int (card (tt_allKeys t)) \<le> tt_maxKeys t" and "[] \<notin> tt_allKeys t"
  shows "\<exists>t'. ttl_step ops e c t = Inr t' \<and> keeps t t'
    \<and> int (card (tt_allKeys t')) \<le> tt_maxKeys t \<and> [] \<notin> tt_allKeys t'"
proof -
  have upd: "\<exists>t'. evictIfNeeded ops e T = Inr t' \<and> keeps T t'
      \<and> int (card (tt_allKeys t')) \<le> tt_maxKeys t \<and> [] \<notin> tt_allKeys t'"
    if "good T" "tt_allKeys T = insert k (tt_allKeys t)" "tt_maxKeys T = tt_maxKeys t"
      "Name (tt_policy T) = Name (tt_policy t)" "k \<noteq> []" for T k
  proof -
    have "card (insert k (tt_allKeys t)) \<le> Suc (card (tt_allKeys t))"
      by (rule card_insert_le_m1) simp_all
    then show ?thesis
      using evict_bound [OF that(1) assms(2)] that assms(4-7) by auto
  qed
  have reads: ?thesis if "\<forall>k v. c \<noteq> TSet k v" "\<forall>k v d. c \<noteq> TSetTTL k v d" "\<forall>h k v. c \<noteq> THSet h k v"
  proof -
    obtain t' where t': "ttl_step ops e c t = Inr t'" "keeps t t'"
      using step_keeps [OF assms(1,2), of c] assms(3) by blast
    moreover have "tt_allKeys t' \<subseteq> tt_allKeys t"
      using read_call_keys [OF assms(1,2) _ t'(1) that] assms(3) by blast
    moreover then have "card (tt_allKeys t') \<le> card (tt_allKeys t)"
      using assms(1) by (auto simp: ttl_inv_def intro: card_mono)
    ultimately show ?thesis using assms(6,7) by auto
  qed
  show ?thesis
  proof (cases c)
    case (TSet k v)
    with assms(3) have "okkey k" "k \<noteq> []" by auto
    with TTL_Set_pre [OF assms(1), of k v e] TSet upd show ?thesis by fastforce
  next
    case (TSetTTL k v d)
    with assms(3) have "okkey k" "k \<noteq> []" by auto
    with SetWithTTL_pre [OF assms(1), of k v e d] TSetTTL upd show ?thesis by fastforce
  next
    case (THSet h k v)
    with assms(3) have "okkey h" "h \<noteq> []" by auto
    with TTL_HSet_pre [OF assms(1), of h k v e] THSet upd show ?thesis by fastforce
  qed (rule reads; simp)+
qed

end

end
