(* ===== verification/Ttl_Properties.thy ===== *)
theory Ttl_Properties
  imports Ttl_Store Map_Store
begin

text \<open>
  What \<open>TTLStore\<close> guarantees over any inner store that keeps the contract \<open>total_store\<close>, and where
  it fails its purpose. The witnesses run it over \<open>MapStore\<close>.
\<close>

section \<open>Sessions\<close>

lemma run_keeps:
  assumes "total_store ops invar abst okkey" and "ttl_inv invar abst okkey t"
    and "\<forall>(e, c) \<in> set cs. env_ok e \<and> (\<forall>k. ttl_call_key c = Some k \<longrightarrow> okkey k)"
  shows "\<exists>t'. ttl_run ops cs t = Inr t' \<and> ttl_inv invar abst okkey t'"
  using assms(2,3)
proof (induction cs arbitrary: t)
  case Nil
  then show ?case by simp
next
  case (Cons ec cs)
  obtain e c where ec: "ec = (e, c)" by (cases ec)
  with Cons.prems obtain t1 where "ttl_step ops e c t = Inr t1" "ttl_inv invar abst okkey t1"
    using total_store.step_keeps [OF assms(1) Cons.prems(1), of e c] by auto
  with Cons.IH [of t1] Cons.prems(2) ec show ?case by auto
qed

lemma run_bound:
  assumes "total_store ops invar abst okkey" and "ttl_inv invar abst okkey t"
    and "\<forall>(e, c) \<in> set cs. env_ok e \<and> (\<forall>k. ttl_call_key c = Some k \<longrightarrow> okkey k \<and> k \<noteq> [])"
    and "Name (tt_policy t) \<notin> {''none'', ''volatile-ttl''}" and "0 < tt_maxKeys t"
    and "int (KeyCount t) \<le> tt_maxKeys t" and "[] \<notin> tt_allKeys t"
  shows "\<exists>t'. ttl_run ops cs t = Inr t' \<and> int (KeyCount t') \<le> tt_maxKeys t"
  using assms(2-)
proof (induction cs arbitrary: t)
  case Nil
  then show ?case by simp
next
  case (Cons ec cs)
  obtain e c where ec: "ec = (e, c)" by (cases ec)
  have "env_ok e" "\<And>k. ttl_call_key c = Some k \<Longrightarrow> okkey k \<and> k \<noteq> []"
    using Cons.prems(2) ec by auto
  then obtain t1 where t1: "ttl_step ops e c t = Inr t1" "ttl_inv invar abst okkey t1"
    "tt_maxKeys t1 = tt_maxKeys t" "Name (tt_policy t1) = Name (tt_policy t)"
    "int (card (tt_allKeys t1)) \<le> tt_maxKeys t" "[] \<notin> tt_allKeys t1"
    using total_store.step_bound [OF assms(1) Cons.prems(1), of e c] Cons.prems(3-)
    unfolding KeyCount_def by blast
  with Cons.IH [of t1] Cons.prems ec show ?case by (auto simp: KeyCount_def)
qed

lemma evict_no_need:
  "tt_maxKeys t \<le> 0 \<or> int (card (tt_allKeys t)) \<le> tt_maxKeys t \<Longrightarrow> evictIfNeeded ops e t = Inr t"
  by (auto simp: evictIfNeeded_def)

lemma new_ttl_inv:
  assumes "invar inner" and "a_keys (abst inner) = {}"
  shows "ttl_inv invar abst okkey (SetEvictionPolicy p n (NewTTLStore inner))"
  using assms by (cases p) (auto simp: ttl_inv_def SetEvictionPolicy_def NewTTLStore_def)

section \<open>A concrete environment\<close>

definition env_at :: "instant \<Rightarrow> env" where
  "env_at now = \<lparr>clk = \<lambda>_. now, keyord = sorted_list_of_set, intN = \<lambda>_. 0\<rparr>"

lemma env_ok_env_at [simp]: "env_ok (env_at now)"
  by (simp add: env_ok_def env_at_def)

lemma clk_env_at [simp]: "clk (env_at now) i = now"
  by (simp add: env_at_def)

abbreviation map_ttl :: "policy \<Rightarrow> int \<Rightarrow> MapStore TTLStore" where
  "map_ttl p n \<equiv> SetEvictionPolicy p n (NewTTLStore NewMapStore)"

abbreviation map_good :: "MapStore TTLStore \<Rightarrow> bool" where
  "map_good \<equiv> ttl_inv (\<lambda>_. True) MapStore_abs (\<lambda>_. True)"

lemma map_ttl_good: "map_good (map_ttl p n)"
  by (rule new_ttl_inv) simp_all

lemma map_ttl_fields [simp]:
  "tt_policy (map_ttl p n) = p" "tt_maxKeys (map_ttl p n) = n" "tt_allKeys (map_ttl p n) = {}"
  "tt_expireAt (map_ttl p n) = Map.empty" "tt_inner (map_ttl p n) = NewMapStore"
  by (simp_all add: SetEvictionPolicy_def NewTTLStore_def)

section \<open>Properties\<close>

text \<open>
  C1: whatever is called, with any clock readings, map orders and random numbers, the calls return
  and the tables stay in agreement with the inner store: the tracked keys are exactly the stored
  ones, only tracked keys have deadlines, and the policy knows every tracked key.
\<close>

theorem ttl_session_invariant:
  assumes "total_store ops invar abst okkey" and "ttl_inv invar abst okkey t"
    and "\<forall>(e, c) \<in> set cs. env_ok e \<and> (\<forall>k. ttl_call_key c = Some k \<longrightarrow> okkey k)"
  shows "\<exists>t'. ttl_run ops cs t = Inr t' \<and> ttl_inv invar abst okkey t'"
  using run_keeps [OF assms] .

theorem ttl_session_invariant_witness:
  "\<exists>t'. ttl_run MapStore_ops [(env_at 1, TSetTTL ''a'' ''x'' 5), (env_at 9, TSweep)]
      (map_ttl NewLRUPolicy 2) = Inr t' \<and> map_good t'"
  by (rule ttl_session_invariant [OF mapst.total_store_axioms map_ttl_good]) simp



text \<open>
  a read after the deadline of a key never returns a value, and it removes the key from the
  inner store (the string and the hash), from the deadlines and from the tracked keys.
\<close>

theorem ttl_get_expired:
  assumes "total_store ops invar abst okkey" and "ttl_inv invar abst okkey t" and "okkey k"
    and "tt_expireAt t k = Some exp" and "exp < clk e 0"
  shows "\<exists>t'. TTL_Get ops e k t = Inr (None, t') \<and> ttl_inv invar abst okkey t'
    \<and> k \<notin> tt_allKeys t' \<and> tt_expireAt t' k = None
    \<and> astr (abst (tt_inner t')) k = None \<and> ahash (abst (tt_inner t')) k = None"
  using total_store.TTL_Get_expired [OF assms(1-3), of e] assms(4,5)
  by (auto simp: isExpired_def a_del_def)

text \<open>A store over \<open>MapStore\<close> that holds one key \<open>a\<close> with the deadline 10.\<close>

definition one_key :: "policy \<Rightarrow> int \<Rightarrow> MapStore TTLStore" where
  "one_key p n = \<lparr>tt_inner = MapStore_Set ''a'' ''x'' NewMapStore, tt_expireAt = [''a'' \<mapsto> 10],
     tt_allKeys = {''a''}, tt_policy = p, tt_maxKeys = n, tt_done = False\<rparr>"

lemma one_key_good: "policy_covers {''a''} p \<Longrightarrow> map_good (one_key p n)"
  by (simp add: ttl_inv_def one_key_def a_keys_def MapStore_abs_def MapStore_defs)

lemma one_key_good_instances:
  "map_good (one_key NoEviction n)" "map_good (one_key TTLPolicy n)"
  "map_good (one_key (LRUPolicy [''a'' \<mapsto> 1]) n)" "map_good (one_key (LFUPolicy [''a'' \<mapsto> 2]) n)"
  by (rule one_key_good, simp)+

theorem ttl_get_expired_witness:
  "\<exists>t'. TTL_Get MapStore_ops (env_at 11) ''a'' (one_key NoEviction 0) = Inr (None, t')
    \<and> ''a'' \<notin> tt_allKeys t'"
  using ttl_get_expired [OF mapst.total_store_axioms one_key_good_instances(1) [of 0],
      where k = "''a''" and exp = 10 and e = "env_at 11"]
  by (auto simp: one_key_def)



text \<open>
  \<open>Set\<close> leaves the deadline of the key it overwrites. A value stored without a time to live
  over a key that had one is lost when the old deadline passes, at once when it has passed already.
\<close>

theorem ttl_set_keeps_old_deadline:
  assumes "total_store ops invar abst okkey" and "ttl_inv invar abst okkey t" and "okkey k"
    and "tt_maxKeys t \<le> 0 \<or> int (card (insert k (tt_allKeys t))) \<le> tt_maxKeys t"
    and "tt_expireAt t k = Some exp"
  shows "\<exists>t'. TTL_Set ops e k v t = Inr t' \<and> astr (abst (tt_inner t')) k = Some v
    \<and> (\<forall>e'. exp < clk e' 0 \<longrightarrow> (\<exists>u. TTL_Get ops e' k t' = Inr (None, u)))"
proof -
  let ?T = "\<lambda>i. track (clk e 1) k (t\<lparr>tt_inner := i\<rparr>)"
  obtain i where i: "abst i = a_set k v (abst (tt_inner t))"
    and g: "ttl_inv invar abst okkey (?T i)"
    and s: "TTL_Set ops e k v t = evictIfNeeded ops e (?T i)"
    using total_store.TTL_Set_pre [OF assms(1-3), of v e] by blast
  let ?t = "?T i"
  have "TTL_Set ops e k v t = Inr ?t"
    using s evict_no_need [of ?t] assms(4) by (simp add: track_def)
  moreover have "\<exists>u. TTL_Get ops e' k ?t = Inr (None, u)" if "exp < clk e' 0" for e'
    using total_store.TTL_Get_expired [OF assms(1) g assms(3), of e'] that assms(5)
    by (auto simp: isExpired_def track_def)
  ultimately show ?thesis using i by (auto simp: track_def a_set_def)
qed

theorem ttl_set_keeps_old_deadline_witness:
  "\<exists>t'. TTL_Set MapStore_ops (env_at 11) ''a'' ''new'' (one_key NoEviction 0) = Inr t'
    \<and> (\<exists>u. TTL_Get MapStore_ops (env_at 12) ''a'' t' = Inr (None, u))"
proof -
  let ?t = "one_key NoEviction 0"
  have "tt_expireAt ?t ''a'' = Some 10" "tt_maxKeys ?t \<le> 0" by (simp_all add: one_key_def)
  then obtain t' where "TTL_Set MapStore_ops (env_at 11) ''a'' ''new'' ?t = Inr t'"
    and "\<And>e'. 10 < clk e' 0 \<Longrightarrow> \<exists>u. TTL_Get MapStore_ops e' ''a'' t' = Inr (None, u)"
    using ttl_set_keeps_old_deadline [OF mapst.total_store_axioms one_key_good_instances(1) [of 0],
        where k = "''a''" and exp = 10 and e = "env_at 11" and v = "''new''"] by auto
  then show ?thesis by (intro exI [of _ t']) simp
qed

text \<open>
  C14: a tick of the sweeper removes exactly the keys whose deadline has passed, from the tables and
  from the inner store, and leaves every other key, value and deadline as it was.
\<close>

theorem ttl_sweep_exact:
  assumes "total_store ops invar abst okkey" and "ttl_inv invar abst okkey t" and "env_ok e"
  shows "\<exists>t'. sweep ops e t = Inr t' \<and> ttl_inv invar abst okkey t'
    \<and> tt_allKeys t' = {k \<in> tt_allKeys t. \<not> isExpired (clk e 0) k t}
    \<and> (\<forall>k. tt_expireAt t' k = (if isExpired (clk e 0) k t then None else tt_expireAt t k))
    \<and> (\<forall>k. astr (abst (tt_inner t')) k =
          (if isExpired (clk e 0) k t then None else astr (abst (tt_inner t)) k))
    \<and> (\<forall>k. ahash (abst (tt_inner t')) k =
          (if isExpired (clk e 0) k t then None else ahash (abst (tt_inner t)) k))"
proof -
  from total_store.sweep_spec [OF assms] obtain t' where t': "sweep ops e t = Inr t'"
    "ttl_inv invar abst okkey t'" and rest: "tt_allKeys t' = {k \<in> tt_allKeys t. \<not> isExpired (clk e 0) k t}"
    "\<forall>k. tt_expireAt t' k = (if isExpired (clk e 0) k t then None else tt_expireAt t k)"
    "\<forall>k. astr (abst (tt_inner t')) k =
      (if isExpired (clk e 0) k t then None else astr (abst (tt_inner t)) k)"
    "\<forall>k. ahash (abst (tt_inner t')) k =
      (if isExpired (clk e 0) k t then None else ahash (abst (tt_inner t)) k)" by (elim exE conjE)
  show ?thesis by (intro exI [of _ t'] conjI t' rest)
qed

theorem ttl_sweep_exact_witness:
  "\<exists>t'. sweep MapStore_ops (env_at 11) (one_key NoEviction 0) = Inr t' \<and> tt_allKeys t' = {}"
proof -
  from ttl_sweep_exact [OF mapst.total_store_axioms one_key_good_instances(1) [of 0]
      env_ok_env_at [of 11]]
  obtain t' where "sweep MapStore_ops (env_at 11) (one_key NoEviction 0) = Inr t'"
    and "tt_allKeys t' = {k \<in> tt_allKeys (one_key NoEviction 0).
      \<not> isExpired (clk (env_at 11) 0) k (one_key NoEviction 0)}" by (elim exE conjE)
  then show ?thesis by (intro exI [of _ t']) (simp add: one_key_def isExpired_def)
qed

section \<open>Which key is evicted\<close>

text \<open>A write of a new key into a full store with an all-keys policy drops what the policy names.\<close>

lemma full_set_evicts:
  assumes "total_store ops invar abst okkey" and "ttl_inv invar abst okkey t" and "okkey k"
    and "env_ok e" and "\<not> isVolatile (tt_policy t)"
    and "int (card (tt_allKeys t)) = tt_maxKeys t" and "0 < tt_maxKeys t" and "k \<notin> tt_allKeys t"
    and "Evict (intN e) (clk e 2) (keyord e (insert k (tt_allKeys t))) (tt_expireAt t)
      (Record k (clk e 1) (tt_policy t)) = key" and "key \<noteq> []"
  shows "\<exists>t'. TTL_Set ops e k v t = Inr t' \<and> ttl_inv invar abst okkey t'
    \<and> tt_allKeys t' = insert k (tt_allKeys t) - {key}
    \<and> abst (tt_inner t') = a_del key (a_set k v (abst (tt_inner t)))"
proof -
  let ?T = "\<lambda>i. track (clk e 1) k (t\<lparr>tt_inner := i\<rparr>)"
  obtain i where i: "abst i = a_set k v (abst (tt_inner t))"
    and g: "ttl_inv invar abst okkey (?T i)"
    and s: "TTL_Set ops e k v t = evictIfNeeded ops e (?T i)"
    using total_store.TTL_Set_pre [OF assms(1-3), of v e] by blast
  have fin: "finite (tt_allKeys t)" using assms(2) by (simp add: ttl_inv_def)
  have nv: "\<not> isVolatile (Record k (clk e 1) (tt_policy t))"
    using assms(5) by (simp add: isVolatile_def)
  have cs: "candidates e (?T i) = keyord e (insert k (tt_allKeys t))"
    using nv by (simp add: candidates_def track_def)
  have ne: "candidates e (?T i) \<noteq> []"
    using env_ok_ord [OF assms(4), of "insert k (tt_allKeys t)"] fin cs by auto
  from assms(1) g assms(4) show ?thesis
  proof (cases rule: total_store.evict_cases [consumes 3, case_names none one])
    case none
    then show ?thesis using ne cs fin assms(6-10) by (simp add: track_def)
  next
    case (one key' i')
    have "key' = key" using one(7) cs assms(9) by (simp add: track_def)
    then show ?thesis using s i one(1-3) by (intro exI [of _ "(untrack key (?T i))\<lparr>tt_inner := i'\<rparr>"])
        (simp add: untrack_def track_def)
  qed
qed



text \<open>
  with \<open>allkeys-lfu\<close>, a new key cannot enter a full store whose keys have each been used twice:
  the write succeeds, the key it has just written is the one evicted, and its value is gone.
\<close>

theorem ttl_lfu_drops_new_key:
  assumes "total_store ops invar abst okkey" and "ttl_inv invar abst okkey t" and "okkey k"
    and "env_ok e" and "tt_policy t = LFUPolicy fr" and "fr k = None"
    and "int (card (tt_allKeys t)) = tt_maxKeys t" and "0 < tt_maxKeys t"
    and "k \<notin> tt_allKeys t" and "k \<noteq> []" and "\<forall>k' \<in> tt_allKeys t. 2 \<le> the (fr k')"
  shows "\<exists>t'. TTL_Set ops e k v t = Inr t' \<and> tt_allKeys t' = tt_allKeys t
    \<and> astr (abst (tt_inner t')) k = None"
proof -
  let ?fr = "fr(k \<mapsto> 1)" and ?cs = "keyord e (insert k (tt_allKeys t))"
  have g: "finite (tt_allKeys t)" "tt_allKeys t \<subseteq> dom fr"
    using assms(2,5) by (auto simp: ttl_inv_def)
  have cs: "set ?cs = insert k (tt_allKeys t)" using env_ok_ord [OF assms(4)] g(1) by simp
  have sub: "set ?cs \<subseteq> dom ?fr" using cs g(2) by auto
  have nonempty: "?cs \<noteq> []" using cs by auto
  from LFU_Evict_least [OF nonempty sub] obtain u where u: "?fr (LFU_Evict ?cs ?fr) = Some u" "u \<le> 1"
    using cs by fastforce
  have "LFU_Evict ?cs ?fr \<in> insert k (tt_allKeys t)"
    using LFU_Evict_mem [OF nonempty, of ?fr] cs by simp
  then have key: "LFU_Evict ?cs ?fr = k" using u assms(11) by (fastforce split: if_splits)
  have vol: "\<not> isVolatile (tt_policy t)" using assms(5) by (simp add: isVolatile_iff)
  have "Evict (intN e) (clk e 2) ?cs (tt_expireAt t) (Record k (clk e 1) (tt_policy t)) = k"
    using key assms(6) by (simp add: assms(5) LFU_Record_def)
  then obtain t' where "TTL_Set ops e k v t = Inr t'" "tt_allKeys t' = insert k (tt_allKeys t) - {k}"
    "abst (tt_inner t') = a_del k (a_set k v (abst (tt_inner t)))"
    using full_set_evicts [OF assms(1-4) vol assms(7-9) _ assms(10)] by blast
  then show ?thesis using assms(9) by (intro exI [of _ t']) (simp add: a_del_def)
qed

theorem ttl_lfu_drops_new_key_witness:
  "\<exists>t'. TTL_Set MapStore_ops (env_at 5) ''b'' ''y'' (one_key (LFUPolicy [''a'' \<mapsto> 2]) 1) = Inr t'
    \<and> tt_allKeys t' = {''a''} \<and> astr (MapStore_abs (tt_inner t')) ''b'' = None"
proof -
  let ?t = "one_key (LFUPolicy [''a'' \<mapsto> 2]) 1"
  have "tt_policy ?t = LFUPolicy [''a'' \<mapsto> 2]" "tt_allKeys ?t = {''a''}" "tt_maxKeys ?t = 1"
    by (simp_all add: one_key_def)
  then show ?thesis
    using ttl_lfu_drops_new_key [OF mapst.total_store_axioms one_key_good_instances(4) [of 1] _
        env_ok_env_at [of 5], where k = "''b''" and v = "''y''" and fr = "[''a'' \<mapsto> 2]"] by auto
qed



text \<open>
  eviction takes the empty string as \<open>no victim\<close>. While the empty key is the least recently used
  one, \<open>evictIfNeeded\<close> drops nothing at all, so a store over its limit stays over it.
\<close>

theorem ttl_empty_key_stops_eviction:
  assumes "total_store ops invar abst okkey" and "ttl_inv invar abst okkey t" and "env_ok e"
    and "tt_policy t = LRUPolicy acc" and "[] \<in> tt_allKeys t"
    and "\<forall>k \<in> tt_allKeys t - {[]}. the (acc []) < the (acc k)"
  shows "evictIfNeeded ops e t = Inr t"
  using assms(1-3)
proof (cases rule: total_store.evict_cases [consumes 3, case_names none one])
  case none
  then show ?thesis by simp
next
  case (one key i)
  have g: "finite (tt_allKeys t)" "tt_allKeys t \<subseteq> dom acc"
    using assms(2,4) by (auto simp: ttl_inv_def)
  have cs: "set (candidates e t) = tt_allKeys t"
    using env_ok_ord [OF assms(3)] g assms(4) by (simp add: candidates_def isVolatile_iff)
  have ne: "candidates e t \<noteq> []" using one(5) by auto
  have "key = LRU_Evict (candidates e t) acc" using one(7) assms(4) by simp
  then obtain u where u: "acc key = Some u" "\<And>k w. k \<in> tt_allKeys t \<Longrightarrow> acc k = Some w \<Longrightarrow> u \<le> w"
    using LRU_Evict_least [OF ne, of acc] cs g(2) by blast
  then have "u \<le> the (acc [])" using assms(5) g(2) by (auto simp: dom_def)
  moreover have "the (acc []) < the (acc key)" using assms(6) one(4,6) by blast
  ultimately show ?thesis using u(1) by simp
qed

theorem ttl_empty_key_stops_eviction_witness:
  "\<exists>t. map_good t \<and> KeyCount t = 2 \<and> tt_maxKeys t = 1 \<and> evictIfNeeded MapStore_ops (env_at 9) t = Inr t"
proof -
  define t where "t = \<lparr>tt_inner = MapStore_Set ''a'' ''x'' (MapStore_Set [] ''y'' NewMapStore),
    tt_expireAt = Map.empty, tt_allKeys = {[], ''a''}, tt_policy = LRUPolicy [[] \<mapsto> 1, ''a'' \<mapsto> 2],
    tt_maxKeys = 1, tt_done = False\<rparr>"
  have g: "map_good t"
    by (auto simp: t_def ttl_inv_def a_keys_def MapStore_abs_def MapStore_defs)
  have "evictIfNeeded MapStore_ops (env_at 9) t = Inr t"
    by (rule ttl_empty_key_stops_eviction [OF mapst.total_store_axioms g env_ok_env_at])
      (auto simp: t_def)
  then show ?thesis using g by (intro exI [of _ t]) (simp add: t_def KeyCount_def)
qed

end
