(* ===== verification/Handler.thy ===== *)
theory Handler
  imports Resp Ttl_Properties
begin

text \<open>
  The commands (\<open>handler/handler.go\<close>). A handler is a closure over the \<open>TTLStore\<close>; here it takes the
  store and returns it with the reply. The environment of a command supplies the clock readings of
  all the store calls it makes, three per call.
\<close>

section \<open>Durations in seconds\<close>

text \<open>\<open>time.Duration(sec) * time.Second\<close>: a product of 64-bit integers.\<close>

definition seconds :: "int \<Rightarrow> int" where
  "seconds sec = wrap64 (sec * 1000000000)"

text \<open>
  \<open>int(d.Seconds())\<close>: \<open>Seconds\<close> computes \<open>float64(d / Second) + float64(d % Second) / 1e9\<close>, and the
  conversion truncates. The quotient and the sum are rounded to the nearest number with 53
  significant bits. A non-negative float is a pair \<open>(m, k)\<close> for \<open>m / 2 ^ k\<close>; \<open>fl_bits\<close> is the first
  \<open>k\<close> that gives 53 bits.
\<close>

function fl_bits :: "nat \<Rightarrow> nat \<Rightarrow> nat \<Rightarrow> nat" where
  "fl_bits p q k = (if k \<ge> 1074 \<or> p * 2 ^ k \<ge> 2 ^ 52 * q then k else fl_bits p q (Suc k))"
  by pat_completeness auto

termination
  by (relation "measure (\<lambda>(p, q, k). 1074 - k)") auto

declare fl_bits.simps [simp del]

definition round_half_even :: "nat \<Rightarrow> nat \<Rightarrow> nat" where
  "round_half_even p q =
     (let d = p div q; r = p mod q
      in if 2 * r < q then d else if 2 * r > q then d + 1 else if even d then d else d + 1)"

definition fl_quot :: "nat \<Rightarrow> nat \<Rightarrow> nat \<times> nat" where
  "fl_quot p q =
     (if p = 0 then (0, 0) else let k = fl_bits p q 0 in (round_half_even (p * 2 ^ k) q, k))"

definition Seconds_nat :: "nat \<Rightarrow> nat" where
  "Seconds_nat d =
     (let sec = d div 1000000000; nsec = d mod 1000000000;
          (m, k) = fl_quot nsec 1000000000;
          (m', k') = fl_quot (sec * 2 ^ k + m) (2 ^ k)
      in m' div 2 ^ k')"

definition Seconds_int :: "int \<Rightarrow> int" where
  "Seconds_int d = (if d < 0 then - int (Seconds_nat (nat (- d))) else int (Seconds_nat (nat d)))"

lemma round_half_even_ge: "p div q \<le> round_half_even p q"
  by (simp add: round_half_even_def Let_def)

lemma round_half_even_le:
  assumes "0 < q" and "p \<le> n * q"
  shows "round_half_even p q \<le> n"
proof (cases "p = n * q")
  case True
  then show ?thesis using assms(1) by (simp add: round_half_even_def)
next
  case False
  then have "p < n * q" using assms(2) by simp
  then have "p div q < n" using assms(1) by (simp add: less_mult_imp_div_less)
  moreover have "round_half_even p q \<le> p div q + 1" by (simp add: round_half_even_def Let_def)
  ultimately show ?thesis by simp
qed

text \<open>A quotient between two integers is rounded to a float between them.\<close>

lemma fl_quot_bounds:
  assumes "0 < q" and "a * q \<le> p" and "p \<le> b * q" and "fl_quot p q = (m, k)"
  shows "a * 2 ^ k \<le> m \<and> m \<le> b * 2 ^ k"
proof (cases "p = 0")
  case True
  then show ?thesis using assms by (auto simp: fl_quot_def)
next
  case False
  then have k: "m = round_half_even (p * 2 ^ k) q" using assms(4) by (auto simp: fl_quot_def Let_def)
  have "a * 2 ^ k * q \<le> p * 2 ^ k" using mult_le_mono1 [OF assms(2), of "2 ^ k"] by (simp add: ac_simps)
  then have "a * 2 ^ k \<le> p * 2 ^ k div q" using assms(1) by (simp add: less_eq_div_iff_mult_less_eq)
  moreover have "p * 2 ^ k \<le> b * 2 ^ k * q"
    using mult_le_mono1 [OF assms(3), of "2 ^ k"] by (simp add: ac_simps)
  ultimately show ?thesis
    using k round_half_even_ge [of "p * 2 ^ k" q] round_half_even_le [OF assms(1)] by simp
qed

lemma Seconds_nat_bounds: "d div 1000000000 \<le> Seconds_nat d \<and> Seconds_nat d \<le> d div 1000000000 + 1"
proof -
  define sec where "sec = d div 1000000000"
  obtain m k where mk: "fl_quot (d mod 1000000000) 1000000000 = (m, k)" by fastforce
  have m: "m \<le> 1 * 2 ^ k"
    using fl_quot_bounds [OF _ _ _ mk, of 0 1] by simp
  obtain m' k' where mk': "fl_quot (sec * 2 ^ k + m) (2 ^ k) = (m', k')" by fastforce
  have "sec * 2 ^ k' \<le> m' \<and> m' \<le> (sec + 1) * 2 ^ k'"
    using fl_quot_bounds [OF _ _ _ mk', of sec "sec + 1"] m by simp
  then have "sec \<le> m' div 2 ^ k'" "m' div 2 ^ k' \<le> sec + 1"
    using div_le_mono [of "sec * 2 ^ k'" m' "2 ^ k'"] div_le_mono [of m' "(sec + 1) * 2 ^ k'" "2 ^ k'"]
    by auto
  moreover have "Seconds_nat d = m' div 2 ^ k'"
    using mk mk' by (simp add: Seconds_nat_def sec_def Let_def)
  ultimately show ?thesis by (simp add: sec_def)
qed

lemma Seconds_int_bounds:
  assumes "0 \<le> d"
  shows "d div 1000000000 \<le> Seconds_int d \<and> Seconds_int d \<le> d div 1000000000 + 1"
proof -
  have "int (nat d div 1000000000) = d div 1000000000" using assms by (simp add: zdiv_int)
  then show ?thesis using Seconds_nat_bounds [of "nat d"] assms by (simp add: Seconds_int_def)
qed

text \<open>The duration of -2 nanoseconds that \<open>TTLStore.TTL\<close> returns for a key without a deadline.\<close>

lemma fl_bits_ge: "k \<le> fl_bits p q k"
proof (induction p q k rule: fl_bits.induct)
  case (1 p q k)
  then show ?case by (cases "k \<ge> 1074 \<or> p * 2 ^ k \<ge> 2 ^ 52 * q") (auto simp: fl_bits.simps [of p q k])
qed

lemma fl_quot_half:
  assumes "0 < q" and "2 * p \<le> q" and "fl_quot p q = (m, k)"
  shows "2 * m \<le> 2 ^ k"
proof (cases "p = 0")
  case True
  then show ?thesis using assms(3) by (auto simp: fl_quot_def)
next
  case False
  then have k: "k = fl_bits p q 0" "m = round_half_even (p * 2 ^ k) q"
    using assms(3) by (auto simp: fl_quot_def Let_def)
  have "p < 2 ^ 52 * q" using assms(1,2) by simp
  then have "fl_bits p q 0 = fl_bits p q 1" by (subst fl_bits.simps) simp
  then have "1 \<le> k" using k(1) fl_bits_ge [of 1 p q] by simp
  then obtain j where j: "k = Suc j" by (cases k) auto
  have "p * 2 ^ k \<le> 2 ^ j * q" using mult_le_mono1 [OF assms(2), of "2 ^ j"] j by (simp add: ac_simps)
  then have "m \<le> 2 ^ j" using k(2) round_half_even_le [OF assms(1)] by simp
  then show ?thesis using j by simp
qed

lemma Seconds_nat_small:
  assumes "d \<le> 500000000"
  shows "Seconds_nat d = 0"
proof -
  obtain m k where mk: "fl_quot d 1000000000 = (m, k)" by fastforce
  have m: "2 * m \<le> 2 ^ k" using fl_quot_half [OF _ _ mk] assms by simp
  obtain m' k' where mk': "fl_quot m (2 ^ k) = (m', k')" by fastforce
  have "2 * m' \<le> 2 ^ k'" using fl_quot_half [OF _ m mk'] by simp
  moreover have "(0::nat) < 2 ^ k'" by simp
  ultimately have "m' < 2 ^ k'" by linarith
  then show ?thesis using mk mk' assms by (simp add: Seconds_nat_def)
qed

lemma Seconds_int_absent: "Seconds_int (-2) = 0"
  using Seconds_nat_small [of 2] by (simp add: Seconds_int_def)

lemma time_Sub_pos: "0 < time_Sub t u \<longleftrightarrow> u < t"
  by (auto simp: time_Sub_def int64_defs)

section \<open>The handlers\<close>

type_synonym 's handler = "env \<Rightarrow> Value list \<Rightarrow> 's TTLStore \<Rightarrow> (Value \<times> 's TTLStore) res"

definition wrong_args :: "string \<Rightarrow> Value" where
  "wrong_args cmd = error_value (''ERR wrong number of arguments for '' @ [CHR 0x27] @ cmd @ [CHR 0x27] @ '' command'')"

definition ping :: "'s handler" where
  "ping e args t =
     Inr (if args = [] then string_value ''PONG'' else string_value (Bulk (args ! 0)), t)"

definition setHandler :: "'s store_ops \<Rightarrow> 's handler" where
  "setHandler ops e args t =
     (if length args < 2 then Inr (wrong_args ''set'', t)
      else let key = Bulk (args ! 0); val = Bulk (args ! 1);
               plain = bindr (TTL_Set ops e key val t) (\<lambda>t'. Inr (string_value ''OK'', t'))
           in if length args \<ge> 4 \<and> (Bulk (args ! 2) = ''EX'' \<or> Bulk (args ! 2) = ''ex'')
              then (case Atoi (Bulk (args ! 3)) of
                      Some sec \<Rightarrow>
                        bindr (SetWithTTL ops e key val (seconds sec) t)
                          (\<lambda>t'. Inr (string_value ''OK'', t'))
                    | None \<Rightarrow> plain)
              else plain)"

definition getHandler :: "'s store_ops \<Rightarrow> 's handler" where
  "getHandler ops e args t =
     (if length args \<noteq> 1 then Inr (wrong_args ''get'', t)
      else bindr (TTL_Get ops e (Bulk (args ! 0)) t) (\<lambda>(v, t').
             Inr (case v of None \<Rightarrow> null_value | Some val \<Rightarrow> bulk_value val, t')))"

definition hsetHandler :: "'s store_ops \<Rightarrow> 's handler" where
  "hsetHandler ops e args t =
     (if length args \<noteq> 3 then Inr (wrong_args ''hset'', t)
      else bindr (TTL_HSet ops e (Bulk (args ! 0)) (Bulk (args ! 1)) (Bulk (args ! 2)) t)
             (\<lambda>t'. Inr (string_value ''OK'', t')))"

definition hgetHandler :: "'s store_ops \<Rightarrow> 's handler" where
  "hgetHandler ops e args t =
     (if length args \<noteq> 2 then Inr (wrong_args ''hget'', t)
      else bindr (TTL_HGet ops e (Bulk (args ! 0)) (Bulk (args ! 1)) t) (\<lambda>(v, t').
             Inr (case v of None \<Rightarrow> null_value | Some val \<Rightarrow> bulk_value val, t')))"

fun field_values :: "smap \<Rightarrow> string list \<Rightarrow> Value list" where
  "field_values h [] = []"
| "field_values h (k # ks) =
     (case h k of None \<Rightarrow> field_values h ks
      | Some v \<Rightarrow> bulk_value k # bulk_value v # field_values h ks)"

definition hgetallHandler :: "'s store_ops \<Rightarrow> 's handler" where
  "hgetallHandler ops e args t =
     (if length args \<noteq> 1 then Inr (wrong_args ''hgetall'', t)
      else bindr (TTL_HGetAll ops e (Bulk (args ! 0)) t) (\<lambda>(h, t').
             Inr (case h of None \<Rightarrow> array_value []
                  | Some m \<Rightarrow> array_value (field_values m (keyord e (dom m))), t')))"

definition expireHandler :: "'s store_ops \<Rightarrow> 's handler" where
  "expireHandler ops e args t =
     (if length args \<noteq> 2 then Inr (wrong_args ''expire'', t)
      else case Atoi (Bulk (args ! 1)) of
             None \<Rightarrow> Inr (error_value ''ERR value is not an integer or out of range'', t)
           | Some sec \<Rightarrow>
               bindr (Expire ops e (Bulk (args ! 0)) (seconds sec) t) (\<lambda>(ok, t').
                 Inr (int_value (if ok then 1 else 0), t')))"

definition ttlHandler :: "'s handler" where
  "ttlHandler e args t =
     (if length args \<noteq> 1 then Inr (wrong_args ''ttl'', t)
      else Inr (int_value (Seconds_int (TTL e (Bulk (args ! 0)) t)), t))"

definition later :: "env \<Rightarrow> env" where
  "later e = e\<lparr>clk := \<lambda>i. clk e (i + 3)\<rparr>"

fun del_loop :: "'s store_ops \<Rightarrow> env \<Rightarrow> Value list \<Rightarrow> int \<Rightarrow> 's TTLStore \<Rightarrow> (int \<times> 's TTLStore) res" where
  "del_loop ops e [] count t = Inr (count, t)"
| "del_loop ops e (arg # args) count t =
     bindr (TTL_Get ops e (Bulk arg) t) (\<lambda>(v, t1).
       case v of
         None \<Rightarrow> del_loop ops (later e) args count t1
       | Some _ \<Rightarrow>
           bindr (TTL_Del ops (Bulk arg) t1) (\<lambda>t2. del_loop ops (later e) args (count + 1) t2))"

definition delHandler :: "'s store_ops \<Rightarrow> 's handler" where
  "delHandler ops e args t =
     (if length args < 1 then Inr (wrong_args ''del'', t)
      else bindr (del_loop ops e args 0 t) (\<lambda>(count, t'). Inr (int_value count, t')))"

definition NewHandlers :: "'s store_ops \<Rightarrow> string \<rightharpoonup> 's handler" where
  "NewHandlers ops =
     [''PING'' \<mapsto> ping, ''SET'' \<mapsto> setHandler ops, ''GET'' \<mapsto> getHandler ops,
      ''HSET'' \<mapsto> hsetHandler ops, ''HGET'' \<mapsto> hgetHandler ops, ''HGETALL'' \<mapsto> hgetallHandler ops,
      ''EXPIRE'' \<mapsto> expireHandler ops, ''TTL'' \<mapsto> ttlHandler, ''DEL'' \<mapsto> delHandler ops]"

lemmas handler_defs = ping_def setHandler_def getHandler_def hsetHandler_def hgetHandler_def
  hgetallHandler_def expireHandler_def ttlHandler_def delHandler_def

section \<open>A command is a sequence of store calls\<close>

lemma env_ok_later [simp]: "env_ok e \<Longrightarrow> env_ok (later e)"
  by (simp add: env_ok_def later_def)

definition calls_on :: "string set \<Rightarrow> (env \<times> ttl_call) list \<Rightarrow> bool" where
  "calls_on K cs \<longleftrightarrow> (\<forall>(e, c) \<in> set cs. env_ok e \<and> (\<forall>k. ttl_call_key c = Some k \<longrightarrow> k \<in> K))"

lemma calls_on_simps [simp]:
  "calls_on K []"
  "calls_on K ((e, c) # cs) \<longleftrightarrow> env_ok e \<and> (\<forall>k. ttl_call_key c = Some k \<longrightarrow> k \<in> K) \<and> calls_on K cs"
  by (simp_all add: calls_on_def)

lemma calls_on_mono: "calls_on K cs \<Longrightarrow> K \<subseteq> L \<Longrightarrow> calls_on L cs"
  by (fastforce simp: calls_on_def)

text \<open>\<open>did ops K t t'\<close>: some calls on keys of \<open>K\<close> take the store from \<open>t\<close> to \<open>t'\<close>.\<close>

definition did :: "'s store_ops \<Rightarrow> string set \<Rightarrow> 's TTLStore \<Rightarrow> 's TTLStore \<Rightarrow> bool" where
  "did ops K t t' \<longleftrightarrow> (\<exists>cs. calls_on K cs \<and> ttl_run ops cs t = Inr t')"

lemma did_refl [simp]: "did ops K t t"
  unfolding did_def by (intro exI [of _ "[]"]) simp

lemma did_step:
  "env_ok e \<Longrightarrow> (\<And>k. ttl_call_key c = Some k \<Longrightarrow> k \<in> K) \<Longrightarrow> ttl_step ops e c t = Inr t'
    \<Longrightarrow> did ops K t t'"
  unfolding did_def by (intro exI [of _ "[(e, c)]"]) simp

lemma ttl_run_append:
  "ttl_run ops (cs @ ds) t = bindr (ttl_run ops cs t) (ttl_run ops ds)"
proof (induction cs arbitrary: t)
  case Nil
  then show ?case by simp
next
  case (Cons ec cs)
  then show ?case by (cases ec; cases "ttl_step ops (fst ec) (snd ec) t") auto
qed

lemma did_trans:
  assumes "did ops K t t1" and "did ops K t1 t2"
  shows "did ops K t t2"
proof -
  obtain cs ds where "calls_on K cs" "ttl_run ops cs t = Inr t1" "calls_on K ds" "ttl_run ops ds t1 = Inr t2"
    using assms by (auto simp: did_def)
  then show ?thesis
    unfolding did_def by (intro exI [of _ "cs @ ds"]) (auto simp: calls_on_def ttl_run_append)
qed

lemma did_good:
  assumes "total_store ops invar abst okkey" and "ttl_inv invar abst okkey t" and "did ops K t t'"
    and "\<forall>k \<in> K. okkey k"
  shows "ttl_inv invar abst okkey t'"
proof -
  obtain cs where cs: "calls_on K cs" "ttl_run ops cs t = Inr t'" using assms(3) by (auto simp: did_def)
  then have "\<forall>(e, c) \<in> set cs. env_ok e \<and> (\<forall>k. ttl_call_key c = Some k \<longrightarrow> okkey k)"
    using assms(4) unfolding calls_on_def by blast
  from run_keeps [OF assms(1,2) this] cs(2) show ?thesis by auto
qed

lemma map_upd_SomeE: "(m(k \<mapsto> v)) x = Some y \<Longrightarrow> (v = y \<Longrightarrow> P) \<Longrightarrow> (m x = Some y \<Longrightarrow> P) \<Longrightarrow> P"
  by (auto split: if_splits)

lemma NewHandlers_cases:
  assumes "NewHandlers ops cmd = Some h"
  obtains "h = ping" | "h = setHandler ops" | "h = getHandler ops" | "h = hsetHandler ops"
    | "h = hgetHandler ops" | "h = hgetallHandler ops" | "h = expireHandler ops" | "h = ttlHandler"
    | "h = delHandler ops"
  using assms unfolding NewHandlers_def by (elim map_upd_SomeE) simp_all

context total_store
begin

text \<open>Each store call returns and is a step of a session.\<close>

lemma call_returns:
  assumes "good t" and "env_ok e" and "k \<in> K" and "okkey k"
  shows "\<exists>v t'. TTL_Get ops e k t = Inr (v, t') \<and> good t' \<and> did ops K t t'"
    and "\<exists>v t'. TTL_HGet ops e k f t = Inr (v, t') \<and> good t' \<and> did ops K t t'"
    and "\<exists>m t'. TTL_HGetAll ops e k t = Inr (m, t') \<and> good t' \<and> did ops K t t'"
    and "\<exists>b t'. Expire ops e k d t = Inr (b, t') \<and> good t' \<and> did ops K t t'"
    and "\<exists>t'. TTL_Set ops e k x t = Inr t' \<and> good t' \<and> did ops K t t'"
    and "\<exists>t'. SetWithTTL ops e k x d t = Inr t' \<and> good t' \<and> did ops K t t'"
    and "\<exists>t'. TTL_HSet ops e k f x t = Inr t' \<and> good t' \<and> did ops K t t'"
    and "\<exists>t'. TTL_Del ops k t = Inr t' \<and> good t' \<and> did ops K t t'"
proof -
  have step: "\<exists>t'. ttl_step ops e c t = Inr t' \<and> good t' \<and> did ops K t t'"
    if "ttl_call_key c = Some k" for c
    using step_keeps [OF assms(1,2), of c] that assms(2-4) did_step [of e c K ops t] by auto
  show "\<exists>v t'. TTL_Get ops e k t = Inr (v, t') \<and> good t' \<and> did ops K t t'"
    using step [of "TGet k"] by (cases "TTL_Get ops e k t") auto
  show "\<exists>v t'. TTL_HGet ops e k f t = Inr (v, t') \<and> good t' \<and> did ops K t t'"
    using step [of "THGet k f"] by (cases "TTL_HGet ops e k f t") auto
  show "\<exists>m t'. TTL_HGetAll ops e k t = Inr (m, t') \<and> good t' \<and> did ops K t t'"
    using step [of "THGetAll k"] by (cases "TTL_HGetAll ops e k t") auto
  show "\<exists>b t'. Expire ops e k d t = Inr (b, t') \<and> good t' \<and> did ops K t t'"
    using step [of "TExpire k d"] by (cases "Expire ops e k d t") auto
  show "\<exists>t'. TTL_Set ops e k x t = Inr t' \<and> good t' \<and> did ops K t t'" using step [of "TSet k x"] by simp
  show "\<exists>t'. SetWithTTL ops e k x d t = Inr t' \<and> good t' \<and> did ops K t t'"
    using step [of "TSetTTL k x d"] by simp
  show "\<exists>t'. TTL_HSet ops e k f x t = Inr t' \<and> good t' \<and> did ops K t t'"
    using step [of "THSet k f x"] by simp
  show "\<exists>t'. TTL_Del ops k t = Inr t' \<and> good t' \<and> did ops K t t'" using step [of "TDel k"] by simp
qed

lemma del_loop_returns:
  assumes "good t" and "env_ok e" and "Bulk ` set args \<subseteq> K" and "\<forall>k \<in> K. okkey k"
  shows "\<exists>n t'. del_loop ops e args count t = Inr (n, t') \<and> did ops K t t'"
  using assms(1-3)
proof (induction args arbitrary: e count t)
  case Nil
  then show ?case by simp
next
  case (Cons arg args)
  have k: "Bulk arg \<in> K" "okkey (Bulk arg)" using Cons.prems(3) assms(4) by auto
  obtain v t1 where t1: "TTL_Get ops e (Bulk arg) t = Inr (v, t1)" "good t1" "did ops K t t1"
    using call_returns(1) [OF Cons.prems(1,2) k] by blast
  obtain t2 where t2: "TTL_Del ops (Bulk arg) t1 = Inr t2" "good t2" "did ops K t1 t2"
    using call_returns(8) [OF t1(2) Cons.prems(2) k] by blast
  have later: "env_ok (later e)" "Bulk ` set args \<subseteq> K" using Cons.prems(2,3) by auto
  show ?case
  proof (cases v)
    case None
    obtain n t' where "del_loop ops (later e) args count t1 = Inr (n, t')" "did ops K t1 t'"
      using Cons.IH [OF t1(2) later] by blast
    then show ?thesis using t1(1) None did_trans [OF t1(3)] by simp
  next
    case (Some x)
    obtain n t' where "del_loop ops (later e) args (count + 1) t2 = Inr (n, t')" "did ops K t2 t'"
      using Cons.IH [OF t2(2) later] by blast
    then show ?thesis using t1(1) t2(1) Some did_trans [OF did_trans [OF t1(3) t2(3)]] by simp
  qed
qed

lemma handler_returns:
  assumes "good t" and "env_ok e" and "\<forall>v \<in> set args. okkey (Bulk v)"
    and "NewHandlers ops cmd = Some h"
  shows "\<exists>v t'. h e args t = Inr (v, t') \<and> did ops (Bulk ` set args) t t'"
proof -
  let ?K = "Bulk ` set args"
  have nth: "Bulk (args ! i) \<in> ?K \<and> okkey (Bulk (args ! i))" if "i < length args" for i
    using that assms(3) by auto
  have ok0: "Bulk (args ! 0) \<in> ?K" "okkey (Bulk (args ! 0))" if "0 < length args"
    using nth [OF that] by auto
  note calls = call_returns [OF assms(1,2) ok0]
  from assms(4) consider "h = ping" | "h = setHandler ops" | "h = getHandler ops" | "h = hsetHandler ops"
    | "h = hgetHandler ops" | "h = hgetallHandler ops" | "h = expireHandler ops" | "h = ttlHandler"
    | "h = delHandler ops" by (rule NewHandlers_cases)
  then show ?thesis
  proof cases
    case 2
    show ?thesis
    proof (cases "length args < 2")
      case False
      then have "0 < length args" by linarith
      then obtain t1 where t1: "TTL_Set ops e (Bulk (args ! 0)) (Bulk (args ! 1)) t = Inr t1" "did ops ?K t t1"
        using calls(5) [of "Bulk (args ! 1)"] by auto
      let ?d = "seconds (the (Atoi (Bulk (args ! 3))))"
      obtain t2 where "SetWithTTL ops e (Bulk (args ! 0)) (Bulk (args ! 1)) ?d t = Inr t2" "did ops ?K t t2"
        using calls(6) [of "Bulk (args ! 1)" ?d] \<open>0 < length args\<close> by auto
      then show ?thesis using 2 False t1 by (cases "Atoi (Bulk (args ! 3))") (auto simp: setHandler_def Let_def)
    qed (simp add: 2 setHandler_def)
  next
    case 3
    then show ?thesis using calls(1) by (cases "length args = 1") (auto simp: getHandler_def)
  next
    case 4
    then show ?thesis
      using calls(7) [of "Bulk (args ! 1)" "Bulk (args ! 2)"]
      by (cases "length args = 3") (auto simp: hsetHandler_def)
  next
    case 5
    then show ?thesis
      using calls(2) [of "Bulk (args ! 1)"] by (cases "length args = 2") (auto simp: hgetHandler_def)
  next
    case 6
    then show ?thesis using calls(3) by (cases "length args = 1") (auto simp: hgetallHandler_def)
  next
    case 7
    let ?d = "seconds (the (Atoi (Bulk (args ! 1))))"
    have "\<exists>b t'. Expire ops e (Bulk (args ! 0)) ?d t = Inr (b, t') \<and> did ops ?K t t'"
      if "0 < length args" using calls(4) [OF that that, of ?d] by auto
    then show ?thesis
      using 7 by (cases "length args = 2"; cases "Atoi (Bulk (args ! 1))") (auto simp: expireHandler_def)
  next
    case 9
    have "\<exists>n t'. del_loop ops e args 0 t = Inr (n, t') \<and> did ops ?K t t'"
      using assms(3) by (intro del_loop_returns [OF assms(1,2)]) auto
    then show ?thesis using 9 by (auto simp: delHandler_def)
  qed (simp_all add: ping_def ttlHandler_def)
qed

end

section \<open>DEL\<close>

text \<open>What \<open>DEL\<close> does to the abstract store: it drops the keys that hold a string, and counts them.\<close>

fun del_spec :: "string list \<Rightarrow> astore \<Rightarrow> int \<times> astore" where
  "del_spec [] a = (0, a)"
| "del_spec (k # ks) a =
     (if astr a k = None then del_spec ks a
      else (fst (del_spec ks (a_del k a)) + 1, snd (del_spec ks (a_del k a))))"

lemma del_spec_store:
  "astr (snd (del_spec ks a)) k = (if k \<in> set ks then None else astr a k)"
  "ahash (snd (del_spec ks a)) k
     = (if k \<in> set ks \<and> astr a k \<noteq> None then None else ahash a k)"
  by (induction ks arbitrary: a) (auto simp: a_del_def)

lemma del_spec_count: "fst (del_spec ks a) = int (card {k \<in> set ks. astr a k \<noteq> None})"
proof (induction ks arbitrary: a)
  case Nil
  then show ?case by simp
next
  case (Cons k ks)
  show ?case
  proof (cases "astr a k")
    case None
    then have "{k' \<in> set (k # ks). astr a k' \<noteq> None} = {k' \<in> set ks. astr a k' \<noteq> None}" by auto
    with None Cons show ?thesis by simp
  next
    case (Some x)
    then have "{k' \<in> set (k # ks). astr a k' \<noteq> None}
        = insert k {k' \<in> set ks. astr (a_del k a) k' \<noteq> None}" by (auto simp: a_del_def)
    moreover have "k \<notin> {k' \<in> set ks. astr (a_del k a) k' \<noteq> None}" by (simp add: a_del_def)
    ultimately show ?thesis using Some Cons [of "a_del k a"] by simp
  qed
qed

context total_store
begin

lemma TTL_Del_effect:
  assumes "good t" and "okkey k"
  shows "\<exists>t'. TTL_Del ops k t = Inr t' \<and> good t' \<and> abst (tt_inner t') = a_del k (abst (tt_inner t))
    \<and> tt_expireAt t' = (tt_expireAt t)(k := None)"
  using drop_key [OF assms] by (auto simp: TTL_Del_def untrack_def)

lemma del_loop_effect:
  assumes "good t" and "\<forall>v \<in> set args. okkey (Bulk v) \<and> tt_expireAt t (Bulk v) = None"
  shows "\<exists>t'. del_loop ops e args count t
      = Inr (count + fst (del_spec (map Bulk args) (abst (tt_inner t))), t')
    \<and> abst (tt_inner t') = snd (del_spec (map Bulk args) (abst (tt_inner t)))"
  using assms
proof (induction args arbitrary: e count t)
  case Nil
  then show ?case by simp
next
  case (Cons arg args)
  define k where "k = Bulk arg"
  define t1 where "t1 = t\<lparr>tt_policy := Record k (clk e 1) (tt_policy t)\<rparr>"
  have k: "okkey k" "\<not> isExpired (clk e 0) k t"
    using Cons.prems(2) by (auto simp: isExpired_def k_def)
  have t1: "good t1" "tt_inner t1 = tt_inner t" "tt_expireAt t1 = tt_expireAt t"
    using record_good [OF Cons.prems(1)] by (simp_all add: t1_def)
  have get: "TTL_Get ops e k t = Inr (astr (abst (tt_inner t)) k, t1)"
    using TTL_Get_live [OF Cons.prems(1) k] by (simp add: t1_def)
  show ?case
  proof (cases "astr (abst (tt_inner t)) k")
    case None
    have "\<forall>v \<in> set args. okkey (Bulk v) \<and> tt_expireAt t1 (Bulk v) = None"
      using Cons.prems(2) t1(3) by simp
    with Cons.IH [OF t1(1) this, of "later e" count] None get t1(2) show ?thesis
      by (simp add: k_def [symmetric])
  next
    case (Some x)
    obtain t2 where t2: "TTL_Del ops k t1 = Inr t2" "good t2"
      "abst (tt_inner t2) = a_del k (abst (tt_inner t))" "tt_expireAt t2 = (tt_expireAt t)(k := None)"
      using TTL_Del_effect [OF t1(1) k(1)] t1(2,3) by auto
    have "\<forall>v \<in> set args. okkey (Bulk v) \<and> tt_expireAt t2 (Bulk v) = None"
      using Cons.prems(2) t2(4) by simp
    with Cons.IH [OF t2(2) this, of "later e" "count + 1"] Some get t2(1,3) show ?thesis
      by (simp add: k_def [symmetric] algebra_simps)
  qed
qed

end

section \<open>Properties\<close>





text \<open>
  \<open>TTL\<close> of a key with a deadline in the future replies the whole seconds left, or one more when
  the float rounds up; for every other key, missing or without a deadline, it replies 0: the -2 of
  \<open>TTLStore.TTL\<close> is a duration of -2 nanoseconds, which truncates to 0 seconds.
\<close>

theorem ttl_handler_reply:
  "\<exists>n. ttlHandler e [v] t = Inr (int_value n, t)
    \<and> (case tt_expireAt t (Bulk v) of
         None \<Rightarrow> n = 0
       | Some exp \<Rightarrow>
           if exp \<le> clk e 0 then n = 0
           else time_Sub exp (clk e 0) div 1000000000 \<le> n
             \<and> n \<le> time_Sub exp (clk e 0) div 1000000000 + 1)"
proof (cases "tt_expireAt t (Bulk v)")
  case None
  then show ?thesis using Seconds_int_absent by (simp add: ttlHandler_def TTL_def)
next
  case (Some exp)
  let ?d = "time_Sub exp (clk e 0)"
  have "ttlHandler e [v] t = Inr (int_value (if ?d \<le> 0 then 0 else Seconds_int ?d), t)"
    using Some Seconds_int_absent by (simp add: ttlHandler_def TTL_def Let_def)
  moreover have "?d \<le> 0 \<longleftrightarrow> exp \<le> clk e 0"
    using time_Sub_pos [of exp "clk e 0"] by linarith
  ultimately show ?thesis
    using Some Seconds_int_bounds [of ?d]
    by (intro exI [of _ "if ?d \<le> 0 then 0 else Seconds_int ?d"]) auto
qed

end
