(* ===== verification/Persist_Spec.thy ===== *)
theory Persist_Spec
  imports Store_Spec Go_Strings
begin

text \<open>
  Persistence (\<open>persistence/persistence.go\<close>, \<open>null.go\<close>, \<open>dual.go\<close>): the interface, what a backend
  owes its client, and the two backends that keep no data of their own. \<open>Replay(fn)\<close> calls \<open>fn\<close> on
  a sequence of commands; it is modelled by that sequence, the way the call ends, and the backend
  afterwards. \<open>None\<close> means that \<open>Replay\<close> never returns.
\<close>

section \<open>Commands\<close>

record Command =
  cmd_Name :: string
  cmd_Args :: "string list"

definition mk_cmd :: "string \<Rightarrow> string list \<Rightarrow> Command" where
  "mk_cmd name args = \<lparr>cmd_Name = name, cmd_Args = args\<rparr>"

lemma mk_cmd_sel [simp]: "cmd_Name (mk_cmd n a) = n" "cmd_Args (mk_cmd n a) = a"
  by (simp_all add: mk_cmd_def)

text \<open>What a command does to the abstract store when \<open>main\<close> replays it: only two commands count.\<close>

definition apply_cmd :: "Command \<Rightarrow> astore \<Rightarrow> astore" where
  "apply_cmd c a =
     (if cmd_Name c = ''SET'' then
        (case cmd_Args c of k # v # _ \<Rightarrow> a_set k v a | _ \<Rightarrow> a)
      else if cmd_Name c = ''HSET'' then
        (case cmd_Args c of h # k # v # _ \<Rightarrow> a_hset h k v a | _ \<Rightarrow> a)
      else a)"

definition apply_cmds :: "Command list \<Rightarrow> astore \<Rightarrow> astore" where
  "apply_cmds cs a = foldl (\<lambda>a c. apply_cmd c a) a cs"

lemma apply_cmds_simps [simp]:
  "apply_cmds [] a = a" "apply_cmds (c # cs) a = apply_cmds cs (apply_cmd c a)"
  "apply_cmds (cs @ ds) a = apply_cmds ds (apply_cmds cs a)"
  by (simp_all add: apply_cmds_def)

text \<open>The commands that \<open>main\<close> hands to a backend.\<close>

definition write_cmd :: "Command \<Rightarrow> bool" where
  "write_cmd c \<longleftrightarrow> cmd_Name c = ''SET'' \<or> cmd_Name c = ''HSET''"

lemma ToUpper_write_cmd: "write_cmd c \<Longrightarrow> ToUpper up (cmd_Name c) = cmd_Name c"
proof -
  have "ToUpper up ''SET'' = ''SET''" "ToUpper up ''HSET'' = ''HSET''"
    by (simp_all add: ToUpper_def is_ascii_def upper_char_def)
  then show "write_cmd c \<Longrightarrow> ToUpper up (cmd_Name c) = cmd_Name c" by (auto simp: write_cmd_def)
qed

section \<open>The interface\<close>

datatype replay_end = Finished | Failed | Crashed

record 'p persistence_ops =
  pp_Write :: "Command \<Rightarrow> 'p \<Rightarrow> 'p"
  pp_Replay :: "'p \<Rightarrow> (Command list \<times> replay_end \<times> 'p) option"
  pp_Close :: "'p \<Rightarrow> 'p"

fun writes :: "'p persistence_ops \<Rightarrow> Command list \<Rightarrow> 'p \<Rightarrow> 'p" where
  "writes ops [] p = p"
| "writes ops (c # cs) p = writes ops cs (pp_Write ops c p)"

text \<open>
  \<open>sessions\<close>: any number of sessions, each ended by closing the backend and followed by a replay.
  \<open>oks\<close> and \<open>session_oks\<close> say that the backend can take every command at the time it is written.
\<close>

fun oks :: "'p persistence_ops \<Rightarrow> (Command \<Rightarrow> 'p \<Rightarrow> bool) \<Rightarrow> Command list \<Rightarrow> 'p \<Rightarrow> bool" where
  "oks ops okcmd [] p \<longleftrightarrow> True"
| "oks ops okcmd (c # cs) p \<longleftrightarrow> okcmd c p \<and> oks ops okcmd cs (pp_Write ops c p)"

fun sessions :: "'p persistence_ops \<Rightarrow> ('p \<Rightarrow> 'p) \<Rightarrow> Command list list \<Rightarrow> 'p \<Rightarrow> 'p option" where
  "sessions ops reopen [] p = Some p"
| "sessions ops reopen (cs # css) p =
     (case pp_Replay ops (reopen (pp_Close ops (writes ops cs p))) of
        Some (_, Finished, p') \<Rightarrow> sessions ops reopen css p' | _ \<Rightarrow> None)"

fun session_oks ::
    "'p persistence_ops \<Rightarrow> ('p \<Rightarrow> 'p) \<Rightarrow> (Command \<Rightarrow> 'p \<Rightarrow> bool) \<Rightarrow> Command list list \<Rightarrow> 'p \<Rightarrow> bool" where
  "session_oks ops reopen okcmd [] p \<longleftrightarrow> True"
| "session_oks ops reopen okcmd (cs # css) p \<longleftrightarrow> oks ops okcmd cs p
     \<and> (case pp_Replay ops (reopen (pp_Close ops (writes ops cs p))) of
          Some (_, _, p') \<Rightarrow> session_oks ops reopen okcmd css p' | None \<Rightarrow> True)"

text \<open>
  What \<open>main\<close> relies on. \<open>pstate p\<close> is the store that the backend's data stand for, \<open>okcmd c p\<close> says
  that \<open>p\<close> can take the command \<open>c\<close>, and \<open>reopen\<close> is what the backend's constructor makes of the
  files a closed one has left. A backend is \<^emph>\<open>restartable\<close> when replaying after a restart rebuilds
  the store, and \<^emph>\<open>durable\<close> when it can then go on as if nothing had happened.
\<close>

locale restartable =
  fixes ops :: "'p persistence_ops" and reopen :: "'p \<Rightarrow> 'p" and invar :: "'p \<Rightarrow> bool"
    and pstate :: "'p \<Rightarrow> astore" and okcmd :: "Command \<Rightarrow> 'p \<Rightarrow> bool"
  assumes Write_law: "invar p \<Longrightarrow> okcmd c p
      \<Longrightarrow> invar (pp_Write ops c p) \<and> pstate (pp_Write ops c p) = apply_cmd c (pstate p)"
    and Replay_law: "invar p
      \<Longrightarrow> \<exists>cs p'. pp_Replay ops (reopen (pp_Close ops p)) = Some (cs, Finished, p')
            \<and> apply_cmds cs a_empty = pstate p"
begin

lemma writes_state:
  "invar p \<Longrightarrow> oks ops okcmd cs p \<Longrightarrow> invar (writes ops cs p) \<and> pstate (writes ops cs p) = apply_cmds cs (pstate p)"
  by (induction cs arbitrary: p) (auto simp: Write_law)

lemma restart_after_writes:
  assumes "invar p" and "oks ops okcmd cs p"
  shows "\<exists>ds p'. pp_Replay ops (reopen (pp_Close ops (writes ops cs p))) = Some (ds, Finished, p')
    \<and> apply_cmds ds a_empty = apply_cmds cs (pstate p)"
  using Replay_law writes_state [OF assms] by metis

end

locale durable = restartable ops reopen invar pstate okcmd
  for ops :: "'p persistence_ops" and reopen and invar and pstate and okcmd +
  assumes Resume_law: "invar p
      \<Longrightarrow> pp_Replay ops (reopen (pp_Close ops p)) = Some (cs, e, p') \<Longrightarrow> invar p' \<and> pstate p' = pstate p"
begin

lemma sessions_state:
  assumes "invar p" and "session_oks ops reopen okcmd css p"
  shows "\<exists>p'. sessions ops reopen css p = Some p' \<and> invar p' \<and> pstate p' = apply_cmds (concat css) (pstate p)"
  using assms
proof (induction css arbitrary: p)
  case Nil
  then show ?case by simp
next
  case (Cons cs css)
  then have ok: "oks ops okcmd cs p" by simp
  obtain ds p1 where r: "pp_Replay ops (reopen (pp_Close ops (writes ops cs p))) = Some (ds, Finished, p1)"
    using restart_after_writes [OF Cons.prems(1) ok] by blast
  then have "invar p1 \<and> pstate p1 = apply_cmds cs (pstate p)"
    using Resume_law writes_state [OF Cons.prems(1) ok] by metis
  moreover have "session_oks ops reopen okcmd css p1" using Cons.prems(2) r by auto
  ultimately show ?case using Cons.IH [of p1] r by auto
qed

end

section \<open>The null backend\<close>

definition NullPersistence_ops :: "unit persistence_ops" where
  "NullPersistence_ops =
     \<lparr>pp_Write = \<lambda>c p. p, pp_Replay = \<lambda>p. Some ([], Finished, p), pp_Close = \<lambda>p. p\<rparr>"

section \<open>Two backends at once\<close>

text \<open>\<open>Write\<close> and \<open>Close\<close> go to both backends, \<open>Replay\<close> to the primary one only.\<close>

definition Dual_Write ::
    "'p persistence_ops \<Rightarrow> 'q persistence_ops \<Rightarrow> Command \<Rightarrow> 'p \<times> 'q \<Rightarrow> 'p \<times> 'q" where
  "Dual_Write primary secondary c d =
     (let p = pp_Write primary c (fst d); q = pp_Write secondary c (snd d) in (p, q))"

definition Dual_Replay ::
    "'p persistence_ops \<Rightarrow> 'p \<times> 'q \<Rightarrow> (Command list \<times> replay_end \<times> 'p \<times> 'q) option" where
  "Dual_Replay primary d =
     (case pp_Replay primary (fst d) of
        None \<Rightarrow> None | Some (cs, e, p) \<Rightarrow> Some (cs, e, p, snd d))"

definition Dual_Close ::
    "'p persistence_ops \<Rightarrow> 'q persistence_ops \<Rightarrow> 'p \<times> 'q \<Rightarrow> 'p \<times> 'q" where
  "Dual_Close primary secondary d =
     (let p = pp_Close primary (fst d); q = pp_Close secondary (snd d) in (p, q))"

definition Dual_ops :: "'p persistence_ops \<Rightarrow> 'q persistence_ops \<Rightarrow> ('p \<times> 'q) persistence_ops" where
  "Dual_ops primary secondary =
     \<lparr>pp_Write = Dual_Write primary secondary, pp_Replay = Dual_Replay primary,
      pp_Close = Dual_Close primary secondary\<rparr>"

text \<open>A pair of backends keeps the promise of its primary, whatever the secondary does.\<close>

lemma dual_durable:
  assumes "durable ops reopen invar pstate okcmd"
  shows "durable (Dual_ops ops ops2) (map_prod reopen reopen2) (\<lambda>d. invar (fst d))
    (\<lambda>d. pstate (fst d)) (\<lambda>c d. okcmd c (fst d))"
proof -
  note r = restartable.Write_law [OF durable.axioms(1) [OF assms]]
    restartable.Replay_law [OF durable.axioms(1) [OF assms]] durable.Resume_law [OF assms]
  show ?thesis
  proof unfold_locales
    fix d :: "'a \<times> 'b" and c
    assume "invar (fst d)" "okcmd c (fst d)"
    then show "invar (fst (pp_Write (Dual_ops ops ops2) c d))
        \<and> pstate (fst (pp_Write (Dual_ops ops ops2) c d)) = apply_cmd c (pstate (fst d))"
      using r(1) by (simp add: Dual_ops_def Dual_Write_def)
  next
    fix d :: "'a \<times> 'b"
    assume "invar (fst d)"
    from r(2) [OF this] show "\<exists>cs p'. pp_Replay (Dual_ops ops ops2)
          (map_prod reopen reopen2 (pp_Close (Dual_ops ops ops2) d)) = Some (cs, Finished, p')
        \<and> apply_cmds cs a_empty = pstate (fst d)"
      by (auto simp: Dual_ops_def Dual_Replay_def Dual_Close_def)
  next
    fix d p' :: "'a \<times> 'b" and cs e
    assume "invar (fst d)"
      and "pp_Replay (Dual_ops ops ops2) (map_prod reopen reopen2 (pp_Close (Dual_ops ops ops2) d))
        = Some (cs, e, p')"
    then show "invar (fst p') \<and> pstate (fst p') = pstate (fst d)"
      using r(3) [of "fst d" cs e "fst p'"]
      by (auto simp: Dual_ops_def Dual_Replay_def Dual_Close_def split: option.splits)
  qed
qed

section \<open>Files\<close>

text \<open>An open file: its bytes and the offset of the descriptor.\<close>

record ofile =
  f_data :: string
  f_pos :: nat

definition f_write :: "string \<Rightarrow> ofile \<Rightarrow> ofile" where
  "f_write bs f = \<lparr>f_data = take (f_pos f) (f_data f) @ replicate (f_pos f - length (f_data f)) (CHR 0x00)
       @ bs @ drop (f_pos f + length bs) (f_data f), f_pos = f_pos f + length bs\<rparr>"

definition f_open :: "string \<Rightarrow> ofile" where
  "f_open d = \<lparr>f_data = d, f_pos = 0\<rparr>"

definition f_end :: "ofile \<Rightarrow> ofile" where
  "f_end f = f\<lparr>f_pos := length (f_data f)\<rparr>"

definition at_end :: "ofile \<Rightarrow> bool" where
  "at_end f \<longleftrightarrow> f_pos f = length (f_data f)"

lemma f_write_end: "at_end f \<Longrightarrow> f_write bs f = \<lparr>f_data = f_data f @ bs, f_pos = length (f_data f @ bs)\<rparr>"
  by (simp add: f_write_def at_end_def)

lemma f_end_simps [simp]: "f_data (f_end f) = f_data f" "at_end (f_end f)" "f_data (f_open d) = d"
  by (simp_all add: f_end_def at_end_def f_open_def)

end
