(* ===== verification/Aof.thy ===== *)
theory Aof
  imports Resp Persist_Spec
begin

text \<open>
  The append-only file (\<open>persistence/aof.go\<close>): every command is appended as a RESP array, and \<open>Replay\<close>
  reads the arrays back through the protocol reader. The file is one chunk of a reader's source. The
  goroutine that calls \<open>Sync\<close> changes nothing that a reader of the file can see.
\<close>

section \<open>The operations\<close>

definition AOF_value :: "Command \<Rightarrow> Value" where
  "AOF_value c = array_value (bulk_value (cmd_Name c) # map bulk_value (cmd_Args c))"

definition NewAOF :: "string \<Rightarrow> ofile" where
  "NewAOF disk = f_open disk"

definition AOF_Write :: "Command \<Rightarrow> ofile \<Rightarrow> ofile" where
  "AOF_Write c f = f_write (Marshal (AOF_value c)) f"

text \<open>\<open>Read\<close> takes at least a byte when it returns a value, so the loop of \<open>Replay\<close> ends.\<close>

lemma Read_Done_less:
  assumes "Read r = Done v r'"
  shows "length (remaining r') < length (remaining r)"
proof (cases "bufio_ReadByte r")
  case None
  then show ?thesis using assms by (simp add: Read_def)
next
  case (Some br)
  obtain b r1 where br: "br = (b, r1)" by (cases br)
  have rem: "remaining r = b # remaining r1" using ReadByte_remaining Some br by simp
  have "steps (readArray (Read_depth (length (remaining r))) r1) r1"
    using rem by (intro readArray_steps Read_depth_steps) (auto dest: moves_length)
  then have "steps (Read r) r1"
    using Some br readBulk_steps [of r1] read_leaf_steps [of r1] by (auto simp: Read_def)
  then show ?thesis using assms rem moves_length [of r1 r'] by simp
qed

definition cmd_of_value :: "(string \<Rightarrow> string) \<Rightarrow> Value \<Rightarrow> Command" where
  "cmd_of_value up v = mk_cmd (ToUpper up (Bulk (hd (Array v)))) (map Bulk (tl (Array v)))"

text \<open>\<open>Deep\<close> never comes out of \<open>Read\<close>.\<close>

function aof_loop :: "(string \<Rightarrow> string) \<Rightarrow> breader \<Rightarrow> Command list \<times> replay_end \<times> breader" where
  "aof_loop up r =
     (case Read r of
        Fail EOF r' \<Rightarrow> ([], Finished, r')
      | Fail BadInt r' \<Rightarrow> ([], Failed, r')
      | Done v r' \<Rightarrow>
          let (cs, e, r'') = aof_loop up r'
          in (if Type v \<noteq> ''array'' \<or> length (Array v) = 0 then cs else cmd_of_value up v # cs, e, r'')
      | _ \<Rightarrow> ([], Crashed, r))"
  by pat_completeness auto

termination
  by (relation "measure (\<lambda>(up, r). length (remaining r))") (auto dest: Read_Done_less)

declare aof_loop.simps [simp del]

text \<open>
  At the end of the file \<open>Replay\<close> moves to its end; when it stops early the descriptor stays where
  the buffer has read up to.
\<close>

definition AOF_Replay :: "(string \<Rightarrow> string) \<Rightarrow> ofile \<Rightarrow> (Command list \<times> replay_end \<times> ofile) option" where
  "AOF_Replay up f =
     (let (cs, e, r) = aof_loop up (NewResp [f_data f])
      in Some (cs, e, if e = Finished then f_end f
           else f\<lparr>f_pos := length (f_data f) - length (concat (br_src r))\<rparr>))"

definition AOF_ops :: "(string \<Rightarrow> string) \<Rightarrow> ofile persistence_ops" where
  "AOF_ops up = \<lparr>pp_Write = AOF_Write, pp_Replay = AOF_Replay up, pp_Close = \<lambda>f. f\<rparr>"

section \<open>Replaying what was written\<close>

abbreviation aof_bytes :: "Command \<Rightarrow> string" where
  "aof_bytes c \<equiv> Marshal (AOF_value c)"

lemma length_bulk: "length b < length (Marshal (bulk_value b))"
  by (simp add: bulk_value_def marshalBulk_def CRLF_def)

lemma length_aof_bytes:
  "length (cmd_Args c) + 1 < length (aof_bytes c)"
  "b \<in> set (cmd_Name c # cmd_Args c) \<Longrightarrow> length b < length (aof_bytes c)"
proof -
  have "length bs \<le> length (concat (map (Marshal \<circ> bulk_value) bs))" for bs
  proof (induction bs)
    case (Cons b bs)
    then show ?case using length_bulk [of b] by simp
  qed simp
  from this [of "cmd_Name c # cmd_Args c"] show "length (cmd_Args c) + 1 < length (aof_bytes c)"
    by (simp add: AOF_value_def array_value_def)
  have "b \<in> set bs \<Longrightarrow> length b \<le> length (concat (map (Marshal \<circ> bulk_value) bs))" for bs
    using length_bulk [of b] by (induction bs) auto
  from this [of "cmd_Name c # cmd_Args c"]
  show "b \<in> set (cmd_Name c # cmd_Args c) \<Longrightarrow> length b < length (aof_bytes c)"
    by (auto simp: AOF_value_def array_value_def)
qed

lemma wf_AOF_value:
  assumes "length (aof_bytes c) \<le> bufsize"
  shows "wf_value (AOF_value c)"
proof -
  have "int (length b) \<le> maxAlloc" if "b \<in> set (cmd_Name c # cmd_Args c)" for b
    using length_aof_bytes(2) [OF that] assms by simp
  moreover have "int (Suc (length (cmd_Args c))) \<le> max_int64"
    using length_aof_bytes(1) [of c] assms by (simp add: int64_defs)
  ultimately show ?thesis
    by (simp add: AOF_value_def array_value_def bulk_value_def list_all_iff)
qed

lemma cmd_of_AOF_value: "write_cmd c \<Longrightarrow> cmd_of_value up (AOF_value c) = c"
  by (simp add: cmd_of_value_def AOF_value_def array_value_def bulk_value_def ToUpper_write_cmd
      mk_cmd_def comp_def)

lemma aof_loop_end: "aof_loop up (rd_at [] []) = ([], Finished, rd_at [] [])"
  by (subst aof_loop.simps) (simp add: Read_def bufio_ReadByte_def)

lemma aof_loop_written:
  assumes "\<forall>c \<in> set cs. write_cmd c \<and> length (aof_bytes c) \<le> bufsize"
  shows "aof_loop up (rd_at (concat (map aof_bytes cs)) []) = (cs, Finished, rd_at [] [])"
  using assms
proof (induction cs)
  case Nil
  then show ?case by (simp add: aof_loop_end)
next
  case (Cons c cs)
  have "Read (rd_at (aof_bytes c @ concat (map aof_bytes cs)) [])
      = Done (AOF_value c) (rd_at (concat (map aof_bytes cs)) [])"
    using Cons.prems by (intro Read_Marshal wf_AOF_value) simp
  moreover have "Type (AOF_value c) = ''array''" "Array (AOF_value c) \<noteq> []"
    by (simp_all add: AOF_value_def array_value_def)
  ultimately show ?case
    using Cons by (subst aof_loop.simps) (simp add: cmd_of_AOF_value)
qed

lemma aof_loop_file:
  assumes "\<forall>c \<in> set cs. write_cmd c" and "length (concat (map aof_bytes cs)) \<le> bufsize"
  shows "\<exists>r. aof_loop up (NewResp [concat (map aof_bytes cs)]) = (cs, Finished, r)"
proof -
  have small: "length (aof_bytes c) \<le> bufsize" if "c \<in> set cs" for c
  proof -
    have "length (aof_bytes c) \<le> length (concat (map aof_bytes cs))"
      using that by (induction cs) auto
    then show ?thesis using assms(2) by simp
  qed
  show ?thesis
  proof (cases cs)
    case Nil
    then show ?thesis
      by (subst aof_loop.simps) (simp add: Read_def bufio_ReadByte_def NewResp_def)
  next
    case (Cons c cs')
    have "concat (map aof_bytes cs) \<noteq> []" using Cons by (simp add: AOF_value_def array_value_def)
    then have "Read (NewResp [concat (map aof_bytes cs)]) = Read (rd_at (concat (map aof_bytes cs)) [])"
      using assms(2) by (rule Read_first_chunk)
    moreover have "Read (rd_at (concat (map aof_bytes cs)) [])
        = Done (AOF_value c) (rd_at (concat (map aof_bytes cs')) [])"
      using Read_Marshal [OF wf_AOF_value [OF small [of c]]] Cons by simp
    ultimately have "aof_loop up (NewResp [concat (map aof_bytes cs)])
        = aof_loop up (rd_at (concat (map aof_bytes cs)) [])"
      by (simp add: aof_loop.simps [of _ "NewResp _"] aof_loop.simps [of _ "rd_at (concat _) []"])
    then show ?thesis using aof_loop_written [of cs up] assms(1) small by auto
  qed
qed

section \<open>As a backend\<close>

definition aof_cmds :: "(string \<Rightarrow> string) \<Rightarrow> ofile \<Rightarrow> Command list" where
  "aof_cmds up f = fst (aof_loop up (NewResp [f_data f]))"

definition AOF_inv :: "ofile \<Rightarrow> bool" where
  "AOF_inv f \<longleftrightarrow> at_end f \<and> length (f_data f) \<le> bufsize
     \<and> (\<exists>cs. f_data f = concat (map aof_bytes cs) \<and> (\<forall>c \<in> set cs. write_cmd c))"

definition AOF_ok :: "Command \<Rightarrow> ofile \<Rightarrow> bool" where
  "AOF_ok c f \<longleftrightarrow> write_cmd c \<and> length (f_data f) + length (aof_bytes c) \<le> bufsize"

lemma aof_cmds_eq:
  assumes "\<forall>c \<in> set cs. write_cmd c" and "length (f_data f) \<le> bufsize"
    and "f_data f = concat (map aof_bytes cs)"
  shows "aof_cmds up f = cs" "AOF_Replay up f = Some (cs, Finished, f_end f)"
  using aof_loop_file [of cs up] assms by (auto simp: aof_cmds_def AOF_Replay_def)

lemma AOF_Write_effect:
  assumes "AOF_inv f" and "AOF_ok c f"
  shows "AOF_inv (AOF_Write c f)" and "aof_cmds up (AOF_Write c f) = aof_cmds up f @ [c]"
proof -
  obtain cs where cs: "f_data f = concat (map aof_bytes cs)" "\<forall>c \<in> set cs. write_cmd c"
    using assms(1) by (auto simp: AOF_inv_def)
  have w: "f_data (AOF_Write c f) = concat (map aof_bytes (cs @ [c]))" "at_end (AOF_Write c f)"
    using assms(1) cs(1) by (simp_all add: AOF_Write_def f_write_end AOF_inv_def at_end_def)
  have ok: "\<forall>c \<in> set (cs @ [c]). write_cmd c" "length (f_data (AOF_Write c f)) \<le> bufsize"
    using assms cs w(1) by (auto simp: AOF_ok_def)
  show "AOF_inv (AOF_Write c f)" unfolding AOF_inv_def using w ok by blast
  show "aof_cmds up (AOF_Write c f) = aof_cmds up f @ [c]"
    using aof_cmds_eq(1) [OF ok w(1)] aof_cmds_eq(1) [OF cs(2) _ cs(1)] assms(1)
    by (simp add: AOF_inv_def)
qed

interpretation aof: durable "AOF_ops up" "\<lambda>f. NewAOF (f_data f)" AOF_inv
    "\<lambda>f. apply_cmds (aof_cmds up f) a_empty" AOF_ok for up
proof unfold_locales
  fix f c
  assume "AOF_inv f" "AOF_ok c f"
  then show "AOF_inv (pp_Write (AOF_ops up) c f) \<and> apply_cmds (aof_cmds up (pp_Write (AOF_ops up) c f)) a_empty
      = apply_cmd c (apply_cmds (aof_cmds up f) a_empty)"
    using AOF_Write_effect by (simp add: AOF_ops_def)
next
  fix f
  assume "AOF_inv f"
  then obtain cs where cs: "f_data f = concat (map aof_bytes cs)" "\<forall>c \<in> set cs. write_cmd c"
    "length (f_data f) \<le> bufsize" by (auto simp: AOF_inv_def)
  show "\<exists>cs p'. pp_Replay (AOF_ops up) (NewAOF (f_data (pp_Close (AOF_ops up) f))) = Some (cs, Finished, p')
      \<and> apply_cmds cs a_empty = apply_cmds (aof_cmds up f) a_empty"
    using aof_cmds_eq [OF cs(2), of f] aof_cmds_eq(2) [OF cs(2), of "NewAOF (f_data f)"] cs
    by (simp add: AOF_ops_def NewAOF_def)
next
  fix f cs e f'
  assume f: "AOF_inv f"
    and r: "pp_Replay (AOF_ops up) (NewAOF (f_data (pp_Close (AOF_ops up) f))) = Some (cs, e, f')"
  obtain ds where ds: "f_data f = concat (map aof_bytes ds)" "\<forall>c \<in> set ds. write_cmd c"
    "length (f_data f) \<le> bufsize" using f by (auto simp: AOF_inv_def)
  have "f' = f_end (NewAOF (f_data f))"
    using r aof_cmds_eq(2) [OF ds(2), of "NewAOF (f_data f)"] ds by (auto simp: AOF_ops_def NewAOF_def)
  then show "AOF_inv f' \<and> apply_cmds (aof_cmds up f') a_empty = apply_cmds (aof_cmds up f) a_empty"
    using ds by (auto simp: AOF_inv_def NewAOF_def aof_cmds_def)
qed

lemma AOF_new: "AOF_inv (NewAOF [])" "aof_cmds up (NewAOF []) = []"
  using aof_cmds_eq(1) [of "[]" "NewAOF []"]
  by (auto simp: AOF_inv_def NewAOF_def at_end_def f_open_def intro: exI [of _ "[]"])

section \<open>Properties\<close>

text \<open>
  C27: over any number of sessions, each closed and followed by a restart that replays the file, the
  commands replayed in the end rebuild what all the sessions have written, as long as the file fits
  the reader's buffer of 4096 bytes.
\<close>

theorem aof_sessions_recover:
  assumes "session_oks (AOF_ops up) (\<lambda>f. NewAOF (f_data f)) AOF_ok css (NewAOF [])"
  shows "\<exists>f cs f'. sessions (AOF_ops up) (\<lambda>f. NewAOF (f_data f)) css (NewAOF []) = Some f
    \<and> AOF_Replay up (NewAOF (f_data f)) = Some (cs, Finished, f')
    \<and> apply_cmds cs a_empty = apply_cmds (concat css) a_empty"
proof -
  note new = AOF_new
  obtain f where f: "sessions (AOF_ops up) (\<lambda>f. NewAOF (f_data f)) css (NewAOF []) = Some f"
    "AOF_inv f" "apply_cmds (aof_cmds up f) a_empty = apply_cmds (concat css) a_empty"
    using aof.sessions_state [OF new(1) assms] new(2) by auto
  obtain cs f' where "pp_Replay (AOF_ops up) (NewAOF (f_data (pp_Close (AOF_ops up) f)))
      = Some (cs, Finished, f')" "apply_cmds cs a_empty = apply_cmds (aof_cmds up f) a_empty"
    using aof.Replay_law [OF f(2), of up] by blast
  then show ?thesis using f(1,3) by (auto simp: AOF_ops_def)
qed

definition set_cmd :: "string \<Rightarrow> string \<Rightarrow> Command" where
  "set_cmd k v = mk_cmd ''SET'' [k, v]"

theorem aof_sessions_recover_witness:
  "\<exists>f cs f'. sessions (AOF_ops id) (\<lambda>f. NewAOF (f_data f)) [[set_cmd ''a'' ''1''], []] (NewAOF []) = Some f
    \<and> AOF_Replay id (NewAOF (f_data f)) = Some (cs, Finished, f')
    \<and> apply_cmds cs a_empty = apply_cmds (concat [[set_cmd ''a'' ''1''], []]) a_empty"
proof (rule aof_sessions_recover)
  have "length (aof_bytes (set_cmd ''a'' ''1'')) \<le> 4096" by code_simp
  then show "session_oks (AOF_ops id) (\<lambda>f. NewAOF (f_data f)) AOF_ok [[set_cmd ''a'' ''1''], []] (NewAOF [])"
    by (simp add: AOF_ok_def write_cmd_def set_cmd_def NewAOF_def split: option.splits)
qed

text \<open>The record of a \<open>SET\<close>: its header, the value, the end of the line.\<close>

definition aof_head :: "string \<Rightarrow> nat \<Rightarrow> string" where
  "aof_head k n = ''*3'' @ CRLF @ Marshal (bulk_value ''SET'') @ Marshal (bulk_value k)
     @ CHR ''$'' # Itoa (int n) @ CRLF"

lemma aof_bytes_set: "aof_bytes (set_cmd k v) = aof_head k (length v) @ v @ CRLF"
proof -
  have "Itoa 3 = ''3''" by code_simp
  then show ?thesis
    by (simp add: AOF_value_def set_cmd_def array_value_def aof_head_def bulk_value_def marshalBulk_def)
qed

lemma readBulk_cut:
  assumes "p \<noteq> []" and "length p \<le> n" and "int n \<le> maxAlloc"
  shows "\<exists>r. readBulk (rd_at (Itoa (int n) @ CRLF @ p) src)
    = Done (bulk_value (p @ replicate (n - length p) (CHR 0x00))) r"
proof -
  have "is_int64 (int n)" using assms(3) by (simp add: int64_defs)
  then have "readInteger (rd_at (Itoa (int n) @ CRLF @ p) src) = Done (int n) (rd_at p src)"
    by (rule readInteger_buffered)
  moreover have "bufio_Read n (rd_at p src) = (p, rd_at [] src)"
    using assms(1,2) by (cases p) (simp_all add: bufio_Read_def)
  ultimately show ?thesis using assms(3) by (simp add: readBulk_def)
qed

lemma Read_cut_set:
  assumes "p \<noteq> []" and "length p \<le> n" and "int n \<le> maxAlloc" and "length (aof_head k n) < bufsize"
  shows "\<exists>r. Read (rd_at (aof_head k n @ p) src)
    = Done (array_value [bulk_value ''SET'', bulk_value k,
        bulk_value (p @ replicate (n - length p) (CHR 0x00))]) r"
proof -
  define tail where "tail = CHR ''$'' # Itoa (int n) @ CRLF @ p"
  define kt where "kt = Marshal (bulk_value k) @ tail"
  define d where "d = length (remaining (rd_at (aof_head k n @ p) src))"
  have "Itoa 3 = ''3''" by code_simp
  then have head: "aof_head k n @ p = CHR ''*'' # Itoa 3 @ CRLF @ Marshal (bulk_value ''SET'') @ kt"
    by (simp add: aof_head_def kt_def tail_def)
  have len: "length (Marshal (bulk_value ''SET'')) < d" "length (Marshal (bulk_value k)) < d" "0 < d"
    by (simp_all add: d_def remaining_def aof_head_def CRLF_def)
  have "length k \<le> bufsize" using assms(4) length_bulk [of k] by (simp add: aof_head_def)
  then have wf: "wf_value (bulk_value ''SET'')" "wf_value (bulk_value k)" by (simp_all add: bulk_value_def)
  have "Read_depth d (rd_at (Marshal (bulk_value ''SET'') @ kt) src) = Done (bulk_value ''SET'') (rd_at kt src)"
    "Read_depth d (rd_at kt src) = Done (bulk_value k) (rd_at tail src)"
    using Read_depth_Marshal [OF wf(1) len(1)] Read_depth_Marshal [OF wf(2) len(2)] by (simp_all add: kt_def)
  moreover obtain r where "readBulk (rd_at (Itoa (int n) @ CRLF @ p) src)
      = Done (bulk_value (p @ replicate (n - length p) (CHR 0x00))) r"
    using readBulk_cut [OF assms(1-3)] by blast
  then have "Read_depth d (rd_at tail src) = Done (bulk_value (p @ replicate (n - length p) (CHR 0x00))) r"
    using len(3) by (cases d) (simp_all add: tail_def)
  moreover have "readInteger (rd_at (Itoa 3 @ CRLF @ Marshal (bulk_value ''SET'') @ kt) src)
      = Done 3 (rd_at (Marshal (bulk_value ''SET'') @ kt) src)"
    by (rule readInteger_buffered) (simp add: int64_defs)
  ultimately have "readArray (Read_depth d) (rd_at (Itoa 3 @ CRLF @ Marshal (bulk_value ''SET'') @ kt) src)
      = Done (array_value [bulk_value ''SET'', bulk_value k,
          bulk_value (p @ replicate (n - length p) (CHR 0x00))]) r"
    by (simp add: readArray_def numeral_3_eq_3)
  then have "Read_depth (Suc d) (rd_at (aof_head k n @ p) src)
      = Done (array_value [bulk_value ''SET'', bulk_value k,
          bulk_value (p @ replicate (n - length p) (CHR 0x00))]) r"
    by (simp add: head)
  then show ?thesis unfolding Read_def d_def by blast
qed

text \<open>
  a value that does not fit the buffer is corrupted by the next restart: what comes back for a
  value that starts before the buffer's end and runs over it is its beginning, up to the end of the
  buffer, followed by zero bytes. The header of the record takes the first bytes of the buffer.
\<close>

theorem aof_large_value_corrupted:
  assumes "length (aof_head k (length v)) < 4096"
    and "4096 < length (aof_head k (length v)) + length v" and "int (length v) \<le> maxAlloc"
  shows "\<exists>cs e f'. AOF_Replay up (NewAOF (f_data (AOF_Write (set_cmd k v) (NewAOF []))))
    = Some (set_cmd k (take (4096 - length (aof_head k (length v))) v
        @ replicate (length v - (4096 - length (aof_head k (length v)))) (CHR 0x00)) # cs, e, f')"
proof -
  define n where "n = length v"
  define m where "m = bufsize - length (aof_head k n)"
  define x where "x = aof_head k n @ v @ CRLF"
  have len: "length (aof_head k n) < bufsize" "bufsize < length (aof_head k n) + n" "int n \<le> maxAlloc"
    using assms by (simp_all add: n_def)
  have m: "0 < m" "m < n" using len by (auto simp: m_def)
  have disk: "f_data (AOF_Write (set_cmd k v) (NewAOF [])) = x"
    by (simp add: AOF_Write_def aof_bytes_set x_def n_def NewAOF_def f_open_def f_write_def)
  have "take bufsize x = aof_head k n @ take m v" "bufsize < length x"
    using len m by (simp_all add: x_def m_def n_def)
  then have "Read (NewResp [x]) = Read (rd_at (aof_head k n @ take m v) [drop bufsize x])"
    using Read_long_chunk [of x "[]"] by simp
  moreover have "take m v \<noteq> []" "length (take m v) = m" using m by (auto simp: n_def)
  ultimately obtain r where "Read (NewResp [x]) = Done (array_value [bulk_value ''SET'', bulk_value k,
      bulk_value (take m v @ replicate (n - m) (CHR 0x00))]) r"
    using Read_cut_set [of "take m v" n k "[drop bufsize x]"] m len by auto
  moreover have "ToUpper up ''SET'' = ''SET''"
    using ToUpper_write_cmd [of "mk_cmd ''SET'' []"] by (simp add: write_cmd_def)
  ultimately have "\<exists>cs e r'. aof_loop up (NewResp [x])
      = (set_cmd k (take m v @ replicate (n - m) (CHR 0x00)) # cs, e, r')"
    by (subst aof_loop.simps) (auto simp: array_value_def bulk_value_def cmd_of_value_def set_cmd_def
        split: prod.splits)
  then show ?thesis unfolding disk by (auto simp: AOF_Replay_def NewAOF_def m_def n_def)
qed

theorem aof_large_value_corrupted_witness:
  "\<exists>w cs e f'. AOF_Replay id (NewAOF (f_data (AOF_Write (set_cmd ''k'' (replicate 5000 (CHR ''x''))) (NewAOF []))))
    = Some (set_cmd ''k'' w # cs, e, f') \<and> w \<noteq> replicate 5000 (CHR ''x'')"
proof -
  define v where "v = replicate 5000 (CHR ''x'')"
  define h where "h = length (aof_head ''k'' (length v))"
  define w where "w = take (4096 - h) v @ replicate (length v - (4096 - h)) (CHR 0x00)"
  have len: "length v = 5000" by (simp only: v_def length_replicate)
  have h: "h = 27" unfolding h_def len
    by (simp add: aof_head_def bulk_value_def marshalBulk_def Itoa_def dec.simps CRLF_def)
  have "\<exists>cs e f'. AOF_Replay id (NewAOF (f_data (AOF_Write (set_cmd ''k'' v) (NewAOF []))))
      = Some (set_cmd ''k'' w # cs, e, f')"
    unfolding w_def h_def
    using h len by (intro aof_large_value_corrupted) (simp_all add: h_def)
  moreover have "CHR 0x00 \<in> set w" using h len by (simp add: w_def)
  moreover have "CHR 0x00 \<notin> set v" by (simp add: v_def)
  ultimately show ?thesis unfolding v_def [symmetric] by blast
qed

end
