(* ===== verification/Wal.thy ===== *)
theory Wal
  imports Persist_Spec
begin

text \<open>
  The write-ahead log (\<open>persistence/wal.go\<close>): commands in a binary encoding, collected in a buffer
  that is written out when it holds a batch. The loop of \<open>Replay\<close> runs until no data are left; it
  makes no progress on data that \<open>unmarshalCommand\<close> rejects, so it is a partial function. The
  goroutine \<open>flushLoop\<close> is a call of \<open>Flush\<close> between two others.
\<close>

section \<open>The encoding\<close>

definition marshal_arg :: "string \<Rightarrow> string" where
  "marshal_arg a = put_uint32 (length a) @ a"

definition marshalCommand :: "Command \<Rightarrow> string" where
  "marshalCommand c = put_uint16 (length (cmd_Name c)) @ cmd_Name c
     @ put_uint16 (length (cmd_Args c)) @ concat (map marshal_arg (cmd_Args c))"

fun unmarshal_args :: "nat \<Rightarrow> string \<Rightarrow> (string list \<times> string) option" where
  "unmarshal_args 0 data = Some ([], data)"
| "unmarshal_args (Suc n) data =
     (if length data < 4 then None
      else let argLen = be_nat (take 4 data); data' = drop 4 data
           in if argLen > length data' then None
              else case unmarshal_args n (drop argLen data') of
                     None \<Rightarrow> None
                   | Some (args, rest) \<Rightarrow> Some (take argLen data' # args, rest))"

definition unmarshal_parts :: "string \<Rightarrow> (string \<times> string list \<times> string) option" where
  "unmarshal_parts data =
     (if length data < 4 then None
      else let nameLen = be_nat (take 2 data); data1 = drop 2 data
           in if nameLen > length data1 then None
              else let name = take nameLen data1; data2 = drop nameLen data1
                   in if 2 > length data2 then None
                      else case unmarshal_args (be_nat (take 2 data2)) (drop 2 data2) of
                             None \<Rightarrow> None
                           | Some (args, rest) \<Rightarrow> Some (name, args, rest))"

text \<open>What cannot be decoded gives the empty command and all of the data back.\<close>

definition unmarshalCommand :: "(string \<Rightarrow> string) \<Rightarrow> string \<Rightarrow> Command \<times> string" where
  "unmarshalCommand up data =
     (case unmarshal_parts data of
        None \<Rightarrow> (mk_cmd [] [], data)
      | Some (name, args, rest) \<Rightarrow> (mk_cmd (ToUpper up name) args, rest))"

section \<open>The log\<close>

record WAL =
  wl_file :: ofile
  wl_buf :: string

definition NewWAL :: "string \<Rightarrow> WAL" where
  "NewWAL disk = \<lparr>wl_file = f_open disk, wl_buf = []\<rparr>"

definition WAL_Flush :: "WAL \<Rightarrow> WAL" where
  "WAL_Flush w =
     (if length (wl_buf w) = 0 then w
      else w\<lparr>wl_file := f_write (wl_buf w) (wl_file w), wl_buf := []\<rparr>)"

definition WAL_Write :: "Command \<Rightarrow> WAL \<Rightarrow> WAL" where
  "WAL_Write c w =
     (let w' = w\<lparr>wl_buf := wl_buf w @ marshalCommand c\<rparr>
      in if length (wl_buf w') \<ge> 1000 then WAL_Flush w' else w')"

partial_function (option) wal_loop :: "(string \<Rightarrow> string) \<Rightarrow> string \<Rightarrow> Command list option" where
  "wal_loop up data =
     (if length data = 0 then Some []
      else Option.bind (wal_loop up (snd (unmarshalCommand up data))) (\<lambda>cs.
        let cmd = fst (unmarshalCommand up data)
        in Some (if cmd_Name cmd \<noteq> [] then cmd # cs else cs)))"

definition WAL_Replay :: "(string \<Rightarrow> string) \<Rightarrow> WAL \<Rightarrow> (Command list \<times> replay_end \<times> WAL) option" where
  "WAL_Replay up w =
     (let w' = WAL_Flush w
      in case wal_loop up (f_data (wl_file w')) of
           None \<Rightarrow> None
         | Some cs \<Rightarrow> Some (cs, Finished, w'\<lparr>wl_file := f_end (wl_file w')\<rparr>))"

definition WAL_Close :: "WAL \<Rightarrow> WAL" where
  "WAL_Close w = WAL_Flush w"

definition WAL_ops :: "(string \<Rightarrow> string) \<Rightarrow> WAL persistence_ops" where
  "WAL_ops up = \<lparr>pp_Write = WAL_Write, pp_Replay = WAL_Replay up, pp_Close = WAL_Close\<rparr>"

section \<open>Round trip\<close>

definition wal_fits :: "Command \<Rightarrow> bool" where
  "wal_fits c \<longleftrightarrow> length (cmd_Name c) < 2 ^ 16 \<and> length (cmd_Args c) < 2 ^ 16
     \<and> (\<forall>a \<in> set (cmd_Args c). length a < 2 ^ 32)"

lemma unmarshal_args_marshal:
  assumes "\<forall>a \<in> set as. length a < 2 ^ 32"
  shows "unmarshal_args (length as) (concat (map marshal_arg as) @ rest) = Some (as, rest)"
  using assms by (induction as) (simp_all add: marshal_arg_def codec_simps)

lemma unmarshal_parts_marshal:
  assumes "wal_fits c"
  shows "unmarshal_parts (marshalCommand c @ rest) = Some (cmd_Name c, cmd_Args c, rest)"
  using assms unmarshal_args_marshal [of "cmd_Args c" rest]
  by (simp add: unmarshal_parts_def marshalCommand_def codec_simps wal_fits_def)

lemma unmarshalCommand_marshal:
  assumes "wal_fits c" and "write_cmd c"
  shows "unmarshalCommand up (marshalCommand c @ rest) = (c, rest)"
  by (simp add: unmarshalCommand_def unmarshal_parts_marshal [OF assms(1)]
      ToUpper_write_cmd [OF assms(2)] mk_cmd_def)

abbreviation wal_bytes :: "Command list \<Rightarrow> string" where
  "wal_bytes cs \<equiv> concat (map marshalCommand cs)"

lemma marshalCommand_not_Nil [simp]: "marshalCommand c \<noteq> []"
  by (simp add: marshalCommand_def put_uint16_def)

lemma write_cmd_named: "write_cmd c \<Longrightarrow> cmd_Name c \<noteq> []"
  by (auto simp: write_cmd_def)

lemma wal_loop_written:
  assumes "\<forall>c \<in> set cs. write_cmd c \<and> wal_fits c"
  shows "wal_loop up (wal_bytes cs @ rest) = map_option (\<lambda>ds. cs @ ds) (wal_loop up rest)"
  using assms
proof (induction cs)
  case Nil
  then show ?case by (simp add: option.map_id0 [unfolded id_def])
next
  case (Cons c cs)
  have u: "unmarshalCommand up (marshalCommand c @ wal_bytes cs @ rest) = (c, wal_bytes cs @ rest)"
    using Cons.prems by (simp add: unmarshalCommand_marshal)
  have "wal_loop up (wal_bytes (c # cs) @ rest)
      = Option.bind (wal_loop up (wal_bytes cs @ rest)) (\<lambda>ds. Some (c # ds))"
    using Cons.prems u by (subst wal_loop.simps) (simp add: write_cmd_named)
  also have "\<dots> = map_option (\<lambda>ds. (c # cs) @ ds) (wal_loop up rest)"
    using Cons by (cases "wal_loop up rest") simp_all
  finally show ?case .
qed

lemma wal_loop_Nil [simp]: "wal_loop up [] = Some []"
  by (subst wal_loop.simps) simp

text \<open>Data that are rejected once are rejected forever.\<close>

lemma wal_loop_stuck:
  assumes "unmarshal_parts data = None" and "data \<noteq> []"
  shows "wal_loop up data = None"
proof -
  have "d \<noteq> data" if "wal_loop up d = Some cs" for d cs
  proof (rule wal_loop.raw_induct [OF _ that, of "\<lambda>_ d _. d \<noteq> data"])
    fix loop up d cs
    assume IH: "\<And>up d cs. loop up d = Some cs \<Longrightarrow> d \<noteq> data"
      and "(if length d = 0 then Some []
        else Option.bind (loop up (snd (unmarshalCommand up d))) (\<lambda>cs.
          let cmd = fst (unmarshalCommand up d)
          in Some (if cmd_Name cmd \<noteq> [] then cmd # cs else cs))) = Some cs"
    then show "d \<noteq> data"
      using assms IH [of up data] by (auto simp: unmarshalCommand_def bind_eq_Some_conv split: if_splits)
  qed
  then show ?thesis by (cases "wal_loop up data") auto
qed

text \<open>Decoding a prefix would decode the same from the whole, so a proper prefix is rejected.\<close>

lemma unmarshal_args_extend:
  "unmarshal_args n data = Some (args, rest) \<Longrightarrow> unmarshal_args n (data @ q) = Some (args, rest @ q)"
proof (induction n arbitrary: data args rest)
  case 0
  then show ?case by simp
next
  case (Suc n)
  then show ?case by (fastforce simp: Let_def split: if_splits option.splits)
qed

lemma unmarshal_parts_extend:
  assumes "unmarshal_parts data = Some (name, args, rest)"
  shows "unmarshal_parts (data @ q) = Some (name, args, rest @ q)"
proof -
  let ?n = "be_nat (take 2 data)"
  have c: "\<not> length data < 4" "\<not> ?n > length (drop 2 data)" "\<not> 2 > length (drop ?n (drop 2 data))"
    and a: "unmarshal_args (be_nat (take 2 (drop ?n (drop 2 data)))) (drop 2 (drop ?n (drop 2 data)))
      = Some (args, rest)" and n: "name = take ?n (drop 2 data)"
    using assms by (auto simp: unmarshal_parts_def Let_def split: if_splits option.splits)
  show ?thesis
    using c n unmarshal_args_extend [OF a, of q] by (simp add: unmarshal_parts_def Let_def) linarith
qed

lemma unmarshal_parts_torn:
  assumes "wal_fits c" and "j < length (marshalCommand c)"
  shows "unmarshal_parts (take j (marshalCommand c)) = None"
proof (rule ccontr)
  assume "unmarshal_parts (take j (marshalCommand c)) \<noteq> None"
  then obtain name args rest where "unmarshal_parts (take j (marshalCommand c)) = Some (name, args, rest)"
    by auto
  from unmarshal_parts_extend [OF this, of "drop j (marshalCommand c)"]
  have "unmarshal_parts (marshalCommand c @ []) = Some (name, args, rest @ drop j (marshalCommand c))"
    by simp
  then show False using unmarshal_parts_marshal [OF assms(1), of "[]"] assms(2) by simp
qed

section \<open>As a backend\<close>

definition wal_cmds :: "(string \<Rightarrow> string) \<Rightarrow> WAL \<Rightarrow> Command list" where
  "wal_cmds up w = the (wal_loop up (f_data (wl_file w) @ wl_buf w))"

definition WAL_inv :: "WAL \<Rightarrow> bool" where
  "WAL_inv w \<longleftrightarrow> at_end (wl_file w)
     \<and> (\<exists>cs. f_data (wl_file w) @ wl_buf w = wal_bytes cs \<and> (\<forall>c \<in> set cs. write_cmd c \<and> wal_fits c))"

definition WAL_ok :: "Command \<Rightarrow> WAL \<Rightarrow> bool" where
  "WAL_ok c w \<longleftrightarrow> write_cmd c \<and> wal_fits c"

lemma WAL_Flush_data:
  assumes "at_end (wl_file w)"
  shows "f_data (wl_file (WAL_Flush w)) = f_data (wl_file w) @ wl_buf w" "wl_buf (WAL_Flush w) = []"
    "at_end (wl_file (WAL_Flush w))"
  using assms f_write_end [OF assms, of "wl_buf w"] by (simp_all add: WAL_Flush_def at_end_def)

lemma WAL_Write_data:
  assumes "at_end (wl_file w)"
  shows "f_data (wl_file (WAL_Write c w)) @ wl_buf (WAL_Write c w)
      = f_data (wl_file w) @ wl_buf w @ marshalCommand c" "at_end (wl_file (WAL_Write c w))"
  using assms WAL_Flush_data [of "w\<lparr>wl_buf := wl_buf w @ marshalCommand c\<rparr>"]
  by (simp_all add: WAL_Write_def Let_def)

lemma wal_cmds_eq:
  assumes "f_data (wl_file w) @ wl_buf w = wal_bytes cs" "\<forall>c \<in> set cs. write_cmd c \<and> wal_fits c"
  shows "wal_cmds up w = cs"
  using wal_loop_written [OF assms(2), of up "[]"] assms(1) by (simp add: wal_cmds_def)

lemma WAL_Replay_inv:
  assumes "WAL_inv w"
  shows "WAL_Replay up (NewWAL (f_data (wl_file (WAL_Close w))))
    = Some (wal_cmds up w, Finished, \<lparr>wl_file = f_end (f_open (f_data (wl_file w) @ wl_buf w)), wl_buf = []\<rparr>)"
proof -
  obtain cs where cs: "f_data (wl_file w) @ wl_buf w = wal_bytes cs"
    "\<forall>c \<in> set cs. write_cmd c \<and> wal_fits c" and e: "at_end (wl_file w)"
    using assms by (auto simp: WAL_inv_def)
  have "f_data (wl_file (WAL_Close w)) = wal_bytes cs"
    using WAL_Flush_data(1) [OF e] cs(1) by (simp add: WAL_Close_def)
  then show ?thesis
    using wal_loop_written [OF cs(2), of up "[]"] cs wal_cmds_eq [OF cs, of up]
    by (simp add: WAL_Replay_def NewWAL_def WAL_Flush_def)
qed

interpretation wal: durable "WAL_ops up" "\<lambda>w. NewWAL (f_data (wl_file w))" WAL_inv
    "\<lambda>w. apply_cmds (wal_cmds up w) a_empty" WAL_ok for up
proof unfold_locales
  fix w c
  assume w: "WAL_inv w" and c: "WAL_ok c w"
  then obtain cs where cs: "f_data (wl_file w) @ wl_buf w = wal_bytes cs"
    "\<forall>c \<in> set cs. write_cmd c \<and> wal_fits c" and e: "at_end (wl_file w)"
    by (auto simp: WAL_inv_def)
  have cs': "f_data (wl_file (WAL_Write c w)) @ wl_buf (WAL_Write c w) = wal_bytes (cs @ [c])"
    "\<forall>d \<in> set (cs @ [c]). write_cmd d \<and> wal_fits d"
    using WAL_Write_data(1) [OF e] cs c by (simp_all add: WAL_ok_def flip: append_assoc)
  have "WAL_inv (WAL_Write c w)" unfolding WAL_inv_def using WAL_Write_data(2) [OF e] cs' by blast
  then show "WAL_inv (pp_Write (WAL_ops up) c w) \<and> apply_cmds (wal_cmds up (pp_Write (WAL_ops up) c w)) a_empty
      = apply_cmd c (apply_cmds (wal_cmds up w) a_empty)"
    using wal_cmds_eq [OF cs] wal_cmds_eq [OF cs'] by (simp add: WAL_ops_def)
next
  fix w
  assume "WAL_inv w"
  from WAL_Replay_inv [OF this] show "\<exists>cs p'. pp_Replay (WAL_ops up)
      (NewWAL (f_data (wl_file (pp_Close (WAL_ops up) w)))) = Some (cs, Finished, p')
      \<and> apply_cmds cs a_empty = apply_cmds (wal_cmds up w) a_empty"
    by (simp add: WAL_ops_def)
next
  fix w cs e w'
  assume w: "WAL_inv w"
    and "pp_Replay (WAL_ops up) (NewWAL (f_data (wl_file (pp_Close (WAL_ops up) w)))) = Some (cs, e, w')"
  then have "w' = \<lparr>wl_file = f_end (f_open (f_data (wl_file w) @ wl_buf w)), wl_buf = []\<rparr>"
    using WAL_Replay_inv [OF w, of up] by (simp add: WAL_ops_def)
  then show "WAL_inv w' \<and> apply_cmds (wal_cmds up w') a_empty = apply_cmds (wal_cmds up w) a_empty"
    using w by (auto simp: WAL_inv_def wal_cmds_def)
qed

section \<open>Properties\<close>

text \<open>
  C28: over any number of sessions of commands that fit the encoding's length fields, each closed and
  followed by a restart, replaying the log returns and rebuilds what all the sessions have written.
\<close>

theorem wal_sessions_recover:
  assumes "session_oks (WAL_ops up) (\<lambda>w. NewWAL (f_data (wl_file w))) WAL_ok css (NewWAL [])"
  shows "\<exists>w cs w'. sessions (WAL_ops up) (\<lambda>w. NewWAL (f_data (wl_file w))) css (NewWAL []) = Some w
    \<and> WAL_Replay up (NewWAL (f_data (wl_file (WAL_Close w)))) = Some (cs, Finished, w')
    \<and> apply_cmds cs a_empty = apply_cmds (concat css) a_empty"
proof -
  have new: "WAL_inv (NewWAL [])" "wal_cmds up (NewWAL []) = []"
    using wal_cmds_eq [of "NewWAL []" "[]"]
    by (auto simp: WAL_inv_def NewWAL_def at_end_def f_open_def intro: exI [of _ "[]"])
  obtain w where "sessions (WAL_ops up) (\<lambda>w. NewWAL (f_data (wl_file w))) css (NewWAL []) = Some w"
    "WAL_inv w" "apply_cmds (wal_cmds up w) a_empty = apply_cmds (concat css) a_empty"
    using wal.sessions_state [OF new(1) assms] new(2) by auto
  then show ?thesis using WAL_Replay_inv [of w up] by auto
qed

theorem wal_sessions_recover_witness:
  "\<exists>w cs w'. sessions (WAL_ops id) (\<lambda>w. NewWAL (f_data (wl_file w))) [[mk_cmd ''SET'' [''a'', ''1'']], []] (NewWAL []) = Some w
    \<and> WAL_Replay id (NewWAL (f_data (wl_file (WAL_Close w)))) = Some (cs, Finished, w')
    \<and> apply_cmds cs a_empty = apply_cmds (concat [[mk_cmd ''SET'' [''a'', ''1'']], []]) a_empty"
  by (rule wal_sessions_recover)
    (simp add: WAL_ok_def write_cmd_def wal_fits_def split: option.splits)

text \<open>
  C38: a log whose last record was cut by a crash makes \<open>Replay\<close> loop forever: the server never comes
  up again with that file.
\<close>

theorem wal_torn_tail_hangs:
  assumes "\<forall>c \<in> set cs. write_cmd c \<and> wal_fits c" and "wal_fits c"
    and "0 < j" and "j < length (marshalCommand c)"
  shows "WAL_Replay up (NewWAL (wal_bytes cs @ take j (marshalCommand c))) = None"
proof -
  have "wal_loop up (take j (marshalCommand c)) = None"
    using assms(3) by (intro wal_loop_stuck unmarshal_parts_torn [OF assms(2,4)]) simp
  then show ?thesis
    by (simp add: WAL_Replay_def NewWAL_def WAL_Flush_def wal_loop_written [OF assms(1)])
qed

theorem wal_torn_tail_hangs_witness:
  "WAL_Replay id (NewWAL (wal_bytes [mk_cmd ''SET'' [''a'', ''1'']]
     @ take 3 (marshalCommand (mk_cmd ''SET'' [''b'', ''2''])))) = None"
  by (rule wal_torn_tail_hangs)
    (simp_all add: write_cmd_def wal_fits_def marshalCommand_def)

end
