(* ===== verification/Rdb.thy ===== *)
theory Rdb
  imports Persist_Spec
begin

text \<open>
  Snapshots (\<open>persistence/rdb.go\<close>): the backend keeps its own copy of what was written and dumps it
  to a file from time to time. The loops over the maps take the orders \<open>ord\<close> and \<open>hord\<close>. A tick of
  \<open>snapshotLoop\<close> is a call of \<open>Snapshot\<close>; so is what \<open>Close\<close> makes the loop do, if the process lives
  to see it.
\<close>

section \<open>State and writing\<close>

record RDB =
  rd_disk :: "string option"
  rd_strings :: smap
  rd_hashes :: hmap

definition rdbMagic :: string where "rdbMagic = ''FLXCRDB''"
definition rdbVersion :: nat where "rdbVersion = 1"

definition NewRDB :: "string option \<Rightarrow> RDB" where
  "NewRDB disk = \<lparr>rd_disk = disk, rd_strings = Map.empty, rd_hashes = Map.empty\<rparr>"

definition RDB_Write :: "Command \<Rightarrow> RDB \<Rightarrow> RDB" where
  "RDB_Write c r =
     (if cmd_Name c = ''SET'' then
        (case cmd_Args c of
           k # v # _ \<Rightarrow> r\<lparr>rd_strings := (rd_strings r)(k \<mapsto> v)\<rparr> | _ \<Rightarrow> r)
      else if cmd_Name c = ''HSET'' then
        (case cmd_Args c of
           h # k # v # _ \<Rightarrow> r\<lparr>rd_hashes := hashes_set h k v (rd_hashes r)\<rparr> | _ \<Rightarrow> r)
      else r)"

definition writeString :: "string \<Rightarrow> string" where
  "writeString s = put_uint32 (length s) @ s"

fun pairs_bytes :: "smap \<Rightarrow> string list \<Rightarrow> string" where
  "pairs_bytes m [] = []"
| "pairs_bytes m (k # ks) =
     (case m k of None \<Rightarrow> pairs_bytes m ks
      | Some v \<Rightarrow> writeString k @ writeString v @ pairs_bytes m ks)"

fun hashes_bytes :: "(smap \<Rightarrow> string list) \<Rightarrow> hmap \<Rightarrow> string list \<Rightarrow> string" where
  "hashes_bytes ord m [] = []"
| "hashes_bytes ord m (h # hs) =
     (case m h of None \<Rightarrow> hashes_bytes ord m hs
      | Some inner \<Rightarrow> writeString h @ put_uint32 (card (dom inner))
          @ pairs_bytes inner (ord inner) @ hashes_bytes ord m hs)"

definition writeSnapshot :: "(smap \<Rightarrow> string list) \<Rightarrow> (hmap \<Rightarrow> string list) \<Rightarrow> RDB \<Rightarrow> RDB" where
  "writeSnapshot ord hord r = r\<lparr>rd_disk := Some (rdbMagic @ put_uint32 rdbVersion
     @ put_uint32 (card (dom (rd_strings r))) @ pairs_bytes (rd_strings r) (ord (rd_strings r))
     @ put_uint32 (card (dom (rd_hashes r))) @ hashes_bytes ord (rd_hashes r) (hord (rd_hashes r)))\<rparr>"

definition Snapshot :: "(smap \<Rightarrow> string list) \<Rightarrow> (hmap \<Rightarrow> string list) \<Rightarrow> RDB \<Rightarrow> RDB" where
  "Snapshot ord hord r = writeSnapshot ord hord r"

section \<open>Reading\<close>

text \<open>
  \<open>f.Read(buf)\<close> into \<open>n > 0\<close> zero bytes: \<open>io.EOF\<close> at the end of the file, else as many bytes as there
  are; the callers look at the error only.
\<close>

definition f_Read :: "nat \<Rightarrow> string \<Rightarrow> (string \<times> string) option" where
  "f_Read n data = (if data = [] then None
     else Some (take n data @ replicate (n - length data) (CHR 0x00), drop n data))"

definition readString :: "string \<Rightarrow> string \<times> string" where
  "readString data =
     (case f_Read 4 data of
        None \<Rightarrow> ([], data)
      | Some (lenBuf, d) \<Rightarrow>
          let strLen = be_nat lenBuf
          in if strLen = 0 then ([], d)
             else case f_Read strLen d of None \<Rightarrow> ([], d) | Some (buf, d') \<Rightarrow> (buf, d'))"

fun replay_strings :: "nat \<Rightarrow> string \<Rightarrow> Command list \<times> string" where
  "replay_strings 0 data = ([], data)"
| "replay_strings (Suc n) data =
     (let (k, d1) = readString data; (v, d2) = readString d1; (cs, d3) = replay_strings n d2
      in (if k = [] \<and> v = [] then cs else mk_cmd ''SET'' [k, v] # cs, d3))"

fun replay_fields :: "string \<Rightarrow> nat \<Rightarrow> string \<Rightarrow> Command list \<times> string" where
  "replay_fields hk 0 data = ([], data)"
| "replay_fields hk (Suc n) data =
     (let (fk, d1) = readString data; (fv, d2) = readString d1; (cs, d3) = replay_fields hk n d2
      in (mk_cmd ''HSET'' [hk, fk, fv] # cs, d3))"

fun replay_hashes :: "nat \<Rightarrow> string \<Rightarrow> Command list \<times> replay_end" where
  "replay_hashes 0 data = ([], Finished)"
| "replay_hashes (Suc n) data =
     (let (hk, d1) = readString data
      in case f_Read 4 d1 of
           None \<Rightarrow> ([], Failed)
         | Some (cb, d2) \<Rightarrow>
             let (cs, d3) = replay_fields hk (be_nat cb) d2; (ds, e) = replay_hashes n d3
             in (cs @ ds, e))"

definition replay_file :: "string \<Rightarrow> Command list \<times> replay_end" where
  "replay_file data =
     (if length data = 0 then ([], Finished)
      else case f_Read (length rdbMagic) data of
        None \<Rightarrow> ([], Failed)
      | Some (magic, d1) \<Rightarrow> (case f_Read 4 d1 of
          None \<Rightarrow> ([], Failed)
        | Some (versionBuf, d2) \<Rightarrow> (case f_Read 4 d2 of
            None \<Rightarrow> ([], Failed)
          | Some (strCountBuf, d3) \<Rightarrow>
              let (cs, d4) = replay_strings (be_nat strCountBuf) d3
              in case f_Read 4 d4 of
                   None \<Rightarrow> (cs, Failed)
                 | Some (hashCountBuf, d5) \<Rightarrow>
                     let (ds, e) = replay_hashes (be_nat hashCountBuf) d5 in (cs @ ds, e))))"

definition RDB_Replay :: "RDB \<Rightarrow> (Command list \<times> replay_end \<times> RDB) option" where
  "RDB_Replay r =
     (let (cs, e) = (case rd_disk r of None \<Rightarrow> ([], Finished) | Some data \<Rightarrow> replay_file data)
      in Some (cs, e, r))"

definition RDB_ops :: "(smap \<Rightarrow> string list) \<Rightarrow> (hmap \<Rightarrow> string list) \<Rightarrow> RDB persistence_ops" where
  "RDB_ops ord hord =
     \<lparr>pp_Write = RDB_Write, pp_Replay = RDB_Replay, pp_Close = Snapshot ord hord\<rparr>"

section \<open>Reading what was written\<close>

definition fits32 :: "smap \<Rightarrow> bool" where
  "fits32 m \<longleftrightarrow> finite (dom m) \<and> card (dom m) < 2 ^ 32
     \<and> (\<forall>k v. m k = Some v \<longrightarrow> length k < 2 ^ 32 \<and> length v < 2 ^ 32)"

lemma f_Read_prefix: "bs \<noteq> [] \<Longrightarrow> f_Read (length bs) (bs @ rest) = Some (bs, rest)"
  by (simp add: f_Read_def)

lemma f_Read_uint32: "f_Read 4 (put_uint32 n @ rest) = Some (put_uint32 n, rest)"
  by (simp add: f_Read_def put_uint32_def)

lemma readString_writeString:
  "length s < 2 ^ 32 \<Longrightarrow> readString (writeString s @ rest) = (s, rest)"
  using f_Read_prefix [of s rest]
  by (cases "s = []") (simp_all add: readString_def writeString_def f_Read_uint32 codec_simps)

fun set_cmds :: "smap \<Rightarrow> string list \<Rightarrow> Command list" where
  "set_cmds m [] = []"
| "set_cmds m (k # ks) =
     (case m k of None \<Rightarrow> set_cmds m ks | Some v \<Rightarrow> mk_cmd ''SET'' [k, v] # set_cmds m ks)"

fun hset_cmds :: "string \<Rightarrow> smap \<Rightarrow> string list \<Rightarrow> Command list" where
  "hset_cmds h m [] = []"
| "hset_cmds h m (k # ks) =
     (case m k of None \<Rightarrow> hset_cmds h m ks | Some v \<Rightarrow> mk_cmd ''HSET'' [h, k, v] # hset_cmds h m ks)"

lemma replay_strings_pairs:
  assumes "set ks \<subseteq> dom m" and "fits32 m" and "m [] \<noteq> Some []"
  shows "replay_strings (length ks) (pairs_bytes m ks @ rest) = (set_cmds m ks, rest)"
  using assms(1)
proof (induction ks)
  case (Cons k ks)
  then obtain v where v: "m k = Some v" by auto
  then have "length k < 2 ^ 32" "length v < 2 ^ 32" "\<not> (k = [] \<and> v = [])"
    using assms(2,3) by (auto simp: fits32_def)
  with v Cons show ?case by (simp add: readString_writeString)
qed simp

lemma replay_fields_pairs:
  assumes "set ks \<subseteq> dom m" and "fits32 m"
  shows "replay_fields h (length ks) (pairs_bytes m ks @ rest) = (hset_cmds h m ks, rest)"
  using assms(1)
proof (induction ks)
  case (Cons k ks)
  then obtain v where v: "m k = Some v" by auto
  then have "length k < 2 ^ 32" "length v < 2 ^ 32" using assms(2) by (auto simp: fits32_def)
  with v Cons show ?case by (simp add: readString_writeString)
qed simp

definition RDB_inv :: "RDB \<Rightarrow> bool" where
  "RDB_inv r \<longleftrightarrow> fits32 (rd_strings r) \<and> rd_strings r [] \<noteq> Some []
     \<and> finite (dom (rd_hashes r)) \<and> card (dom (rd_hashes r)) < 2 ^ 32
     \<and> (\<forall>h m. rd_hashes r h = Some m \<longrightarrow> length h < 2 ^ 32 \<and> fits32 m \<and> dom m \<noteq> {})"

definition all_hset_cmds :: "(smap \<Rightarrow> string list) \<Rightarrow> hmap \<Rightarrow> string list \<Rightarrow> Command list" where
  "all_hset_cmds ord m hs = concat (map (\<lambda>h. case m h of None \<Rightarrow> [] | Some f \<Rightarrow> hset_cmds h f (ord f)) hs)"

lemma replay_hashes_bytes:
  assumes "\<And>m :: smap. finite (dom m) \<Longrightarrow> enumerates (ord m) m" and "set hs \<subseteq> dom hm"
    and "\<forall>h m. hm h = Some m \<longrightarrow> length h < 2 ^ 32 \<and> fits32 m \<and> dom m \<noteq> {}"
  shows "replay_hashes (length hs) (hashes_bytes ord hm hs) = (all_hset_cmds ord hm hs, Finished)"
  using assms(2)
proof (induction hs)
  case (Cons h hs)
  then obtain m where m: "hm h = Some m" by auto
  then have f: "length h < 2 ^ 32" "fits32 m" using assms(3) by blast+
  then have e: "enumerates (ord m) m" using assms(1) by (simp add: fits32_def)
  then have o: "set (ord m) \<subseteq> dom m" "length (ord m) = card (dom m)" "card (dom m) < 2 ^ 32"
    using enumerates_length f(2) by (auto simp: enumerates_def fits32_def)
  with m f Cons replay_fields_pairs [OF o(1) f(2), of h "hashes_bytes ord hm hs"] show ?case
    by (simp add: readString_writeString f_Read_uint32 codec_simps all_hset_cmds_def)
qed (simp add: all_hset_cmds_def)

lemma replay_snapshot:
  assumes "RDB_inv r" and ord: "\<And>m :: smap. finite (dom m) \<Longrightarrow> enumerates (ord m) m"
    and hord: "\<And>m :: hmap. finite (dom m) \<Longrightarrow> enumerates (hord m) m"
  shows "RDB_Replay (NewRDB (rd_disk (Snapshot ord hord r)))
    = Some (set_cmds (rd_strings r) (ord (rd_strings r)) @ all_hset_cmds ord (rd_hashes r) (hord (rd_hashes r)),
        Finished, NewRDB (rd_disk (Snapshot ord hord r)))"
proof -
  let ?ks = "ord (rd_strings r)" and ?hs = "hord (rd_hashes r)"
  have i: "fits32 (rd_strings r)" "rd_strings r [] \<noteq> Some []" "finite (dom (rd_hashes r))"
    "card (dom (rd_hashes r)) < 2 ^ 32"
    "\<forall>h m. rd_hashes r h = Some m \<longrightarrow> length h < 2 ^ 32 \<and> fits32 m \<and> dom m \<noteq> {}"
    using assms(1) by (simp_all add: RDB_inv_def)
  have ks: "set ?ks \<subseteq> dom (rd_strings r)" "length ?ks = card (dom (rd_strings r))"
    "card (dom (rd_strings r)) < 2 ^ 32"
    using ord [of "rd_strings r"] enumerates_length i(1) by (auto simp: enumerates_def fits32_def)
  have hs: "set ?hs \<subseteq> dom (rd_hashes r)" "length ?hs = card (dom (rd_hashes r))"
    using hord [OF i(3)] enumerates_length by (auto simp: enumerates_def)
  have "f_Read (length rdbMagic) (rdbMagic @ d) = Some (rdbMagic, d)" for d
    by (rule f_Read_prefix) (simp add: rdbMagic_def)
  moreover have "rdbMagic \<noteq> []" by (simp add: rdbMagic_def)
  ultimately show ?thesis
    using replay_strings_pairs [OF ks(1) i(1,2), of "put_uint32 (card (dom (rd_hashes r)))
        @ hashes_bytes ord (rd_hashes r) ?hs"] replay_hashes_bytes [OF ord hs(1) i(5)] ks hs i(4)
    by (simp add: RDB_Replay_def NewRDB_def Snapshot_def writeSnapshot_def replay_file_def
        f_Read_uint32 codec_simps)
qed

section \<open>What the replayed commands rebuild\<close>

lemma restrict_dom [simp]: "m |` dom m = m"
  by (rule ext) (simp add: restrict_map_def domIff)

lemma apply_set_cmds: "apply_cmds (set_cmds m ks) a = a\<lparr>astr := astr a ++ m |` set ks\<rparr>"
proof (induction ks arbitrary: a)
  case Nil
  then show ?case by simp
next
  case (Cons k ks)
  show ?case
  proof (cases "m k")
    case None
    then have "m |` set (k # ks) = m |` set ks" by (auto simp: restrict_map_def)
    with None Cons show ?thesis by simp
  next
    case (Some v)
    then have "astr a ++ m |` set (k # ks) = (astr a)(k \<mapsto> v) ++ m |` set ks"
      by (auto simp: map_add_def restrict_map_def fun_eq_iff split: option.splits)
    moreover have "apply_cmd (mk_cmd ''SET'' [k, v]) a = a\<lparr>astr := (astr a)(k \<mapsto> v)\<rparr>"
      by (simp add: apply_cmd_def a_set_def)
    ultimately show ?thesis
      using Some Cons [of "a\<lparr>astr := (astr a)(k \<mapsto> v)\<rparr>"] by (simp del: fun_upd_apply)
  qed
qed

lemma apply_hset_cmds:
  assumes "set ks \<subseteq> dom m"
  shows "ks \<noteq> [] \<Longrightarrow> apply_cmds (hset_cmds h m ks) a = a\<lparr>ahash := (ahash a)
    (h \<mapsto> (case ahash a h of None \<Rightarrow> Map.empty | Some x \<Rightarrow> x) ++ m |` set ks)\<rparr>"
  using assms
proof (induction ks arbitrary: a)
  case Nil
  then show ?case by simp
next
  case (Cons k ks)
  then obtain v where v: "m k = Some v" by auto
  let ?x = "case ahash a h of None \<Rightarrow> Map.empty | Some x \<Rightarrow> x"
  have step: "apply_cmd (mk_cmd ''HSET'' [h, k, v]) a = a\<lparr>ahash := (ahash a)(h \<mapsto> ?x(k \<mapsto> v))\<rparr>"
    by (auto simp: apply_cmd_def a_hset_def hashes_set_apply fun_eq_iff)
  have e: "?x ++ m |` set (k # ks) = ?x(k \<mapsto> v) ++ m |` set ks"
    using v by (auto simp: map_add_def restrict_map_def fun_eq_iff split: option.splits)
  show ?case
  proof (cases "ks = []")
    case True
    then show ?thesis using v step e by (simp del: fun_upd_apply)
  next
    case False
    then show ?thesis
      using Cons.IH [OF False, of "apply_cmd (mk_cmd ''HSET'' [h, k, v]) a"] Cons.prems(2) v step e
      by (simp del: fun_upd_apply add: fun_upd_same)
  qed
qed

lemma apply_all_hset_cmds:
  assumes "\<And>m :: smap. finite (dom m) \<Longrightarrow> enumerates (ord m) m" and "set hs \<subseteq> dom hm" and "distinct hs"
    and "\<forall>h m. hm h = Some m \<longrightarrow> length h < 2 ^ 32 \<and> fits32 m \<and> dom m \<noteq> {}"
    and "\<forall>h \<in> set hs. ahash a h = None"
  shows "apply_cmds (all_hset_cmds ord hm hs) a = a\<lparr>ahash := ahash a ++ hm |` set hs\<rparr>"
  using assms(2,3,5)
proof (induction hs arbitrary: a)
  case Nil
  then show ?case by (simp add: all_hset_cmds_def)
next
  case (Cons h hs)
  then obtain m where m: "hm h = Some m" by auto
  then have f: "fits32 m" "dom m \<noteq> {}" using assms(4) by blast+
  then have "set (ord m) = dom m" using assms(1) [of m] by (simp add: fits32_def enumerates_def)
  then have e: "set (ord m) = dom m" "ord m \<noteq> []" using f(2) by (metis, metis list.set(1))
  have "apply_cmds (hset_cmds h m (ord m)) a = a\<lparr>ahash := (ahash a)(h \<mapsto> m)\<rparr>"
    using apply_hset_cmds [of "ord m" m h a] e Cons.prems(3) by simp
  moreover have "(ahash a)(h \<mapsto> m) ++ hm |` set hs = ahash a ++ hm |` set (h # hs)"
    using m Cons.prems(2) by (auto simp: map_add_def restrict_map_def fun_eq_iff split: option.splits)
  moreover have "\<forall>h' \<in> set hs. ahash (a\<lparr>ahash := (ahash a)(h \<mapsto> m)\<rparr>) h' = None"
    using Cons.prems(2,3) by auto
  ultimately show ?case
    using Cons.IH [of "a\<lparr>ahash := (ahash a)(h \<mapsto> m)\<rparr>"] Cons.prems m
    by (simp add: all_hset_cmds_def del: fun_upd_apply)
qed

definition RDB_abs :: "RDB \<Rightarrow> astore" where
  "RDB_abs r = \<lparr>astr = rd_strings r, ahash = rd_hashes r\<rparr>"

lemma apply_snapshot:
  assumes "RDB_inv r" and ord: "\<And>m :: smap. finite (dom m) \<Longrightarrow> enumerates (ord m) m"
    and hord: "\<And>m :: hmap. finite (dom m) \<Longrightarrow> enumerates (hord m) m"
  shows "apply_cmds (set_cmds (rd_strings r) (ord (rd_strings r))
      @ all_hset_cmds ord (rd_hashes r) (hord (rd_hashes r))) a_empty = RDB_abs r"
proof -
  have i: "finite (dom (rd_strings r))" "finite (dom (rd_hashes r))"
    "\<forall>h m. rd_hashes r h = Some m \<longrightarrow> length h < 2 ^ 32 \<and> fits32 m \<and> dom m \<noteq> {}"
    using assms(1) by (simp_all add: RDB_inv_def fits32_def)
  show ?thesis
    using ord [OF i(1)] hord [OF i(2)] apply_all_hset_cmds [OF ord _ _ i(3), of "hord (rd_hashes r)"]
    by (simp add: apply_set_cmds enumerates_def a_empty_def RDB_abs_def)
qed

lemma RDB_Write_abs: "RDB_abs (RDB_Write c r) = apply_cmd c (RDB_abs r)"
  by (auto simp: RDB_abs_def RDB_Write_def apply_cmd_def a_defs split: list.splits)

section \<open>As a backend\<close>

text \<open>\<open>RDB_ok\<close>: the maps stay within 32-bit counts and lengths, and no empty key gets an empty value.\<close>

definition RDB_ok :: "Command \<Rightarrow> RDB \<Rightarrow> bool" where
  "RDB_ok c r \<longleftrightarrow> RDB_inv (RDB_Write c r)"

lemma rdb_restartable:
  assumes ord: "\<And>m :: smap. finite (dom m) \<Longrightarrow> enumerates (ord m) m"
    and hord: "\<And>m :: hmap. finite (dom m) \<Longrightarrow> enumerates (hord m) m"
  shows "restartable (RDB_ops ord hord) (\<lambda>r. NewRDB (rd_disk r)) RDB_inv RDB_abs RDB_ok"
proof unfold_locales
  fix c r
  show "RDB_ok c r \<Longrightarrow> RDB_inv (pp_Write (RDB_ops ord hord) c r)
      \<and> RDB_abs (pp_Write (RDB_ops ord hord) c r) = apply_cmd c (RDB_abs r)"
    by (simp add: RDB_ops_def RDB_ok_def RDB_Write_abs)
next
  fix r
  assume "RDB_inv r"
  then show "\<exists>cs p'. pp_Replay (RDB_ops ord hord) (NewRDB (rd_disk (pp_Close (RDB_ops ord hord) r)))
      = Some (cs, Finished, p') \<and> apply_cmds cs a_empty = RDB_abs r"
    using replay_snapshot [OF _ ord hord] apply_snapshot [OF _ ord hord] by (simp add: RDB_ops_def)
qed

interpretation sorted_rdb: restartable "RDB_ops sorted_ord sorted_ord" "\<lambda>r. NewRDB (rd_disk r)"
    RDB_inv RDB_abs RDB_ok
  by (rule rdb_restartable) (rule sorted_ord.ord_enumerates, assumption)+

section \<open>Properties\<close>



text \<open>
  C39: a restart loses the data: \<open>Replay\<close> hands the snapshot's commands to the store but does not take
  them back into the backend, so the next snapshot holds only what was written since. With nothing
  written it replays to nothing.
\<close>

theorem rdb_second_restart_empty:
  assumes "\<And>m :: smap. finite (dom m) \<Longrightarrow> enumerates (ord m) m"
    and "\<And>m :: hmap. finite (dom m) \<Longrightarrow> enumerates (hord m) m"
  shows "\<exists>cs e r1. RDB_Replay (NewRDB disk) = Some (cs, e, r1)
    \<and> RDB_Replay (NewRDB (rd_disk (Snapshot ord hord r1)))
      = Some ([], Finished, NewRDB (rd_disk (Snapshot ord hord r1)))"
proof -
  obtain cs e where r: "RDB_Replay (NewRDB disk) = Some (cs, e, NewRDB disk)"
    by (cases "case rd_disk (NewRDB disk) of None \<Rightarrow> ([], Finished) | Some data \<Rightarrow> replay_file data")
      (simp add: RDB_Replay_def)
  have "RDB_inv (NewRDB disk)" by (simp add: RDB_inv_def NewRDB_def fits32_def)
  from replay_snapshot [OF this assms] have "RDB_Replay (NewRDB (rd_disk (Snapshot ord hord (NewRDB disk))))
      = Some ([], Finished, NewRDB (rd_disk (Snapshot ord hord (NewRDB disk))))"
    using assms(1) [of Map.empty] assms(2) [of Map.empty]
    by (simp add: NewRDB_def enumerates_def all_hset_cmds_def)
  with r show ?thesis by blast
qed

theorem rdb_second_restart_empty_witness:
  "\<exists>cs e r1. RDB_Replay (NewRDB (rd_disk (Snapshot sorted_ord sorted_ord
      (RDB_Write (mk_cmd ''SET'' [''a'', ''1'']) (NewRDB None))))) = Some (cs, e, r1)
    \<and> RDB_Replay (NewRDB (rd_disk (Snapshot sorted_ord sorted_ord r1)))
      = Some ([], Finished, NewRDB (rd_disk (Snapshot sorted_ord sorted_ord r1)))"
  by (rule rdb_second_restart_empty) (rule sorted_ord.ord_enumerates, assumption)+

end
