(* ===== verification/Dual.thy ===== *)
theory Dual
  imports Aof Wal Rdb
begin

text \<open>
  Pairs of backends (\<open>persistence/dual.go\<close>). The first property comes from the primary's contract;
  the second one shows what not replaying the secondary does to its file.
\<close>

interpretation dual_aof_wal: durable "Dual_ops (AOF_ops up) (WAL_ops up)"
    "map_prod (\<lambda>f. NewAOF (f_data f)) (\<lambda>w. NewWAL (f_data (wl_file w)))" "\<lambda>d. AOF_inv (fst d)"
    "\<lambda>d. apply_cmds (aof_cmds up (fst d)) a_empty" "\<lambda>c d. AOF_ok c (fst d)" for up
  by (rule dual_durable [OF aof.durable_axioms])

interpretation dual_wal_rdb: durable "Dual_ops (WAL_ops up) (RDB_ops ord hord)"
    "map_prod (\<lambda>w. NewWAL (f_data (wl_file w))) (\<lambda>r. NewRDB (rd_disk r))" "\<lambda>d. WAL_inv (fst d)"
    "\<lambda>d. apply_cmds (wal_cmds up (fst d)) a_empty" "\<lambda>c d. WAL_ok c (fst d)" for up ord hord
  by (rule dual_durable [OF wal.durable_axioms])

text \<open>
  C37: after a restart a secondary append-only file is overwritten from its beginning: only the
  primary is replayed, so the secondary's descriptor stays at offset 0 and the next command replaces
  the first bytes of the old log.
\<close>

theorem dual_secondary_overwritten:
  assumes "pp_Replay primary p = Some (cs, e, p')"
  shows "Dual_Replay primary (p, NewAOF old) = Some (cs, e, p', NewAOF old)
    \<and> f_data (snd (Dual_Write primary (AOF_ops up) c (p', NewAOF old)))
      = Marshal (AOF_value c) @ drop (length (Marshal (AOF_value c))) old"
  using assms
  by (simp add: Dual_Replay_def Dual_Write_def AOF_ops_def AOF_Write_def NewAOF_def f_open_def
      f_write_def)

theorem dual_secondary_overwritten_witness:
  "f_data (snd (Dual_Write NullPersistence_ops (AOF_ops id) (set_cmd ''b'' ''2'')
      ((), NewAOF (Marshal (AOF_value (set_cmd ''a'' ''1''))))))
    = Marshal (AOF_value (set_cmd ''b'' ''2''))"
proof -
  have "length (Marshal (AOF_value (set_cmd ''a'' ''1''))) = length (Marshal (AOF_value (set_cmd ''b'' ''2'')))"
    by code_simp
  then show ?thesis
    using dual_secondary_overwritten [of NullPersistence_ops "()" "[]" Finished "()"
        "Marshal (AOF_value (set_cmd ''a'' ''1''))" id "set_cmd ''b'' ''2''"]
    by (simp add: NullPersistence_ops_def)
qed

end
