(* ===== verification/Network.thy ===== *)
theory Network
  imports Handler Persist_Spec Aof
begin

text \<open>
  The transports (\<open>network/*.go\<close>) and the closures that \<open>main.go\<close> passes to them. A connection of the
  stream transports (TCP, TLS, Unix sockets) delivers chunks of bytes; \<open>handleConn\<close> makes a new
  reader for each command, so whatever the old reader had buffered is gone. The HTTP and gRPC
  transports get one command per request from libraries that are not part of the sources.

  The server's state is the store and the persistence backend. Command \<open>i\<close> of a connection runs in
  the environment \<open>envs i\<close>.
\<close>

section \<open>Executing a command\<close>

record ('s, 'p) server =
  sv_store :: "'s TTLStore"
  sv_pers :: 'p

text \<open>The \<open>onWrite\<close> closure of \<open>main\<close>.\<close>

definition onWrite ::
    "'p persistence_ops \<Rightarrow> string \<Rightarrow> Value list \<Rightarrow> ('s, 'p) server \<Rightarrow> ('s, 'p) server" where
  "onWrite pops command args s =
     (if command = ''SET'' \<or> command = ''HSET''
      then s\<lparr>sv_pers := pp_Write pops (mk_cmd command (map Bulk args)) (sv_pers s)\<rparr> else s)"

text \<open>\<open>instrument\<close> runs the handler between two clock readings that only feed the metrics.\<close>

definition instrument :: "string \<Rightarrow> 's handler \<Rightarrow> 's handler" where
  "instrument name h = (\<lambda>e args t. h e args t)"

definition main_handlers :: "'s store_ops \<Rightarrow> string \<rightharpoonup> 's handler" where
  "main_handlers ops = (\<lambda>name. map_option (instrument name) (NewHandlers ops name))"

text \<open>What every transport does once it has a command: persist, run the handler.\<close>

definition exec ::
    "'s store_ops \<Rightarrow> 'p persistence_ops \<Rightarrow> env \<Rightarrow> string \<Rightarrow> 's handler \<Rightarrow> Value list
      \<Rightarrow> ('s, 'p) server \<Rightarrow> (Value \<times> ('s, 'p) server) res" where
  "exec ops pops e command handler args s =
     (let s1 = onWrite pops command args s
      in bindr (handler e args (sv_store s1)) (\<lambda>(v, t). Inr (v, s1\<lparr>sv_store := t\<rparr>)))"

section \<open>A connection\<close>

text \<open>
  One turn of the loop of \<open>handleConn\<close>: the value that was read, and whether the client has given
  the password. The result has the replies that were written (none or one).
\<close>

definition conn_turn ::
    "(string \<Rightarrow> string) \<Rightarrow> string \<Rightarrow> 's store_ops \<Rightarrow> 'p persistence_ops \<Rightarrow> env \<Rightarrow> Value
      \<Rightarrow> bool \<times> ('s, 'p) server \<Rightarrow> (Value list \<times> bool \<times> ('s, 'p) server) res" where
  "conn_turn up password ops pops e v st =
     (let (authenticated, s) = st
      in if Type v \<noteq> ''array'' \<or> length (Array v) = 0 then Inr ([], authenticated, s)
         else let command = ToUpper up (Bulk (Array v ! 0)); args = tl (Array v)
              in if \<not> authenticated
                 then if command = ''AUTH''
                      then if length args \<ge> 1 \<and> Bulk (args ! 0) = password
                           then Inr ([string_value ''OK''], True, s)
                           else Inr ([error_value ''ERR invalid password''], authenticated, s)
                      else Inr ([error_value ''NOAUTH Authentication required.''], authenticated, s)
                 else case main_handlers ops command of
                        None \<Rightarrow> Inr ([], authenticated, s)
                      | Some handler \<Rightarrow>
                          bindr (exec ops pops e command handler args s) (\<lambda>(r, s').
                            Inr ([r], authenticated, s')))"

datatype conn_end = ConnClosed | ProcessCrashed fault

text \<open>The loop. A new reader starts on the chunks the old one has not touched.\<close>

lemma Read_NewResp_less:
  assumes "Read (NewResp src) = Done v r"
  shows "length (concat (br_src r)) < length (concat src)"
  using Read_Done_less [OF assms] by (simp add: remaining_def NewResp_def)

function conn_loop ::
    "(string \<Rightarrow> string) \<Rightarrow> string \<Rightarrow> 's store_ops \<Rightarrow> 'p persistence_ops \<Rightarrow> (nat \<Rightarrow> env) \<Rightarrow> string list
      \<Rightarrow> bool \<times> ('s, 'p) server \<Rightarrow> Value list \<times> conn_end \<times> ('s, 'p) server" where
  "conn_loop up password ops pops envs src st =
     (case Read (NewResp src) of
        Fail _ _ \<Rightarrow> ([], ConnClosed, snd st)
      | Done v r \<Rightarrow>
          (case conn_turn up password ops pops (envs 0) v st of
             Inl f \<Rightarrow> ([], ProcessCrashed f, snd st)
           | Inr (replies, st') \<Rightarrow>
               let (rs, e, s) = conn_loop up password ops pops (\<lambda>i. envs (Suc i)) (br_src r) st'
               in (replies @ rs, e, s))
      | _ \<Rightarrow> ([], ProcessCrashed Panic, snd st))"
  by pat_completeness auto

termination
  by (relation "measure (\<lambda>(up, password, ops, pops, envs, src, st). length (concat src))")
    (auto dest: Read_NewResp_less)

declare conn_loop.simps [simp del]

record TCP =
  tcp_maxConns :: int
  tcp_password :: string

record TLS =
  tls_cert :: string
  tls_key :: string
  tls_maxConns :: int
  tls_password :: string

record Unix =
  ux_maxConns :: int
  ux_password :: string

definition TCP_handleConn where
  "TCP_handleConn up ops pops envs t src s =
     conn_loop up (tcp_password t) ops pops envs src (tcp_password t = [], s)"

definition TLS_handleConn where
  "TLS_handleConn up ops pops envs t src s =
     conn_loop up (tls_password t) ops pops envs src (tls_password t = [], s)"

definition Unix_handleConn where
  "Unix_handleConn up ops pops envs t src s =
     conn_loop up (ux_password t) ops pops envs src (ux_password t = [], s)"

section \<open>Accepting connections\<close>

text \<open>
  \<open>Listen\<close> and the deferred receive of \<open>handleConn\<close>: the channel \<open>sem\<close> holds a token for every
  running connection when there is a limit. A connection that finds the channel full is closed.
\<close>

record listener =
  ls_maxConns :: int
  ls_sem :: "nat option"
  ls_running :: nat

definition listen_start :: "int \<Rightarrow> listener" where
  "listen_start maxConns =
     \<lparr>ls_maxConns = maxConns, ls_sem = (if maxConns > 0 then Some 0 else None), ls_running = 0\<rparr>"

inductive listen_step :: "listener \<Rightarrow> listener \<Rightarrow> bool" where
  accept_free: "ls_sem l = None \<Longrightarrow> listen_step l (l\<lparr>ls_running := ls_running l + 1\<rparr>)"
| accept_token: "ls_sem l = Some n \<Longrightarrow> int n < ls_maxConns l
    \<Longrightarrow> listen_step l (l\<lparr>ls_sem := Some (n + 1), ls_running := ls_running l + 1\<rparr>)"
| reject: "ls_sem l = Some n \<Longrightarrow> \<not> int n < ls_maxConns l \<Longrightarrow> listen_step l l"
| finish_free: "ls_sem l = None \<Longrightarrow> 0 < ls_running l
    \<Longrightarrow> listen_step l (l\<lparr>ls_running := ls_running l - 1\<rparr>)"
| finish_token: "ls_sem l = Some n \<Longrightarrow> 0 < ls_running l \<Longrightarrow> 0 < n
    \<Longrightarrow> listen_step l (l\<lparr>ls_sem := Some (n - 1), ls_running := ls_running l - 1\<rparr>)"

inductive_cases listen_stepE: "listen_step l l'"

lemma listen_invariant:
  assumes "listen_step\<^sup>*\<^sup>* (listen_start n) l"
  shows "ls_maxConns l = n \<and> (ls_sem l = (if n > 0 then Some (ls_running l) else None))
    \<and> (n > 0 \<longrightarrow> int (ls_running l) \<le> n)"
  using assms
proof (induction rule: rtranclp_induct)
  case base
  then show ?case by (simp add: listen_start_def)
next
  case (step l l')
  from step.hyps(2) step.IH show ?case by (elim listen_stepE) (auto split: if_splits)
qed

section \<open>HTTP\<close>

text \<open>
  A request is its method and the result of decoding its body as a JSON array of strings, which the
  library does. What the handler encodes is a JSON value.
\<close>

datatype json =
    JNull | JBool bool | JNum int | JString string | JArray "json list"
  | JObject "(string \<times> json) list"

definition json_error :: "string \<Rightarrow> json" where
  "json_error msg = JObject [(''ok'', JBool False), (''error'', JString msg)]"

definition json_ok :: "json \<Rightarrow> json" where
  "json_ok x = JObject [(''ok'', JBool True), (''value'', x)]"

fun respToJSON :: "Value \<Rightarrow> json" where
  "respToJSON (Value t s n b vs) =
     (if t = ''string'' then json_ok (JString s)
      else if t = ''bulk'' then json_ok (JString b)
      else if t = ''null'' then json_ok JNull
      else if t = ''error'' then json_error s
      else if t = ''integer'' then json_ok (JNum n)
      else if t = ''array'' then json_ok (JArray (map respToJSON vs))
      else json_ok JNull)"

definition handleCommand ::
    "(string \<Rightarrow> string) \<Rightarrow> 's store_ops \<Rightarrow> 'p persistence_ops \<Rightarrow> env \<Rightarrow> string \<Rightarrow> string list option
      \<Rightarrow> ('s, 'p) server \<Rightarrow> (nat \<times> json \<times> ('s, 'p) server) res" where
  "handleCommand up ops pops e method body s =
     (if method \<noteq> ''POST'' then Inr (405, json_error ''method not allowed'', s)
      else case body of
        None \<Rightarrow> Inr (400, json_error ''invalid json'', s)
      | Some args \<Rightarrow>
          if length args = 0 then Inr (400, json_error ''empty command'', s)
          else let command = ToUpper up (args ! 0)
               in case main_handlers ops command of
                    None \<Rightarrow> Inr (404, json_error (''unknown command: '' @ command), s)
                  | Some handler \<Rightarrow>
                      bindr (exec ops pops e command handler (map bulk_value (tl args)) s)
                        (\<lambda>(v, s'). Inr (200, respToJSON v, s')))"

section \<open>gRPC\<close>

text \<open>The message types of \<open>proto/fluxcache.proto\<close>.\<close>

datatype ResponseValue =
  ResponseValue (rv_type: string) (rv_str: string) (rv_num: int) (rv_bulk: string)
    (rv_array: "ResponseValue list")

fun respValueToProto :: "Value \<Rightarrow> ResponseValue" where
  "respValueToProto (Value t s n b vs) =
     (if t = ''string'' then ResponseValue t s 0 [] []
      else if t = ''bulk'' then ResponseValue t [] 0 b []
      else if t = ''error'' then ResponseValue t s 0 [] []
      else if t = ''integer'' then ResponseValue t [] n [] []
      else if t = ''array'' then ResponseValue t [] 0 [] (map respValueToProto vs)
      else ResponseValue t [] 0 [] [])"

definition Exec ::
    "(string \<Rightarrow> string) \<Rightarrow> 's store_ops \<Rightarrow> 'p persistence_ops \<Rightarrow> env \<Rightarrow> string \<Rightarrow> string list
      \<Rightarrow> ('s, 'p) server \<Rightarrow> (ResponseValue \<times> ('s, 'p) server) res" where
  "Exec up ops pops e cmdName cmdArgs s =
     (let name = ToUpper up cmdName
      in case main_handlers ops name of
           None \<Rightarrow> Inr (ResponseValue ''error'' (''unknown command: '' @ name) 0 [] [], s)
         | Some handler \<Rightarrow>
             bindr (exec ops pops e name handler (map bulk_value cmdArgs) s)
               (\<lambda>(v, s'). Inr (respValueToProto v, s')))"

section \<open>Requests one chunk at a time\<close>

text \<open>The turns for a sequence of values.\<close>

fun turns ::
    "(string \<Rightarrow> string) \<Rightarrow> string \<Rightarrow> 's store_ops \<Rightarrow> 'p persistence_ops \<Rightarrow> (nat \<Rightarrow> env) \<Rightarrow> Value list
      \<Rightarrow> bool \<times> ('s, 'p) server \<Rightarrow> Value list \<times> conn_end \<times> ('s, 'p) server" where
  "turns up password ops pops envs [] st = ([], ConnClosed, snd st)"
| "turns up password ops pops envs (v # vs) st =
     (case conn_turn up password ops pops (envs 0) v st of
        Inl f \<Rightarrow> ([], ProcessCrashed f, snd st)
      | Inr (replies, st') \<Rightarrow>
          let (rs, e, s) = turns up password ops pops (\<lambda>i. envs (Suc i)) vs st'
          in (replies @ rs, e, s))"

lemma conn_loop_chunk:
  assumes "wf_value v" and "length (Marshal v @ y) \<le> bufsize"
  shows "conn_loop up password ops pops envs ((Marshal v @ y) # cs) st =
     (case conn_turn up password ops pops (envs 0) v st of
        Inl f \<Rightarrow> ([], ProcessCrashed f, snd st)
      | Inr (replies, st') \<Rightarrow>
          let (rs, e, s) = conn_loop up password ops pops (\<lambda>i. envs (Suc i)) cs st'
          in (replies @ rs, e, s))"
proof -
  have "Read (NewResp ((Marshal v @ y) # cs)) = Read (rd_at (Marshal v @ y) cs)"
    using assms Marshal_not_Nil by (intro Read_first_chunk) auto
  also have "\<dots> = Done v (rd_at y cs)" by (rule Read_Marshal [OF assms(1)])
  finally show ?thesis by (subst conn_loop.simps) (auto split: sum.split)
qed

lemma conn_loop_chunks:
  assumes "\<forall>v \<in> set vs. wf_value v \<and> length (Marshal v) \<le> bufsize"
  shows "conn_loop up password ops pops envs (map Marshal vs) st = turns up password ops pops envs vs st"
  using assms
proof (induction vs arbitrary: envs st)
  case Nil
  have "Read (NewResp []) = Fail EOF (NewResp [])"
    by (simp add: Read_def bufio_ReadByte_def NewResp_def)
  then show ?case by (simp add: conn_loop.simps)
next
  case (Cons v vs)
  then show ?case
    using conn_loop_chunk [of v "[]" up password ops pops envs "map Marshal vs" st]
    by (auto split: sum.splits)
qed

text \<open>Without the password a turn changes nothing and writes errors only.\<close>

definition gives_password :: "(string \<Rightarrow> string) \<Rightarrow> string \<Rightarrow> Value \<Rightarrow> bool" where
  "gives_password up password v \<longleftrightarrow> Type v = ''array'' \<and> 2 \<le> length (Array v)
     \<and> ToUpper up (Bulk (Array v ! 0)) = ''AUTH'' \<and> Bulk (Array v ! 1) = password"

lemma conn_turn_unauthenticated:
  assumes "\<not> gives_password up password v"
  shows "\<exists>rs. conn_turn up password ops pops e v (False, s) = Inr (rs, False, s)
    \<and> (\<forall>r \<in> set rs. Type r = ''error'')"
proof (cases "Array v")
  case Nil
  then show ?thesis by (simp add: conn_turn_def)
next
  case (Cons c args)
  then have "Type v = ''array'' \<and> ToUpper up (Bulk c) = ''AUTH'' \<Longrightarrow> length args \<ge> 1 \<Longrightarrow> Bulk (args ! 0) \<noteq> password"
    using assms by (auto simp: gives_password_def)
  then show ?thesis using Cons by (auto simp: conn_turn_def error_value_def Let_def)
qed

text \<open>The values that a connection delivers, one reader for each.\<close>

function conn_values :: "string list \<Rightarrow> Value list" where
  "conn_values src =
     (case Read (NewResp src) of Done v r \<Rightarrow> v # conn_values (br_src r) | _ \<Rightarrow> [])"
  by pat_completeness auto

termination
  by (relation "measure (\<lambda>src. length (concat src))") (auto dest: Read_NewResp_less)

declare conn_values.simps [simp del]

lemma conn_loop_unauthenticated:
  assumes "\<forall>v \<in> set (conn_values src). \<not> gives_password up password v"
  shows "\<exists>rs e. conn_loop up password ops pops envs src (False, s) = (rs, e, s)
    \<and> (\<forall>r \<in> set rs. Type r = ''error'')"
  using assms
proof (induction src arbitrary: envs rule: conn_values.induct)
  case (1 src)
  show ?case
  proof (cases "Read (NewResp src)")
    case (Done v r)
    then have vs: "conn_values src = v # conn_values (br_src r)" by (simp add: conn_values.simps)
    then obtain rs where "conn_turn up password ops pops (envs 0) v (False, s) = Inr (rs, False, s)"
      "\<forall>r \<in> set rs. Type r = ''error''"
      using conn_turn_unauthenticated 1(2) by (metis list.set_intros(1))
    moreover obtain rs' e where "conn_loop up password ops pops (\<lambda>i. envs (Suc i)) (br_src r) (False, s) = (rs', e, s)"
      "\<forall>r \<in> set rs'. Type r = ''error''"
      using 1(1) [OF Done] 1(2) vs by (metis list.set_intros(2))
    ultimately show ?thesis using Done by (subst conn_loop.simps) auto
  qed (subst conn_loop.simps, simp)+
qed

section \<open>Properties\<close>

text \<open>
  C30: on a stream transport with a password, a client that never sends \<open>AUTH\<close> with that password
  changes nothing in the store or the persisted data and is answered with errors only, whatever
  bytes it sends and however they are cut.
\<close>

theorem auth_required:
  assumes "tcp_password t \<noteq> []"
    and "\<forall>v \<in> set (conn_values src). \<not> gives_password up (tcp_password t) v"
  shows "\<exists>rs e. TCP_handleConn up ops pops envs t src s = (rs, e, s) \<and> (\<forall>r \<in> set rs. Type r = ''error'')"
  using conn_loop_unauthenticated [OF assms(2)] assms(1) by (simp add: TCP_handleConn_def)

definition empty_server :: "(MapStore, unit) server" where
  "empty_server = \<lparr>sv_store = map_ttl NoEviction 0, sv_pers = ()\<rparr>"

theorem auth_required_witness:
  "\<exists>rs e. TCP_handleConn id MapStore_ops NullPersistence_ops (\<lambda>_. env_at 1) \<lparr>tcp_maxConns = 0, tcp_password = ''pw''\<rparr>
      [Marshal (array_value [bulk_value ''GET'', bulk_value ''a''])] empty_server = (rs, e, empty_server)
    \<and> (\<forall>r \<in> set rs. Type r = ''error'')"
proof (rule auth_required)
  let ?v = "array_value [bulk_value ''GET'', bulk_value ''a'']"
  have "wf_value ?v" by (simp add: value_defs int64_defs)
  moreover have "length (Marshal ?v @ []) \<le> bufsize" by code_simp
  ultimately have "Read (NewResp [Marshal ?v]) = Done ?v (rd_at [] [])"
    using Read_first_chunk [of "Marshal ?v" "[]"] Read_Marshal [of ?v "[]" "[]"] Marshal_not_Nil [of ?v] by simp
  moreover have "conn_values [] = []"
    by (simp add: conn_values.simps Read_def bufio_ReadByte_def NewResp_def)
  ultimately have "conn_values [Marshal ?v] = [?v]" by (simp add: conn_values.simps [of "[_]"])
  then show "\<forall>v \<in> set (conn_values [Marshal ?v]). \<not> gives_password id (tcp_password \<lparr>tcp_maxConns = 0, tcp_password = ''pw''\<rparr>) v"
    by (simp add: gives_password_def array_value_def bulk_value_def)
qed simp



text \<open>
  C40: commands that arrive together are lost: whatever follows the first command in a chunk is
  dropped with the reader that buffered it, without a reply.
\<close>

theorem pipelined_commands_dropped:
  assumes "wf_value v" and "length (Marshal v @ y) \<le> 4096"
  shows "Unix_handleConn up ops pops envs t ((Marshal v @ y) # cs) s
    = Unix_handleConn up ops pops envs t (Marshal v # cs) s"
proof -
  have len: "length (Marshal v @ []) \<le> bufsize" using assms(2) by simp
  show ?thesis
    by (simp only: Unix_handleConn_def conn_loop_chunk [OF assms]
        conn_loop_chunk [OF assms(1) len, unfolded append_Nil2])
qed

theorem pipelined_commands_dropped_witness:
  "Unix_handleConn id MapStore_ops NullPersistence_ops (\<lambda>_. env_at 1) \<lparr>ux_maxConns = 0, ux_password = []\<rparr>
      [Marshal (array_value [bulk_value ''PING'']) @ Marshal (array_value [bulk_value ''PING''])] empty_server
    = Unix_handleConn id MapStore_ops NullPersistence_ops (\<lambda>_. env_at 1) \<lparr>ux_maxConns = 0, ux_password = []\<rparr>
      [Marshal (array_value [bulk_value ''PING''])] empty_server"
proof (rule pipelined_commands_dropped)
  show "wf_value (array_value [bulk_value ''PING''])" by (simp add: value_defs int64_defs)
  show "length (Marshal (array_value [bulk_value ''PING'']) @ Marshal (array_value [bulk_value ''PING''])) \<le> 4096"
    by code_simp
qed





end
