(* ===== verification/Config.thy ===== *)
theory Config
  imports Go_Strings Evict Bitcask_Store Dual Network
begin

text \<open>
  Configuration (\<open>config/config.go\<close>): the record of settings, the overrides from the environment, the
  validation, and the constructors of policies, backends and transports. Decoding YAML and parsing a
  duration belong to libraries: \<open>Load\<close> and \<open>buildPersistence\<close> take them as arguments. The text of an
  error is replaced by a constructor that names the check.
\<close>

section \<open>Settings\<close>

record ServerConfig =
  Port :: int
  Network :: string
  HealthPort :: int
  MetricsPort :: int
  MaxConns :: int
  MaxMemory :: string
  Password :: string
  CertFile :: string
  KeyFile :: string
  SocketPath :: string

record StoreConfig =
  st_Type :: string
  st_File :: string
  ShardCount :: int
  Degree :: int

datatype PersistenceConfig =
  PersistenceConfig (pc_Type: string) (pc_File: string) (Interval: string)
    (Primary: "PersistenceConfig option") (Secondary: "PersistenceConfig option")

record EvictionConfig =
  Policy :: string
  MaxKeys :: int

record Config =
  Server :: ServerConfig
  Store :: StoreConfig
  Persistence :: PersistenceConfig
  Eviction :: EvictionConfig

definition Default :: Config where
  "Default = \<lparr>
     Server = \<lparr>Port = 6379, Network = ''tcp'', HealthPort = 0, MetricsPort = 0, MaxConns = 0,
       MaxMemory = [], Password = [], CertFile = [], KeyFile = [], SocketPath = []\<rparr>,
     Store = \<lparr>st_Type = ''map'', st_File = [], ShardCount = 0, Degree = 0\<rparr>,
     Persistence = PersistenceConfig ''null'' [] [] None None,
     Eviction = \<lparr>Policy = ''noeviction'', MaxKeys = 0\<rparr>\<rparr>"

section \<open>Environment variables\<close>

text \<open>A variable that is set replaces a string; one that is set to a number replaces a number.\<close>

definition env_str :: "(string \<rightharpoonup> string) \<Rightarrow> string \<Rightarrow> string \<Rightarrow> string" where
  "env_str getenv name old = (case getenv (''FLUXCACHE_'' @ name) of None \<Rightarrow> old | Some v \<Rightarrow> v)"

definition env_int :: "(string \<rightharpoonup> string) \<Rightarrow> string \<Rightarrow> int \<Rightarrow> int" where
  "env_int getenv name old =
     (case getenv (''FLUXCACHE_'' @ name) of None \<Rightarrow> old
      | Some v \<Rightarrow> (case Atoi v of None \<Rightarrow> old | Some n \<Rightarrow> n))"

definition ServerFromEnv :: "(string \<rightharpoonup> string) \<Rightarrow> ServerConfig \<Rightarrow> ServerConfig" where
  "ServerFromEnv g c = \<lparr>Port = env_int g ''PORT'' (Port c), Network = env_str g ''NETWORK'' (Network c),
     HealthPort = env_int g ''HEALTH_PORT'' (HealthPort c),
     MetricsPort = env_int g ''METRICS_PORT'' (MetricsPort c),
     MaxConns = env_int g ''MAX_CONNECTIONS'' (MaxConns c),
     MaxMemory = env_str g ''MAX_MEMORY'' (MaxMemory c), Password = env_str g ''PASSWORD'' (Password c),
     CertFile = env_str g ''CERT_FILE'' (CertFile c), KeyFile = env_str g ''KEY_FILE'' (KeyFile c),
     SocketPath = env_str g ''SOCKET_PATH'' (SocketPath c)\<rparr>"

definition StoreFromEnv :: "(string \<rightharpoonup> string) \<Rightarrow> StoreConfig \<Rightarrow> StoreConfig" where
  "StoreFromEnv g c = \<lparr>st_Type = env_str g ''STORE_TYPE'' (st_Type c),
     st_File = env_str g ''STORE_FILE'' (st_File c),
     ShardCount = env_int g ''SHARD_COUNT'' (ShardCount c), Degree = env_int g ''DEGREE'' (Degree c)\<rparr>"

definition SubFromEnv :: "(string \<rightharpoonup> string) \<Rightarrow> string \<Rightarrow> PersistenceConfig \<Rightarrow> PersistenceConfig" where
  "SubFromEnv g which c = PersistenceConfig (env_str g (''PERSISTENCE_'' @ which @ ''_TYPE'') (pc_Type c))
     (env_str g (''PERSISTENCE_'' @ which @ ''_FILE'') (pc_File c)) (Interval c) (Primary c) (Secondary c)"

definition PersistenceFromEnv :: "(string \<rightharpoonup> string) \<Rightarrow> PersistenceConfig \<Rightarrow> PersistenceConfig" where
  "PersistenceFromEnv g c = PersistenceConfig (env_str g ''PERSISTENCE_TYPE'' (pc_Type c))
     (env_str g ''PERSISTENCE_FILE'' (pc_File c)) (env_str g ''PERSISTENCE_INTERVAL'' (Interval c))
     (map_option (SubFromEnv g ''PRIMARY'') (Primary c))
     (map_option (SubFromEnv g ''SECONDARY'') (Secondary c))"

definition FromEnv :: "(string \<rightharpoonup> string) \<Rightarrow> Config \<Rightarrow> Config" where
  "FromEnv g c = \<lparr>Server = ServerFromEnv g (Server c), Store = StoreFromEnv g (Store c),
     Persistence = PersistenceFromEnv g (Persistence c),
     Eviction = \<lparr>Policy = env_str g ''EVICTION_POLICY'' (Policy (Eviction c)),
       MaxKeys = env_int g ''MAX_KEYS'' (MaxKeys (Eviction c))\<rparr>\<rparr>"

section \<open>Sizes\<close>

definition size_unit :: "string \<Rightarrow> int option" where
  "size_unit sfx =
     (if sfx = ''KB'' \<or> sfx = ''K'' then Some (2 ^ 10)
      else if sfx = ''MB'' \<or> sfx = ''M'' then Some (2 ^ 20)
      else if sfx = ''GB'' \<or> sfx = ''G'' then Some (2 ^ 30)
      else if sfx = ''TB'' \<or> sfx = ''T'' then Some (2 ^ 40)
      else None)"

definition parseBytes :: "string \<Rightarrow> int option" where
  "parseBytes s =
     (if length s < 2 then None
      else let sfx2 = drop (length s - 2) s; sfx1 = drop (length s - 1) s;
               parse = (\<lambda>numStr mult. if numStr = [] then None
                 else case ParseInt numStr of None \<Rightarrow> None | Some n \<Rightarrow> Some (wrap64 (n * mult)))
           in case size_unit sfx2 of
                Some mult \<Rightarrow> parse (take (length s - 2) s) mult
              | None \<Rightarrow>
                  if last s = CHR ''B'' then None
                  else case size_unit sfx1 of
                         Some mult \<Rightarrow> parse (take (length s - 1) s) mult
                       | None \<Rightarrow> parse s 1)"

definition MaxMemoryBytes :: "Config \<Rightarrow> int option" where
  "MaxMemoryBytes c = parseBytes (MaxMemory (Server c))"

section \<open>Validation\<close>

definition validNetworks :: "string list" where
  "validNetworks = [''tcp'', ''tls'', ''unix'', ''http'', ''grpc'']"
definition validStores :: "string list" where
  "validStores = [''map'', ''sharded'', ''syncmap'', ''lockfree'', ''skiplist'', ''bptree'', ''art'',
     ''crdt'', ''bitcask'']"
definition validPersistence :: "string list" where
  "validPersistence = [''null'', ''aof'', ''wal'', ''rdb'', ''dual'']"
definition validEvictions :: "string list" where
  "validEvictions = [''noeviction'', ''allkeys-lru'', ''allkeys-lfu'', ''allkeys-random'', ''volatile-ttl'']"

datatype config_error =
    BadPort | BadHealthPort | BadMetricsPort | BadMaxConns | BadMaxMemory | UnknownNetwork
  | UnknownStore | UnknownPersistence | UnknownEviction | NeedsStoreFile | NeedsCertFile
  | NeedsKeyFile | NeedsSocketPath | NeedsPrimary | NeedsSecondary | NeedsFile | CannotRead | BadYaml
  | CannotOpen | BadInterval | NeedsBoth | DualPrimary config_error | DualSecondary config_error
  | NeedsCertAndKey | StoreError bitcask_error

definition Validate :: "Config \<Rightarrow> config_error option" where
  "Validate c =
     (let s = Server c; t = Store c; p = Persistence c
      in if Port s < 1 \<or> Port s > 65535 then Some BadPort
         else if HealthPort s < 0 \<or> HealthPort s > 65535 then Some BadHealthPort
         else if MetricsPort s < 0 \<or> MetricsPort s > 65535 then Some BadMetricsPort
         else if MaxConns s < 0 then Some BadMaxConns
         else if MaxMemory s \<noteq> [] \<and> parseBytes (MaxMemory s) = None then Some BadMaxMemory
         else if Network s \<notin> set validNetworks then Some UnknownNetwork
         else if st_Type t \<notin> set validStores then Some UnknownStore
         else if pc_Type p \<notin> set validPersistence then Some UnknownPersistence
         else if Policy (Eviction c) \<notin> set validEvictions then Some UnknownEviction
         else if st_Type t = ''bitcask'' \<and> st_File t = [] then Some NeedsStoreFile
         else if Network s = ''tls'' \<and> CertFile s = [] then Some NeedsCertFile
         else if Network s = ''tls'' \<and> KeyFile s = [] then Some NeedsKeyFile
         else if Network s = ''unix'' \<and> SocketPath s = [] then Some NeedsSocketPath
         else if pc_Type p = ''dual'' \<and> Primary p = None then Some NeedsPrimary
         else if pc_Type p = ''dual'' \<and> Secondary p = None then Some NeedsSecondary
         else if (pc_Type p = ''aof'' \<or> pc_Type p = ''wal'' \<or> pc_Type p = ''rdb'') \<and> pc_File p = []
           then Some NeedsFile
         else None)"

definition fill_defaults :: "Config \<Rightarrow> Config" where
  "fill_defaults c =
     (let c1 = c\<lparr>Server := (Server c)\<lparr>Port := if Port (Server c) = 0 then 6379 else Port (Server c),
            Network := if Network (Server c) = [] then ''tcp'' else Network (Server c)\<rparr>\<rparr>;
          c2 = c1\<lparr>Store := (Store c1)\<lparr>st_Type := if st_Type (Store c1) = [] then ''map'' else st_Type (Store c1)\<rparr>\<rparr>;
          p = Persistence c2;
          c3 = c2\<lparr>Persistence := PersistenceConfig (if pc_Type p = [] then ''null'' else pc_Type p)
            (pc_File p) (Interval p) (Primary p) (Secondary p)\<rparr>
      in c3\<lparr>Eviction := (Eviction c3)\<lparr>Policy :=
           if Policy (Eviction c3) = [] then ''noeviction'' else Policy (Eviction c3)\<rparr>\<rparr>)"

definition Load ::
    "(string \<rightharpoonup> string) \<Rightarrow> (string \<Rightarrow> Config option) \<Rightarrow> string option \<Rightarrow> config_error + Config" where
  "Load getenv yaml content =
     (case content of
        None \<Rightarrow> Inl CannotRead
      | Some data \<Rightarrow>
          (case yaml data of
             None \<Rightarrow> Inl BadYaml
           | Some parsed \<Rightarrow>
               let c = fill_defaults (FromEnv getenv parsed)
               in case Validate c of Some err \<Rightarrow> Inl err | None \<Rightarrow> Inr c))"

section \<open>Constructors\<close>

definition buildEvictionPolicy :: "EvictionConfig \<Rightarrow> config_error + policy" where
  "buildEvictionPolicy c =
     (if Policy c = ''allkeys-lru'' then Inr NewLRUPolicy
      else if Policy c = ''allkeys-lfu'' then Inr NewLFUPolicy
      else if Policy c = ''allkeys-random'' then Inr RandomPolicy
      else if Policy c = ''volatile-ttl'' then Inr TTLPolicy
      else if Policy c = ''noeviction'' then Inr NoEviction
      else Inl UnknownEviction)"

text \<open>
  The backends behind the interface \<open>Persistence\<close>. \<open>fs path\<close> is what opening the path finds: nothing
  when it cannot be opened or created, else the contents, if there is a file. The
  interval of an RDB sets the pace of its loop, which the model of the RDB leaves to the caller of
  \<open>Snapshot\<close>; that a ticker refuses an interval of zero or less is outside the model.
\<close>

datatype backend = BNull | BAof ofile | BWal WAL | BRdb RDB | BDual backend backend

fun buildPersistence ::
    "(string \<Rightarrow> int option) \<Rightarrow> (string \<Rightarrow> string option option) \<Rightarrow> PersistenceConfig
      \<Rightarrow> config_error + backend" where
  "buildPersistence parseDuration fs (PersistenceConfig t f i p q) =
     (if t = ''aof'' then
        (case fs f of None \<Rightarrow> Inl CannotOpen
         | Some disk \<Rightarrow> Inr (BAof (NewAOF (case disk of None \<Rightarrow> [] | Some d \<Rightarrow> d))))
      else if t = ''wal'' then
        (case fs f of None \<Rightarrow> Inl CannotOpen
         | Some disk \<Rightarrow> Inr (BWal (NewWAL (case disk of None \<Rightarrow> [] | Some d \<Rightarrow> d))))
      else if t = ''rdb'' then
        (if i \<noteq> [] \<and> parseDuration i = None then Inl BadInterval
         else Inr (BRdb (NewRDB (case fs f of None \<Rightarrow> None | Some disk \<Rightarrow> disk))))
      else if t = ''dual'' then
        (case p of None \<Rightarrow> Inl NeedsBoth
         | Some p' \<Rightarrow> (case q of None \<Rightarrow> Inl NeedsBoth
           | Some q' \<Rightarrow>
               (case buildPersistence parseDuration fs p' of Inl e \<Rightarrow> Inl (DualPrimary e)
                | Inr primary \<Rightarrow>
                    (case buildPersistence parseDuration fs q' of Inl e \<Rightarrow> Inl (DualSecondary e)
                     | Inr secondary \<Rightarrow> Inr (BDual primary secondary)))))
      else Inr BNull)"

text \<open>Calls of the interface's methods go to the backend's own.\<close>

fun backend_Write :: "Command \<Rightarrow> backend \<Rightarrow> backend" where
  "backend_Write c BNull = BNull"
| "backend_Write c (BAof f) = BAof (AOF_Write c f)"
| "backend_Write c (BWal w) = BWal (WAL_Write c w)"
| "backend_Write c (BRdb r) = BRdb (RDB_Write c r)"
| "backend_Write c (BDual p q) = BDual (backend_Write c p) (backend_Write c q)"

fun backend_Replay :: "(string \<Rightarrow> string) \<Rightarrow> backend \<Rightarrow> (Command list \<times> replay_end \<times> backend) option" where
  "backend_Replay up BNull = Some ([], Finished, BNull)"
| "backend_Replay up (BAof f) = map_option (\<lambda>(cs, e, f'). (cs, e, BAof f')) (AOF_Replay up f)"
| "backend_Replay up (BWal w) = map_option (\<lambda>(cs, e, w'). (cs, e, BWal w')) (WAL_Replay up w)"
| "backend_Replay up (BRdb r) = map_option (\<lambda>(cs, e, r'). (cs, e, BRdb r')) (RDB_Replay r)"
| "backend_Replay up (BDual p q) = map_option (\<lambda>(cs, e, p'). (cs, e, BDual p' q)) (backend_Replay up p)"

datatype any_network =
    NetTCP string TCP | NetTLS string TLS | NetUnix string Unix | NetHTTP string | NetGRPC string

definition BuildNetwork :: "ServerConfig \<Rightarrow> config_error + any_network" where
  "BuildNetwork c =
     (let addr = CHR '':'' # Itoa (Port c)
      in if Network c = ''tcp'' then Inr (NetTCP addr \<lparr>tcp_maxConns = MaxConns c, tcp_password = Password c\<rparr>)
         else if Network c = ''tls'' then
           (if CertFile c = [] \<or> KeyFile c = [] then Inl NeedsCertAndKey
            else Inr (NetTLS addr \<lparr>tls_cert = CertFile c, tls_key = KeyFile c,
              tls_maxConns = MaxConns c, tls_password = Password c\<rparr>))
         else if Network c = ''unix'' then
           (if SocketPath c = [] then Inl NeedsSocketPath
            else Inr (NetUnix (SocketPath c) \<lparr>ux_maxConns = MaxConns c, ux_password = Password c\<rparr>))
         else if Network c = ''http'' then Inr (NetHTTP addr)
         else if Network c = ''grpc'' then Inr (NetGRPC addr)
         else Inl UnknownNetwork)"

text \<open>The password a client of the transport must give; the last two transports have none.\<close>

fun net_password :: "any_network \<Rightarrow> string" where
  "net_password (NetTCP a t) = tcp_password t"
| "net_password (NetTLS a t) = tls_password t"
| "net_password (NetUnix a t) = ux_password t"
| "net_password (NetHTTP a) = []"
| "net_password (NetGRPC a) = []"

section \<open>Lemmas\<close>

lemma check_passed: "(if b then Some e else next) = None \<longleftrightarrow> \<not> b \<and> next = None"
  by simp

lemma Validate_ok:
  assumes "Validate c = None"
  shows "1 \<le> Port (Server c) \<and> Port (Server c) \<le> 65535" and "Network (Server c) \<in> set validNetworks"
    and "Policy (Eviction c) \<in> set validEvictions" and "0 \<le> MaxConns (Server c)"
    and "Network (Server c) = ''tls'' \<Longrightarrow> CertFile (Server c) \<noteq> [] \<and> KeyFile (Server c) \<noteq> []"
    and "Network (Server c) = ''unix'' \<Longrightarrow> SocketPath (Server c) \<noteq> []"
  using assms unfolding Validate_def Let_def check_passed by simp_all

lemma buildEvictionPolicy_ok:
  assumes "Policy c \<in> set validEvictions"
  shows "\<exists>p. buildEvictionPolicy c = Inr p
    \<and> Name p = (if Policy c = ''noeviction'' then ''none'' else Policy c)"
proof -
  consider "Policy c = ''noeviction''" | "Policy c = ''allkeys-lru''" | "Policy c = ''allkeys-lfu''"
    | "Policy c = ''allkeys-random''" | "Policy c = ''volatile-ttl''"
    using assms by (auto simp: validEvictions_def)
  then show ?thesis
    by cases (simp_all add: buildEvictionPolicy_def NewLRUPolicy_def NewLFUPolicy_def)
qed

lemma BuildNetwork_ok:
  assumes "Validate c = None"
  shows "\<exists>n. BuildNetwork (Server c) = Inr n
    \<and> (Network (Server c) \<in> {''tcp'', ''tls'', ''unix''} \<longrightarrow> net_password n = Password (Server c))"
proof -
  consider "Network (Server c) = ''tcp''" | "Network (Server c) = ''tls''" | "Network (Server c) = ''unix''"
    | "Network (Server c) = ''http''" | "Network (Server c) = ''grpc''"
    using Validate_ok(2) [OF assms] by (auto simp: validNetworks_def)
  then show ?thesis
    using Validate_ok(5,6) [OF assms] by cases (simp_all add: BuildNetwork_def)
qed

lemma parseBytes_unit:
  assumes "size_unit u = Some mult" "length u = 2" "int n \<le> max_int64"
  shows "parseBytes (dec n @ u) = Some (wrap64 (int n * mult))"
  using assms by (simp add: parseBytes_def Let_def ParseInt_dec dec_not_Nil)

section \<open>Properties\<close>

text \<open>
  C34: A configuration that \<open>Validate\<close> accepts has a port in range, a policy that
  \<open>buildEvictionPolicy\<close> constructs under its configured name, and a transport that \<open>BuildNetwork\<close>
  constructs; the connection-oriented transports carry the configured password.
\<close>

theorem validated_config_builds:
  assumes "Validate c = None"
  shows "1 \<le> Port (Server c) \<and> Port (Server c) \<le> 65535
    \<and> (\<exists>p. buildEvictionPolicy (Eviction c) = Inr p
          \<and> Name p = (if Policy (Eviction c) = ''noeviction'' then ''none'' else Policy (Eviction c)))
    \<and> (\<exists>n. BuildNetwork (Server c) = Inr n
          \<and> (Network (Server c) \<in> {''tcp'', ''tls'', ''unix''} \<longrightarrow> net_password n = Password (Server c)))"
  using Validate_ok(1) [OF assms] buildEvictionPolicy_ok [OF Validate_ok(3) [OF assms]]
    BuildNetwork_ok [OF assms] by simp

lemma Default_valid: "Validate Default = None"
  by (simp add: Validate_def Default_def validNetworks_def validStores_def validPersistence_def
      validEvictions_def)

theorem validated_config_builds_witness:
  "\<exists>n. BuildNetwork (Server Default) = Inr n \<and> net_password n = []"
  using validated_config_builds [OF Default_valid] by (auto simp: Default_def)



text \<open>
  \<open>Validate\<close> does not look inside a dual backend: whatever the type of the two halves, it accepts
  the configuration, and a type the constructor does not know becomes a backend that discards every
  write and replays nothing.
\<close>

theorem dual_halves_not_validated:
  assumes "t \<notin> {''aof'', ''wal'', ''rdb'', ''dual''}"
  shows "Validate (Default\<lparr>Persistence := PersistenceConfig ''dual'' [] []
      (Some (PersistenceConfig t f i p q)) (Some (PersistenceConfig t f i p q))\<rparr>) = None
    \<and> buildPersistence parseDuration fs (PersistenceConfig ''dual'' [] []
      (Some (PersistenceConfig t f i p q)) (Some (PersistenceConfig t f i p q))) = Inr (BDual BNull BNull)
    \<and> backend_Replay up (backend_Write c (BDual BNull BNull)) = Some ([], Finished, BDual BNull BNull)"
  using assms by (simp add: Validate_def Default_def validNetworks_def validStores_def
      validPersistence_def validEvictions_def)

theorem dual_halves_not_validated_witness:
  "buildPersistence (\<lambda>_. None) (\<lambda>_. None) (PersistenceConfig ''dual'' [] []
      (Some (PersistenceConfig ''AOF'' ''a.aof'' [] None None))
      (Some (PersistenceConfig ''AOF'' ''a.aof'' [] None None))) = Inr (BDual BNull BNull)"
  using dual_halves_not_validated [of "''AOF''" "''a.aof''" "[]" None None "\<lambda>_. None" "\<lambda>_. None"]
  by simp

end
