(* ===== verification/Server_Main.thy ===== *)
theory Server_Main
  imports Config Ttl_Properties
begin

text \<open>
  The life of the process (\<open>main.go\<close>): replay the log into a new store, serve commands, close the
  backend and the store. The theorems follow the data across a restart: from the commands that the
  handlers executed, through the backend, to the store that the next process starts with.
\<close>

section \<open>Start, service and stop\<close>

text \<open>The function that \<open>main\<close> passes to \<open>Replay\<close>.\<close>

definition replay_cmd :: "'s store_ops \<Rightarrow> env \<Rightarrow> Command \<Rightarrow> 's TTLStore \<Rightarrow> 's TTLStore res" where
  "replay_cmd ops e c t =
     (let args = cmd_Args c
      in if cmd_Name c = ''SET''
         then if length args \<ge> 2 then TTL_Set ops e (args ! 0) (args ! 1) t else Inr t
         else if cmd_Name c = ''HSET''
         then if length args \<ge> 3 then TTL_HSet ops e (args ! 0) (args ! 1) (args ! 2) t else Inr t
         else Inr t)"

fun replay_into :: "'s store_ops \<Rightarrow> (nat \<Rightarrow> env) \<Rightarrow> Command list \<Rightarrow> 's TTLStore \<Rightarrow> 's TTLStore res" where
  "replay_into ops envs [] t = Inr t"
| "replay_into ops envs (c # cs) t =
     bindr (replay_cmd ops (envs 0) c t) (replay_into ops (\<lambda>i. envs (Suc i)) cs)"

text \<open>
  \<open>main\<close> ignores the error that \<open>Replay\<close> returns and serves what was replayed. \<open>None\<close> stands for a
  replay that does not return, a left value for one that takes the process down.
\<close>

definition main_start ::
    "'s store_ops \<Rightarrow> 'p persistence_ops \<Rightarrow> (nat \<Rightarrow> env) \<Rightarrow> 's TTLStore \<Rightarrow> 'p \<Rightarrow> ('s, 'p) server res option" where
  "main_start ops pops envs t p =
     (case pp_Replay pops p of
        None \<Rightarrow> None
      | Some (cs, ending, p') \<Rightarrow>
          Some (bindr (replay_into ops envs cs t) (\<lambda>t'.
            if ending = Crashed then Inl Panic else Inr \<lparr>sv_store = t', sv_pers = p'\<rparr>)))"

definition main_stop ::
    "'s store_ops \<Rightarrow> 'p persistence_ops \<Rightarrow> ('s, 'p) server \<Rightarrow> ('s, 'p) server res" where
  "main_stop ops pops s =
     (let s1 = s\<lparr>sv_pers := pp_Close pops (sv_pers s)\<rparr>
      in bindr (TTL_Close ops (sv_store s1)) (\<lambda>t. Inr (s1\<lparr>sv_store := t\<rparr>)))"

text \<open>A command that arrives at a transport which has found its handler.\<close>

fun serve ::
    "'s store_ops \<Rightarrow> 'p persistence_ops \<Rightarrow> (env \<times> string \<times> Value list) list \<Rightarrow> ('s, 'p) server
      \<Rightarrow> (Value list \<times> ('s, 'p) server) res" where
  "serve ops pops [] s = Inr ([], s)"
| "serve ops pops ((e, command, args) # cs) s =
     (case main_handlers ops command of
        None \<Rightarrow> serve ops pops cs s
      | Some handler \<Rightarrow>
          bindr (exec ops pops e command handler args s) (\<lambda>(r, s1).
          bindr (serve ops pops cs s1) (\<lambda>(rs, s2). Inr (r # rs, s2))))"

section \<open>Replaying into a store\<close>

definition cmd_key :: "Command \<Rightarrow> string option" where
  "cmd_key c =
     (if cmd_Name c = ''SET'' \<and> length (cmd_Args c) \<ge> 2 \<or> cmd_Name c = ''HSET'' \<and> length (cmd_Args c) \<ge> 3
      then Some (cmd_Args c ! 0) else None)"

lemma two_args: "2 \<le> length xs \<longleftrightarrow> (\<exists>x y ys. xs = x # y # ys)"
  by (cases xs; cases "tl xs") auto

lemma three_args: "3 \<le> length xs \<longleftrightarrow> (\<exists>x y z ys. xs = x # y # z # ys)"
  by (cases xs; cases "tl xs"; cases "tl (tl xs)") auto

lemma apply_cmd_eq:
  "apply_cmd c a =
     (if cmd_Name c = ''SET'' \<and> length (cmd_Args c) \<ge> 2 then a_set (cmd_Args c ! 0) (cmd_Args c ! 1) a
      else if cmd_Name c = ''HSET'' \<and> length (cmd_Args c) \<ge> 3
      then a_hset (cmd_Args c ! 0) (cmd_Args c ! 1) (cmd_Args c ! 2) a else a)"
  by (auto simp: apply_cmd_def two_args three_args split: list.splits)

lemma a_keys_apply_cmd: "a_keys (apply_cmd c a) = a_keys a \<union> set_option (cmd_key c)"
  by (auto simp: apply_cmd_eq cmd_key_def)

lemma a_keys_apply_cmds: "a_keys (apply_cmds cs a) = a_keys a \<union> {k. \<exists>c \<in> set cs. cmd_key c = Some k}"
  by (induction cs arbitrary: a) (auto simp: a_keys_apply_cmd)

lemma evict_unlimited: "tt_maxKeys t \<le> 0 \<Longrightarrow> evictIfNeeded ops e t = Inr t"
  by (simp add: evictIfNeeded_def)

text \<open>\<open>same_setup t t'\<close>: what neither a write nor a replay changes.\<close>

definition same_setup :: "'s TTLStore \<Rightarrow> 's TTLStore \<Rightarrow> bool" where
  "same_setup t t' \<longleftrightarrow> tt_maxKeys t' = tt_maxKeys t \<and> tt_done t' = tt_done t"

context total_store
begin

lemma TTL_Set_unlimited:
  assumes "ttl_inv invar abst okkey t" and "tt_maxKeys t \<le> 0" and "okkey k"
  shows "\<exists>t'. TTL_Set ops e k v t = Inr t' \<and> ttl_inv invar abst okkey t' \<and> same_setup t t'
    \<and> abst (tt_inner t') = a_set k v (abst (tt_inner t))"
  using TTL_Set_pre [OF assms(1,3), of v e] assms(2) by (auto simp: evict_unlimited same_setup_def)

lemma SetWithTTL_unlimited:
  assumes "ttl_inv invar abst okkey t" and "tt_maxKeys t \<le> 0" and "okkey k"
  shows "\<exists>t'. SetWithTTL ops e k v d t = Inr t' \<and> ttl_inv invar abst okkey t' \<and> same_setup t t'
    \<and> abst (tt_inner t') = a_set k v (abst (tt_inner t))"
  using SetWithTTL_pre [OF assms(1,3), of v e d] assms(2) by (auto simp: evict_unlimited same_setup_def)

lemma TTL_HSet_unlimited:
  assumes "ttl_inv invar abst okkey t" and "tt_maxKeys t \<le> 0" and "okkey h"
  shows "\<exists>t'. TTL_HSet ops e h f v t = Inr t' \<and> ttl_inv invar abst okkey t' \<and> same_setup t t'
    \<and> abst (tt_inner t') = a_hset h f v (abst (tt_inner t))"
  using TTL_HSet_pre [OF assms(1,3), of f v e] assms(2) by (auto simp: evict_unlimited same_setup_def)

lemma replay_cmd_spec:
  assumes "ttl_inv invar abst okkey t" and "tt_maxKeys t \<le> 0" and "\<And>k. cmd_key c = Some k \<Longrightarrow> okkey k"
  shows "\<exists>t'. replay_cmd ops e c t = Inr t' \<and> ttl_inv invar abst okkey t' \<and> same_setup t t'
    \<and> abst (tt_inner t') = apply_cmd c (abst (tt_inner t))"
proof -
  consider "cmd_Name c = ''SET''" "length (cmd_Args c) \<ge> 2" | "cmd_Name c = ''HSET''" "length (cmd_Args c) \<ge> 3"
    | "cmd_key c = None" by (metis cmd_key_def)
  then show ?thesis
  proof cases
    case 1
    then show ?thesis
      using TTL_Set_unlimited [OF assms(1,2), of "cmd_Args c ! 0"] assms(3)
      by (simp add: replay_cmd_def apply_cmd_eq cmd_key_def Let_def)
  next
    case 2
    then show ?thesis
      using TTL_HSet_unlimited [OF assms(1,2), of "cmd_Args c ! 0"] assms(3)
      by (simp add: replay_cmd_def apply_cmd_eq cmd_key_def Let_def)
  next
    case 3
    then show ?thesis
      using assms(1) by (auto simp: replay_cmd_def apply_cmd_eq cmd_key_def same_setup_def Let_def split: if_splits)
  qed
qed

lemma replay_into_spec:
  assumes "ttl_inv invar abst okkey t" and "tt_maxKeys t \<le> 0"
    and "\<forall>k. (\<exists>c \<in> set cs. cmd_key c = Some k) \<longrightarrow> okkey k"
  shows "\<exists>t'. replay_into ops envs cs t = Inr t' \<and> ttl_inv invar abst okkey t' \<and> same_setup t t'
    \<and> abst (tt_inner t') = apply_cmds cs (abst (tt_inner t))"
  using assms
proof (induction cs arbitrary: t envs)
  case Nil
  then show ?case by (simp add: same_setup_def)
next
  case (Cons c cs)
  obtain t1 where t1: "replay_cmd ops (envs 0) c t = Inr t1" "ttl_inv invar abst okkey t1" "same_setup t t1"
    "abst (tt_inner t1) = apply_cmd c (abst (tt_inner t))"
    using replay_cmd_spec [OF Cons.prems(1,2), of c "envs 0"] Cons.prems(3) by auto
  have "tt_maxKeys t1 \<le> 0" using t1(3) Cons.prems(2) by (simp add: same_setup_def)
  from Cons.IH [OF t1(2) this, of "\<lambda>i. envs (Suc i)"] Cons.prems(3) t1 show ?case
    by (auto simp: same_setup_def)
qed

text \<open>
  \<open>SET\<close> in all its forms and \<open>HSET\<close> with three arguments do to the store what replaying the logged
  command does.
\<close>

lemma write_handler_spec:
  assumes "ttl_inv invar abst okkey t" and "tt_maxKeys t \<le> 0" and "main_handlers ops command = Some h"
    and "command = ''SET'' \<or> command = ''HSET'' \<and> length args \<le> 3"
    and "\<And>k. cmd_key (mk_cmd command (map Bulk args)) = Some k \<Longrightarrow> okkey k"
  shows "\<exists>r t'. h e args t = Inr (r, t') \<and> ttl_inv invar abst okkey t' \<and> same_setup t t'
    \<and> abst (tt_inner t') = apply_cmd (mk_cmd command (map Bulk args)) (abst (tt_inner t))"
  using assms(4)
proof
  assume c: "command = ''SET''"
  then have h: "h = setHandler ops"
    using assms(3) by (simp add: main_handlers_def instrument_def NewHandlers_def)
  show ?thesis
  proof (cases "length args \<ge> 2")
    case True
    then obtain x y ys where xy: "args = x # y # ys" by (auto simp: two_args)
    then have "okkey (Bulk (args ! 0))" using assms(5) c by (simp add: cmd_key_def)
    then show ?thesis
      using xy c h TTL_Set_unlimited [OF assms(1,2), of "Bulk (args ! 0)"]
        SetWithTTL_unlimited [OF assms(1,2), of "Bulk (args ! 0)"]
      by (auto simp: setHandler_def apply_cmd_eq Let_def res_simps split: option.splits)
  qed (use assms(1) c h in \<open>auto simp: setHandler_def apply_cmd_eq same_setup_def\<close>)
next
  assume c: "command = ''HSET'' \<and> length args \<le> 3"
  then have h: "h = hsetHandler ops"
    using assms(3) by (simp add: main_handlers_def instrument_def NewHandlers_def)
  show ?thesis
  proof (cases "length args = 3")
    case True
    then obtain x y z where xyz: "args = [x, y, z]" by (auto simp: length_Suc_conv numeral_3_eq_3)
    then have "okkey (Bulk (args ! 0))" using assms(5) c by (simp add: cmd_key_def)
    then show ?thesis
      using xyz c h TTL_HSet_unlimited [OF assms(1,2), of "Bulk (args ! 0)"]
      by (auto simp: hsetHandler_def apply_cmd_eq res_simps)
  qed (use assms(1) c h in \<open>auto simp: hsetHandler_def apply_cmd_eq same_setup_def\<close>)
qed

end

section \<open>The store and the backend in step\<close>

text \<open>
  A running server without a limit on keys whose backend stands for the contents of its store, and
  the store that \<open>Build\<close> hands to \<open>main\<close>.
\<close>

definition in_step where
  "in_step invar abst okkey pinvar pstate s \<longleftrightarrow> ttl_inv invar abst okkey (sv_store s)
     \<and> tt_maxKeys (sv_store s) \<le> 0 \<and> \<not> tt_done (sv_store s)
     \<and> pinvar (sv_pers s) \<and> pstate (sv_pers s) = abst (tt_inner (sv_store s))"

definition fresh where
  "fresh invar abst okkey t \<longleftrightarrow> ttl_inv invar abst okkey t \<and> tt_maxKeys t \<le> 0
     \<and> abst (tt_inner t) = a_empty"

fun logged :: "env \<times> string \<times> Value list \<Rightarrow> Command" where
  "logged (e, command, args) = mk_cmd command (map Bulk args)"

fun accepted_write :: "(string \<Rightarrow> bool) \<Rightarrow> env \<times> string \<times> Value list \<Rightarrow> bool" where
  "accepted_write okkey (e, command, args) \<longleftrightarrow>
     (command = ''SET'' \<or> command = ''HSET'' \<and> length args \<le> 3)
     \<and> (case cmd_key (mk_cmd command (map Bulk args)) of None \<Rightarrow> True | Some k \<Rightarrow> okkey k)"

lemma write_handlers: "command = ''SET'' \<or> command = ''HSET'' \<Longrightarrow> \<exists>h. main_handlers ops command = Some h"
  by (auto simp: main_handlers_def NewHandlers_def)

lemma onWrite_write:
  "command = ''SET'' \<or> command = ''HSET'' \<Longrightarrow>
    onWrite pops command args s = s\<lparr>sv_pers := pp_Write pops (mk_cmd command (map Bulk args)) (sv_pers s)\<rparr>"
  by (simp add: onWrite_def)

lemma serve_write:
  assumes "total_store ops invar abst okkey" and "restartable pops reopen pinvar pstate okcmd"
    and "in_step invar abst okkey pinvar pstate s" and "accepted_write okkey c" and "okcmd (logged c) (sv_pers s)"
  shows "\<exists>r s'. (\<forall>cs. serve ops pops (c # cs) s
        = bindr (serve ops pops cs s') (\<lambda>(rs, s2). Inr (r # rs, s2)))
    \<and> in_step invar abst okkey pinvar pstate s' \<and> sv_pers s' = pp_Write pops (logged c) (sv_pers s)
    \<and> abst (tt_inner (sv_store s')) = apply_cmd (logged c) (abst (tt_inner (sv_store s)))"
proof -
  obtain e command args where c: "c = (e, command, args)" by (cases c)
  then have w: "command = ''SET'' \<or> command = ''HSET'' \<and> length args \<le> 3"
    and k: "\<And>k. cmd_key (mk_cmd command (map Bulk args)) = Some k \<Longrightarrow> okkey k"
    using assms(4) by auto
  then have cmd: "command = ''SET'' \<or> command = ''HSET''" by blast
  then obtain h where h: "main_handlers ops command = Some h" using write_handlers by blast
  have st: "ttl_inv invar abst okkey (sv_store s)" "tt_maxKeys (sv_store s) \<le> 0" "\<not> tt_done (sv_store s)"
    "pinvar (sv_pers s)" "pstate (sv_pers s) = abst (tt_inner (sv_store s))"
    using assms(3) by (simp_all add: in_step_def)
  obtain r t' where t': "h e args (sv_store s) = Inr (r, t')" "ttl_inv invar abst okkey t'"
    "same_setup (sv_store s) t'" "abst (tt_inner t') = apply_cmd (logged c) (abst (tt_inner (sv_store s)))"
    using total_store.write_handler_spec [OF assms(1) st(1,2) h w k, of e] c by auto
  let ?s' = "s\<lparr>sv_store := t', sv_pers := pp_Write pops (logged c) (sv_pers s)\<rparr>"
  have "exec ops pops e command h args s = Inr (r, ?s')"
    using t'(1) c by (simp add: exec_def onWrite_write [OF cmd])
  then have "\<forall>cs. serve ops pops (c # cs) s = bindr (serve ops pops cs ?s') (\<lambda>(rs, s2). Inr (r # rs, s2))"
    using c h by simp
  moreover have "in_step invar abst okkey pinvar pstate ?s'"
    using t' st restartable.Write_law [OF assms(2) st(4) assms(5)] by (simp add: in_step_def same_setup_def)
  ultimately show ?thesis using t'(4) by (intro exI [of _ r] exI [of _ ?s']) simp
qed

lemma serve_writes:
  assumes "total_store ops invar abst okkey" and "restartable pops reopen pinvar pstate okcmd"
    and "in_step invar abst okkey pinvar pstate s" and "\<forall>c \<in> set cs. accepted_write okkey c"
    and "oks pops okcmd (map logged cs) (sv_pers s)"
  shows "\<exists>rs s'. serve ops pops cs s = Inr (rs, s') \<and> in_step invar abst okkey pinvar pstate s'
    \<and> abst (tt_inner (sv_store s')) = apply_cmds (map logged cs) (abst (tt_inner (sv_store s)))"
  using assms(3-)
proof (induction cs arbitrary: s)
  case Nil
  then show ?case by simp
next
  case (Cons c cs)
  obtain r s1 where s1: "serve ops pops (c # cs) s
        = bindr (serve ops pops cs s1) (\<lambda>(rs, s2). Inr (r # rs, s2))"
    "in_step invar abst okkey pinvar pstate s1" "sv_pers s1 = pp_Write pops (logged c) (sv_pers s)"
    "abst (tt_inner (sv_store s1)) = apply_cmd (logged c) (abst (tt_inner (sv_store s)))"
    using serve_write [OF assms(1,2) Cons.prems(1), of c] Cons.prems(2,3) by auto
  then obtain rs s2 where "serve ops pops cs s1 = Inr (rs, s2)" "in_step invar abst okkey pinvar pstate s2"
    "abst (tt_inner (sv_store s2)) = apply_cmds (map logged cs) (abst (tt_inner (sv_store s1)))"
    using Cons.IH [OF s1(2)] Cons.prems(2,3) by auto
  then show ?case using s1 by simp
qed

lemma start_recovers:
  assumes "total_store ops invar abst okkey" and "restartable pops reopen pinvar pstate okcmd"
    and "fresh invar abst okkey t0" and "pinvar p" and "\<forall>k \<in> a_keys (pstate p). okkey k"
  shows "\<exists>s. main_start ops pops envs t0 (reopen (pp_Close pops p)) = Some (Inr s)
    \<and> ttl_inv invar abst okkey (sv_store s) \<and> abst (tt_inner (sv_store s)) = pstate p"
proof -
  obtain cs p' where r: "pp_Replay pops (reopen (pp_Close pops p)) = Some (cs, Finished, p')"
    "apply_cmds cs a_empty = pstate p"
    using restartable.Replay_law [OF assms(2,4)] by blast
  then have "\<forall>k. (\<exists>c \<in> set cs. cmd_key c = Some k) \<longrightarrow> okkey k"
    using a_keys_apply_cmds [of cs a_empty] assms(5) by auto
  from total_store.replay_into_spec [OF assms(1) _ _ this, of t0 envs] r assms(3) show ?thesis
    by (auto simp: main_start_def fresh_def)
qed

lemma main_stop_in_step:
  assumes "in_step invar abst okkey pinvar pstate s"
  shows "\<exists>s'. main_stop ops pops s = Inr s' \<and> sv_pers s' = pp_Close pops (sv_pers s)"
  using assms by (simp add: main_stop_def TTL_Close_def in_step_def)

section \<open>Properties\<close>


text \<open>A server on a map store and an append-only file, with one key that expires at 10.\<close>

definition aof_server :: "(MapStore, ofile) server" where
  "aof_server = \<lparr>sv_store = one_key NoEviction 0, sv_pers = AOF_Write (set_cmd ''a'' ''x'') (NewAOF [])\<rparr>"

lemma aof_ok_small: "length (f_data f) \<le> 3000 \<Longrightarrow> length (aof_bytes c) \<le> 1000 \<Longrightarrow> write_cmd c \<Longrightarrow> AOF_ok c f"
  by (simp add: AOF_ok_def)

lemma aof_server_length: "length (f_data (sv_pers aof_server)) \<le> 3000"
  by code_simp

abbreviation aof_in_step :: "(MapStore, ofile) server \<Rightarrow> bool" where
  "aof_in_step \<equiv> in_step (\<lambda>_. True) MapStore_abs (\<lambda>_. True) AOF_inv (\<lambda>f. apply_cmds (aof_cmds id f) a_empty)"

lemma aof_server_in_step: "aof_in_step aof_server"
proof -
  have "length (aof_bytes (set_cmd ''a'' ''x'')) \<le> 1000" by code_simp
  then have "AOF_ok (set_cmd ''a'' ''x'') (NewAOF [])"
    by (intro aof_ok_small) (simp_all add: NewAOF_def f_open_def write_cmd_def set_cmd_def)
  from aof.Write_law [OF AOF_new(1) this, of id] AOF_new(2) [of id]
  show ?thesis
    using one_key_good_instances(1) [of 0]
    by (simp add: in_step_def aof_server_def AOF_ops_def one_key_def apply_cmd_eq set_cmd_def
        MapStore_abs_def MapStore_defs a_defs)
qed

lemma map_fresh: "fresh (\<lambda>_. True) MapStore_abs (\<lambda>_. True) (map_ttl NoEviction 0)"
  by (simp add: fresh_def ttl_inv_def SetEvictionPolicy_def NewTTLStore_def MapStore_abs_def
      MapStore_defs NewMapStore_def a_keys_def a_empty_def)


text \<open>
  C36: A deletion does not survive a restart, since \<open>main\<close> logs only \<open>SET\<close> and \<open>HSET\<close>: \<open>DEL\<close> of a key
  with a value removes it and replies 1, and after a stop and a start the key has its value again.
\<close>

theorem restart_undoes_del:
  assumes "total_store ops invar abst okkey" and "restartable pops reopen pinvar pstate okcmd"
    and "in_step invar abst okkey pinvar pstate s" and "fresh invar abst okkey t0"
    and "astr (abst (tt_inner (sv_store s))) k = Some v" and "okkey k" and "\<not> isExpired (clk e 0) k (sv_store s)"
  shows "\<exists>s1 s2 s3. serve ops pops [(e, ''DEL'', [bulk_value k])] s = Inr ([int_value 1], s1)
    \<and> astr (abst (tt_inner (sv_store s1))) k = None \<and> main_stop ops pops s1 = Inr s2
    \<and> main_start ops pops envs t0 (reopen (sv_pers s2)) = Some (Inr s3)
    \<and> astr (abst (tt_inner (sv_store s3))) k = Some v"
proof -
  let ?t = "(sv_store s)\<lparr>tt_policy := Record k (clk e 1) (tt_policy (sv_store s))\<rparr>"
  have st: "ttl_inv invar abst okkey (sv_store s)" "\<not> tt_done (sv_store s)" "pinvar (sv_pers s)"
    "pstate (sv_pers s) = abst (tt_inner (sv_store s))"
    using assms(3) by (simp_all add: in_step_def)
  obtain i where i: "inner_Del ops k (untrack k ?t) = Inr ((untrack k ?t)\<lparr>tt_inner := i\<rparr>)"
    "abst i = a_del k (abst (tt_inner (sv_store s)))"
    using total_store.drop_key [OF assms(1) total_store.record_good [OF assms(1) st(1)] assms(6)]
    by fastforce
  let ?s1 = "s\<lparr>sv_store := (untrack k ?t)\<lparr>tt_inner := i\<rparr>\<rparr>"
  have "main_handlers ops ''DEL'' = Some (delHandler ops)"
    by (simp add: main_handlers_def instrument_def NewHandlers_def)
  then have "serve ops pops [(e, ''DEL'', [bulk_value k])] s = Inr ([int_value 1], ?s1)"
    using i(1) total_store.TTL_Get_live [OF assms(1) st(1) assms(6,7)] assms(5)
    by (simp add: exec_def onWrite_def delHandler_def TTL_Del_def bulk_value_def)
  moreover obtain s2 where "main_stop ops pops ?s1 = Inr s2" "sv_pers s2 = pp_Close pops (sv_pers s)"
    using st(2) by (simp add: main_stop_def TTL_Close_def untrack_def)
  moreover obtain s3 where "main_start ops pops envs t0 (reopen (pp_Close pops (sv_pers s))) = Some (Inr s3)"
    "abst (tt_inner (sv_store s3)) = abst (tt_inner (sv_store s))"
    using start_recovers [OF assms(1,2,4) st(3), of envs] st(1,4) by (auto simp: ttl_inv_def)
  ultimately show ?thesis
    using assms(5) i(2) by (intro exI [of _ ?s1] exI [of _ s2] exI [of _ s3]) (simp add: a_del_def)
qed

theorem restart_undoes_del_witness:
  "\<exists>s1 s2 s3. serve MapStore_ops (AOF_ops id) [(env_at 1, ''DEL'', [bulk_value ''a''])] aof_server
        = Inr ([int_value 1], s1)
    \<and> main_stop MapStore_ops (AOF_ops id) s1 = Inr s2
    \<and> main_start MapStore_ops (AOF_ops id) (\<lambda>_. env_at 2) (map_ttl NoEviction 0) (NewAOF (f_data (sv_pers s2)))
        = Some (Inr s3)
    \<and> astr (MapStore_abs (tt_inner (sv_store s3))) ''a'' = Some ''x''"
proof -
  have "astr (MapStore_abs (tt_inner (sv_store aof_server))) ''a'' = Some ''x''"
    "\<not> isExpired (clk (env_at 1) 0) ''a'' (sv_store aof_server)"
    by (simp_all add: aof_server_def one_key_def MapStore_abs_def MapStore_defs isExpired_def)
  from restart_undoes_del [OF mapst.total_store_axioms aof.restartable_axioms aof_server_in_step map_fresh
      this(1) TrueI this(2), of "\<lambda>_. env_at 2"] show ?thesis by blast
qed

text \<open>
  A rejected command takes effect at the next start. \<open>HSET\<close> with more than three arguments is logged
  before its handler refuses it: the client gets the error and the store is unchanged, but the new
  process replays the command and has the field.
\<close>

theorem rejected_hset_replayed:
  assumes "total_store ops invar abst okkey" and "restartable pops reopen pinvar pstate okcmd"
    and "in_step invar abst okkey pinvar pstate s" and "fresh invar abst okkey t0"
    and "args = map bulk_value (h # f # v # x # xs)" and "okkey h" and "okcmd (logged (e, ''HSET'', args)) (sv_pers s)"
  shows "\<exists>s1 s2 s3. serve ops pops [(e, ''HSET'', args)] s = Inr ([wrong_args ''hset''], s1)
    \<and> sv_store s1 = sv_store s \<and> main_stop ops pops s1 = Inr s2
    \<and> main_start ops pops envs t0 (reopen (sv_pers s2)) = Some (Inr s3)
    \<and> abst (tt_inner (sv_store s3)) = a_hset h f v (abst (tt_inner (sv_store s)))"
proof -
  have st: "ttl_inv invar abst okkey (sv_store s)" "\<not> tt_done (sv_store s)" "pinvar (sv_pers s)"
    "pstate (sv_pers s) = abst (tt_inner (sv_store s))"
    using assms(3) by (simp_all add: in_step_def)
  let ?c = "logged (e, ''HSET'', args)"
  let ?s1 = "s\<lparr>sv_pers := pp_Write pops ?c (sv_pers s)\<rparr>"
  have "main_handlers ops ''HSET'' = Some (hsetHandler ops)"
    by (simp add: main_handlers_def instrument_def NewHandlers_def)
  then have "serve ops pops [(e, ''HSET'', args)] s = Inr ([wrong_args ''hset''], ?s1)"
    using assms(5) by (simp add: exec_def onWrite_def hsetHandler_def)
  moreover obtain s2 where "main_stop ops pops ?s1 = Inr s2" "sv_pers s2 = pp_Close pops (pp_Write pops ?c (sv_pers s))"
    using st(2) by (simp add: main_stop_def TTL_Close_def)
  moreover have p: "pinvar (pp_Write pops ?c (sv_pers s))"
    "pstate (pp_Write pops ?c (sv_pers s)) = a_hset h f v (abst (tt_inner (sv_store s)))"
    using restartable.Write_law [OF assms(2) st(3) assms(7)] st(4) assms(5)
    by (simp_all add: apply_cmd_def value_defs)
  moreover obtain s3 where
    "main_start ops pops envs t0 (reopen (pp_Close pops (pp_Write pops ?c (sv_pers s)))) = Some (Inr s3)"
    "abst (tt_inner (sv_store s3)) = pstate (pp_Write pops ?c (sv_pers s))"
    using start_recovers [OF assms(1,2,4) p(1), of envs] p(2) st(1) assms(6) by (auto simp: ttl_inv_def)
  ultimately show ?thesis
    by (intro exI [of _ ?s1] exI [of _ s2] exI [of _ s3]) simp
qed

theorem rejected_hset_replayed_witness:
  "\<exists>s1 s2 s3. serve MapStore_ops (AOF_ops id)
        [(env_at 1, ''HSET'', map bulk_value [''h'', ''f'', ''v'', ''x''])] aof_server
        = Inr ([wrong_args ''hset''], s1)
    \<and> main_stop MapStore_ops (AOF_ops id) s1 = Inr s2
    \<and> main_start MapStore_ops (AOF_ops id) (\<lambda>_. env_at 2) (map_ttl NoEviction 0) (NewAOF (f_data (sv_pers s2)))
        = Some (Inr s3)
    \<and> MapStore_abs (tt_inner (sv_store s3)) = a_hset ''h'' ''f'' ''v'' (MapStore_abs (tt_inner (sv_store aof_server)))"
proof -
  have "length (aof_bytes (mk_cmd ''HSET'' [''h'', ''f'', ''v'', ''x''])) \<le> 1000" by code_simp
  then have "AOF_ok (mk_cmd ''HSET'' [''h'', ''f'', ''v'', ''x'']) (sv_pers aof_server)"
    by (intro aof_ok_small aof_server_length) (simp_all add: write_cmd_def)
  then have "AOF_ok (logged (env_at 1, ''HSET'', map bulk_value [''h'', ''f'', ''v'', ''x''])) (sv_pers aof_server)"
    by (simp add: value_defs)
  from rejected_hset_replayed [OF mapst.total_store_axioms aof.restartable_axioms aof_server_in_step map_fresh
      refl TrueI this, of "\<lambda>_. env_at 2"] show ?thesis by blast
qed

end
