(* ===== verification/Lock_Free_Store.thy ===== *)
theory Lock_Free_Store
  imports Sharded_Store
begin

text \<open>
  \<open>LockFreeStore\<close> (\<open>store/lockfree.go\<close>): a slice of atomic pointers to buckets. A bucket that a
  pointer refers to is never written again: an update copies it, changes the copy and swings the
  pointer from the old bucket to the copy by compare-and-swap, again from the start when another
  update came first.

  Pointers are addresses in an explicit heap of buckets. Every allocation takes a new address: the
  collector may only reuse an address that nobody holds, and comparing pointers cannot tell.

  The theory has two models over the same pieces: the methods of one goroutine, which refine the
  abstract store, and a system of goroutines that interleave their loads and swaps, which is
  linearizable and lock-free.
\<close>

section \<open>Buckets and pointers\<close>

record bucketData =
  bd_strings :: smap
  bd_hashes :: hmap

record LockFreeStore =
  lf_buckets :: "nat list"
  lf_mask :: "64 word"
  lf_heap :: "nat \<rightharpoonup> bucketData"
  lf_next :: nat

definition empty_bucket :: bucketData where
  "empty_bucket = \<lparr>bd_strings = Map.empty, bd_hashes = Map.empty\<rparr>"

definition NewLockFreeStore :: "int \<Rightarrow> LockFreeStore" where
  "NewLockFreeStore shardCount =
     (let n = (if shardCount \<le> 0 then 256 else shardCount)
      in \<lparr>lf_buckets = [0..<nat n], lf_mask = word_of_int (n - 1),
          lf_heap = (\<lambda>a. if a < nat n then Some empty_bucket else None), lf_next = nat n\<rparr>)"

definition bucket :: "string \<Rightarrow> LockFreeStore \<Rightarrow> nat res" where
  "bucket key s =
     (let i = slot (lf_mask s) key in if i < length (lf_buckets s) then Inr i else Inl Panic)"

text \<open>\<open>cloneBucket\<close> copies the outer maps and every inner one: maps are values here.\<close>

definition cloneBucket :: "bucketData \<Rightarrow> bucketData" where
  "cloneBucket data = \<lparr>bd_strings = bd_strings data, bd_hashes = bd_hashes data\<rparr>"

text \<open>The pointer's \<open>Load\<close>, dereferenced, and its \<open>CompareAndSwap\<close>; the allocation of a bucket.\<close>

definition lf_load :: "nat \<Rightarrow> LockFreeStore \<Rightarrow> bucketData" where
  "lf_load b s = (case lf_heap s (lf_buckets s ! b) of None \<Rightarrow> empty_bucket | Some d \<Rightarrow> d)"

definition lf_alloc :: "bucketData \<Rightarrow> LockFreeStore \<Rightarrow> nat \<times> LockFreeStore" where
  "lf_alloc d s = (lf_next s, s\<lparr>lf_heap := (lf_heap s)(lf_next s \<mapsto> d), lf_next := lf_next s + 1\<rparr>)"

definition CompareAndSwap :: "nat \<Rightarrow> nat \<Rightarrow> nat \<Rightarrow> LockFreeStore \<Rightarrow> bool \<times> LockFreeStore" where
  "CompareAndSwap b old new s =
     (if lf_buckets s ! b = old then (True, s\<lparr>lf_buckets := (lf_buckets s)[b := new]\<rparr>) else (False, s))"

text \<open>What the bodies of the loops of \<open>Set\<close>, \<open>Del\<close> and \<open>HSet\<close> do to the copy.\<close>

definition put_string :: "string \<Rightarrow> string \<Rightarrow> bucketData \<Rightarrow> bucketData" where
  "put_string key val data = data\<lparr>bd_strings := (bd_strings data)(key \<mapsto> val)\<rparr>"

definition drop_both :: "string \<Rightarrow> bucketData \<Rightarrow> bucketData" where
  "drop_both key data =
     data\<lparr>bd_strings := (bd_strings data)(key := None), bd_hashes := (bd_hashes data)(key := None)\<rparr>"

definition put_field :: "string \<Rightarrow> string \<Rightarrow> string \<Rightarrow> bucketData \<Rightarrow> bucketData" where
  "put_field hash key val data = data\<lparr>bd_hashes := hashes_set hash key val (bd_hashes data)\<rparr>"

section \<open>The methods of one goroutine\<close>

text \<open>The loop shared by the three updates. Alone, it never takes its second turn.\<close>

function lf_update :: "(bucketData \<Rightarrow> bucketData) \<Rightarrow> nat \<Rightarrow> LockFreeStore \<Rightarrow> LockFreeStore" where
  "lf_update f b s =
     (let old = lf_buckets s ! b;
          (data, s1) = lf_alloc (f (cloneBucket (lf_load b s))) s;
          (ok, s2) = CompareAndSwap b old data s1
      in if ok then s2 else lf_update f b s2)"
  by pat_completeness auto

termination
  by (relation "{}") (auto simp: lf_alloc_def CompareAndSwap_def)

definition LockFreeStore_Set :: "string \<Rightarrow> string \<Rightarrow> LockFreeStore \<Rightarrow> LockFreeStore res" where
  "LockFreeStore_Set key val s = bindr (bucket key s) (\<lambda>b. Inr (lf_update (put_string key val) b s))"

definition LockFreeStore_Del :: "string \<Rightarrow> LockFreeStore \<Rightarrow> LockFreeStore res" where
  "LockFreeStore_Del key s = bindr (bucket key s) (\<lambda>b. Inr (lf_update (drop_both key) b s))"

definition LockFreeStore_Get :: "string \<Rightarrow> LockFreeStore \<Rightarrow> string option res" where
  "LockFreeStore_Get key s = bindr (bucket key s) (\<lambda>b. Inr (bd_strings (lf_load b s) key))"

definition LockFreeStore_HSet :: "string \<Rightarrow> string \<Rightarrow> string \<Rightarrow> LockFreeStore \<Rightarrow> LockFreeStore res" where
  "LockFreeStore_HSet hash key val s =
     bindr (bucket hash s) (\<lambda>b. Inr (lf_update (put_field hash key val) b s))"

definition LockFreeStore_HGet :: "string \<Rightarrow> string \<Rightarrow> LockFreeStore \<Rightarrow> string option res" where
  "LockFreeStore_HGet hash key s =
     bindr (bucket hash s) (\<lambda>b. Inr (hashes_get hash key (bd_hashes (lf_load b s))))"

definition LockFreeStore_HGetAll :: "string \<Rightarrow> LockFreeStore \<Rightarrow> smap option res" where
  "LockFreeStore_HGetAll hash s =
     bindr (bucket hash s) (\<lambda>b. Inr (hashes_all hash (bd_hashes (lf_load b s))))"

definition LockFreeStore_ops :: "LockFreeStore store_ops" where
  "LockFreeStore_ops = \<lparr>op_Set = LockFreeStore_Set, op_Get = LockFreeStore_Get,
     op_Del = LockFreeStore_Del, op_HSet = LockFreeStore_HSet, op_HGet = LockFreeStore_HGet,
     op_HGetAll = LockFreeStore_HGetAll, op_Close = \<lambda>s. s\<rparr>"

section \<open>Refinement\<close>

definition lf_inv :: "LockFreeStore \<Rightarrow> bool" where
  "lf_inv s \<longleftrightarrow> 0 < length (lf_buckets s) \<and> length (lf_buckets s) \<le> 2 ^ 63
     \<and> lf_mask s = word_of_nat (length (lf_buckets s) - 1)
     \<and> set (lf_buckets s) \<subseteq> dom (lf_heap s) \<and> (\<forall>a \<in> dom (lf_heap s). a < lf_next s)"

definition lf_at :: "LockFreeStore \<Rightarrow> string \<Rightarrow> bucketData" where
  "lf_at s key = lf_load (slot (lf_mask s) key) s"

definition lf_abs :: "LockFreeStore \<Rightarrow> astore" where
  "lf_abs s = \<lparr>astr = (\<lambda>k. bd_strings (lf_at s k) k), ahash = (\<lambda>h. bd_hashes (lf_at s h) h)\<rparr>"

lemma lf_slot_less: "lf_inv s \<Longrightarrow> slot (lf_mask s) key < length (lf_buckets s)"
  by (rule slot_in_range) (simp_all only: lf_inv_def)

lemma bucket_ok: "lf_inv s \<Longrightarrow> bucket key s = Inr (slot (lf_mask s) key)"
  by (simp add: bucket_def lf_slot_less)

lemma cloneBucket_id [simp]: "cloneBucket d = d"
  by (simp add: cloneBucket_def)

lemma lf_update_eq:
  "lf_update f b s =
     s\<lparr>lf_heap := (lf_heap s)(lf_next s \<mapsto> f (lf_load b s)), lf_next := lf_next s + 1,
       lf_buckets := (lf_buckets s)[b := lf_next s]\<rparr>"
  by (subst lf_update.simps) (simp add: lf_alloc_def CompareAndSwap_def)

declare lf_update.simps [simp del]

text \<open>
  Swinging the pointer of a key's bucket to an address that holds the changed contents. The heap may
  have grown meanwhile; addresses that were in use have kept their contents.
\<close>

definition lf_swing :: "nat \<Rightarrow> nat \<Rightarrow> LockFreeStore \<Rightarrow> LockFreeStore" where
  "lf_swing b data s = s\<lparr>lf_buckets := (lf_buckets s)[b := data]\<rparr>"

lemma lf_swing_inv: "lf_inv s \<Longrightarrow> data \<in> dom (lf_heap s) \<Longrightarrow> lf_inv (lf_swing b data s)"
  using set_update_subset_insert [of "lf_buckets s" b data] by (auto simp: lf_inv_def lf_swing_def)

lemma lf_at_swing:
  assumes "lf_inv s" and "lf_heap s data = Some d"
  shows "lf_at (lf_swing (slot (lf_mask s) k) data s) k'
    = (if slot (lf_mask s) k' = slot (lf_mask s) k then d else lf_at s k')"
  using assms lf_slot_less [OF assms(1), of k]
  by (auto simp: lf_at_def lf_swing_def lf_load_def)

lemma lf_at_alloc:
  assumes "lf_inv s"
  shows "lf_at (snd (lf_alloc d s)) k = lf_at s k"
proof -
  have "lf_buckets s ! slot (lf_mask s) k \<in> dom (lf_heap s)"
    using assms nth_mem [OF lf_slot_less [OF assms, of k]] unfolding lf_inv_def by blast
  then have "lf_buckets s ! slot (lf_mask s) k \<noteq> lf_next s"
    using assms unfolding lf_inv_def by (metis less_irrefl)
  then show ?thesis by (simp add: lf_at_def lf_load_def lf_alloc_def)
qed

lemma lf_abs_alloc: "lf_inv s \<Longrightarrow> lf_abs (snd (lf_alloc d s)) = lf_abs s"
  by (simp add: lf_abs_def lf_at_alloc)

lemma lf_alloc_inv: "lf_inv s \<Longrightarrow> lf_inv (snd (lf_alloc d s))"
  by (auto simp: lf_inv_def lf_alloc_def less_Suc_eq)

text \<open>The three updates, as the calls of the interface that they serve.\<close>

fun is_update :: "store_call \<Rightarrow> bool" where
  "is_update (CSet k v) \<longleftrightarrow> True" | "is_update (CDel k) \<longleftrightarrow> True" | "is_update (CHSet h k v) \<longleftrightarrow> True"
| "is_update _ \<longleftrightarrow> False"

fun on_copy :: "store_call \<Rightarrow> bucketData \<Rightarrow> bucketData" where
  "on_copy (CSet k v) = put_string k v"
| "on_copy (CDel k) = drop_both k"
| "on_copy (CHSet h k v) = put_field h k v"
| "on_copy _ = (\<lambda>d. d)"

fun answer :: "store_call \<Rightarrow> bucketData \<Rightarrow> store_reply" where
  "answer (CGet k) d = RVal (bd_strings d k)"
| "answer (CHGet h k) d = RVal (hashes_get h k (bd_hashes d))"
| "answer (CHGetAll h) d = RMap (hashes_all h (bd_hashes d))"
| "answer _ d = RUnit"

lemmas on_copy_defs = put_string_def drop_both_def put_field_def

lemma lf_swing_abs:
  assumes "lf_inv s" and "lf_heap s data = Some (on_copy c (lf_at s (call_key c)))" and "is_update c"
  shows "a_call c (lf_abs s) = (RUnit, lf_abs (lf_swing (slot (lf_mask s) (call_key c)) data s))"
proof -
  have at: "lf_at (lf_swing (slot (lf_mask s) (call_key c)) data s) k
      = (if slot (lf_mask s) k = slot (lf_mask s) (call_key c) then on_copy c (lf_at s k) else lf_at s k)" for k
    using lf_at_swing [OF assms(1,2), of "call_key c" k] by (simp add: lf_at_def split: if_splits)
  show ?thesis
  proof (cases c)
    case (CSet k v)
    show ?thesis by (simp add: CSet at [unfolded CSet, simplified] lf_abs_def a_defs put_string_def fun_eq_iff)
  next
    case (CDel k)
    show ?thesis by (simp add: CDel at [unfolded CDel, simplified] lf_abs_def a_defs drop_both_def fun_eq_iff)
  next
    case (CHSet h k v)
    show ?thesis
      by (simp add: CHSet at [unfolded CHSet, simplified] lf_abs_def a_defs put_field_def fun_eq_iff hashes_set_apply)
  qed (use assms(3) in simp_all)
qed

lemma answer_abs: "\<not> is_update c \<Longrightarrow> a_call c (lf_abs s) = (answer c (lf_at s (call_key c)), lf_abs s)"
  by (cases c) (simp_all add: lf_abs_def hashes_get_def)

lemma lf_update_spec:
  assumes "lf_inv s" and "is_update c"
  shows "lf_inv (lf_update (on_copy c) (slot (lf_mask s) (call_key c)) s)
    \<and> a_call c (lf_abs s) = (RUnit, lf_abs (lf_update (on_copy c) (slot (lf_mask s) (call_key c)) s))"
proof -
  let ?b = "slot (lf_mask s) (call_key c)" and ?d = "on_copy c (lf_at s (call_key c))"
  let ?s1 = "snd (lf_alloc ?d s)"
  have s1: "lf_mask ?s1 = lf_mask s" "lf_heap ?s1 (lf_next s) = Some ?d"
    by (simp_all add: lf_alloc_def)
  have eq: "lf_update (on_copy c) ?b s = lf_swing ?b (lf_next s) ?s1"
    by (simp add: lf_update_eq lf_swing_def lf_alloc_def lf_at_def)
  have "lf_heap ?s1 (lf_next s) = Some (on_copy c (lf_at ?s1 (call_key c)))"
    using s1(2) lf_at_alloc [OF assms(1)] by simp
  from lf_swing_abs [OF lf_alloc_inv [OF assms(1)] this assms(2)] show ?thesis
    using eq s1 lf_abs_alloc [OF assms(1)] lf_swing_inv [OF lf_alloc_inv [OF assms(1)], of "lf_next s"]
    by auto
qed

interpretation lockfree: total_store LockFreeStore_ops lf_inv lf_abs "\<lambda>_. True"
proof unfold_locales
  fix s :: LockFreeStore
  assume inv: "lf_inv s"
  note b = bucket_ok [OF inv] and upd = lf_update_spec [OF inv]
  show "op_Set LockFreeStore_ops k v s = Inr s' \<Longrightarrow> lf_inv s' \<and> lf_abs s' = a_set k v (lf_abs s)" for k v s'
    using upd [of "CSet k v"] by (auto simp: LockFreeStore_ops_def LockFreeStore_Set_def b)
  show "op_Del LockFreeStore_ops k s = Inr s' \<Longrightarrow> lf_inv s' \<and> lf_abs s' = a_del k (lf_abs s)" for k s'
    using upd [of "CDel k"] by (auto simp: LockFreeStore_ops_def LockFreeStore_Del_def b)
  show "op_HSet LockFreeStore_ops h f v s = Inr s' \<Longrightarrow> lf_inv s' \<and> lf_abs s' = a_hset h f v (lf_abs s)" for h f v s'
    using upd [of "CHSet h f v"] by (auto simp: LockFreeStore_ops_def LockFreeStore_HSet_def b)
  show "\<exists>s'. op_Set LockFreeStore_ops k v s = Inr s'" "\<exists>s'. op_Del LockFreeStore_ops k s = Inr s'"
    "\<exists>s'. op_HSet LockFreeStore_ops h f v s = Inr s'" for k h f v
    by (simp_all add: LockFreeStore_ops_def LockFreeStore_Set_def LockFreeStore_Del_def LockFreeStore_HSet_def b)
qed (simp_all add: LockFreeStore_ops_def LockFreeStore_Get_def LockFreeStore_HGet_def
    LockFreeStore_HGetAll_def bucket_ok lf_abs_def lf_at_def hashes_get_def)

lemma NewLockFreeStore_inv:
  assumes "shardCount < 2 ^ 63"
  shows "lf_inv (NewLockFreeStore shardCount) \<and> lf_abs (NewLockFreeStore shardCount) = a_empty"
proof -
  define n where "n = (if shardCount \<le> 0 then 256 else shardCount)"
  have n: "0 < n" "n < 2 ^ 63" using assms by (auto simp: n_def)
  then have "int (nat n - 1) = n - 1" by simp
  then have "(word_of_int (n - 1) :: 64 word) = word_of_nat (nat n - 1)"
    by (metis of_int_of_nat_eq)
  then have inv: "lf_inv (NewLockFreeStore shardCount)"
    using n by (auto simp: lf_inv_def NewLockFreeStore_def Let_def n_def [symmetric] split: if_splits)
  have "lf_at (NewLockFreeStore shardCount) k = empty_bucket" for k
    by (simp add: lf_at_def lf_load_def NewLockFreeStore_def Let_def)
  then have "lf_abs (NewLockFreeStore shardCount) = a_empty"
    by (simp add: lf_abs_def a_empty_def empty_bucket_def)
  with inv show ?thesis by simp
qed

section \<open>Many goroutines\<close>

text \<open>
  A goroutine is idle, or it has called a method, or it has loaded the pointer and built its copy, or
  it is about to return. \<open>sys_threads\<close> has the state of each.
\<close>

datatype lf_pc = Idle | Called store_call | Loaded store_call nat nat | Ready store_reply

record lf_sys =
  sys_store :: LockFreeStore
  sys_threads :: "lf_pc list"

datatype lf_event =
    Invoke nat store_call | Effect nat store_call store_reply | Internal nat | Return nat store_reply

inductive lf_step :: "lf_sys \<Rightarrow> lf_event \<Rightarrow> lf_sys \<Rightarrow> bool" where
  invoke: "i < length (sys_threads y) \<Longrightarrow> sys_threads y ! i = Idle
    \<Longrightarrow> lf_step y (Invoke i c) (y\<lparr>sys_threads := (sys_threads y)[i := Called c]\<rparr>)"
| load: "i < length (sys_threads y) \<Longrightarrow> sys_threads y ! i = Called c \<Longrightarrow> is_update c
    \<Longrightarrow> bucket (call_key c) (sys_store y) = Inr b
    \<Longrightarrow> lf_alloc (on_copy c (cloneBucket (lf_load b (sys_store y)))) (sys_store y) = (data, s')
    \<Longrightarrow> lf_step y (Internal i) (y\<lparr>sys_store := s',
          sys_threads := (sys_threads y)[i := Loaded c (lf_buckets (sys_store y) ! b) data]\<rparr>)"
| read: "i < length (sys_threads y) \<Longrightarrow> sys_threads y ! i = Called c \<Longrightarrow> \<not> is_update c
    \<Longrightarrow> bucket (call_key c) (sys_store y) = Inr b \<Longrightarrow> r = answer c (lf_load b (sys_store y))
    \<Longrightarrow> lf_step y (Effect i c r) (y\<lparr>sys_threads := (sys_threads y)[i := Ready r]\<rparr>)"
| cas_ok: "i < length (sys_threads y) \<Longrightarrow> sys_threads y ! i = Loaded c old data
    \<Longrightarrow> bucket (call_key c) (sys_store y) = Inr b
    \<Longrightarrow> CompareAndSwap b old data (sys_store y) = (True, s')
    \<Longrightarrow> lf_step y (Effect i c RUnit) (y\<lparr>sys_store := s', sys_threads := (sys_threads y)[i := Ready RUnit]\<rparr>)"
| cas_fail: "i < length (sys_threads y) \<Longrightarrow> sys_threads y ! i = Loaded c old data
    \<Longrightarrow> bucket (call_key c) (sys_store y) = Inr b
    \<Longrightarrow> CompareAndSwap b old data (sys_store y) = (False, s')
    \<Longrightarrow> lf_step y (Internal i) (y\<lparr>sys_store := s', sys_threads := (sys_threads y)[i := Called c]\<rparr>)"
| return: "i < length (sys_threads y) \<Longrightarrow> sys_threads y ! i = Ready r
    \<Longrightarrow> lf_step y (Return i r) (y\<lparr>sys_threads := (sys_threads y)[i := Idle]\<rparr>)"

inductive_cases lf_stepE: "lf_step y ev y'"

inductive lf_exec :: "lf_sys \<Rightarrow> lf_event list \<Rightarrow> lf_sys \<Rightarrow> bool" where
  exec_nil: "lf_exec y [] y"
| exec_snoc: "lf_exec y evs y1 \<Longrightarrow> lf_step y1 ev y2 \<Longrightarrow> lf_exec y (evs @ [ev]) y2"

definition lf_start :: "int \<Rightarrow> nat \<Rightarrow> lf_sys" where
  "lf_start shardCount n = \<lparr>sys_store = NewLockFreeStore shardCount, sys_threads = replicate n Idle\<rparr>"

section \<open>Linearizability\<close>

text \<open>A goroutine that is about to swap holds a copy of the bucket it has loaded, changed as its call says.\<close>

fun thread_inv :: "LockFreeStore \<Rightarrow> lf_pc \<Rightarrow> bool" where
  "thread_inv s (Loaded c old data) \<longleftrightarrow>
     is_update c \<and> (\<exists>d. lf_heap s old = Some d \<and> lf_heap s data = Some (on_copy c d))"
| "thread_inv s _ \<longleftrightarrow> True"

definition sys_inv :: "lf_sys \<Rightarrow> bool" where
  "sys_inv y \<longleftrightarrow> lf_inv (sys_store y) \<and> (\<forall>pc \<in> set (sys_threads y). thread_inv (sys_store y) pc)"

lemma map_leD: "m \<subseteq>\<^sub>m m' \<Longrightarrow> m a = Some x \<Longrightarrow> m' a = Some x"
  by (metis domI map_le_def)

lemma thread_inv_mono:
  assumes "thread_inv s pc" and "lf_heap s \<subseteq>\<^sub>m lf_heap s'"
  shows "thread_inv s' pc"
proof (cases pc)
  case (Loaded c old data)
  then show ?thesis using assms map_leD [OF assms(2)] by fastforce
qed simp_all


lemma sys_inv_update:
  assumes "sys_inv y" and "lf_inv s'" and "lf_heap (sys_store y) \<subseteq>\<^sub>m lf_heap s'" and "thread_inv s' pc"
  shows "sys_inv (y\<lparr>sys_store := s', sys_threads := (sys_threads y)[i := pc]\<rparr>)"
proof -
  have "\<forall>q \<in> insert pc (set (sys_threads y)). thread_inv s' q"
    using assms(1,4) thread_inv_mono [OF _ assms(3)] by (simp add: sys_inv_def)
  then have "\<forall>q \<in> set ((sys_threads y)[i := pc]). thread_inv s' q"
    using set_update_subset_insert by fast
  with assms(2) show ?thesis by (simp add: sys_inv_def)
qed

lemma sys_inv_local:
  assumes "sys_inv y" and "thread_inv (sys_store y) pc"
  shows "sys_inv (y\<lparr>sys_threads := (sys_threads y)[i := pc]\<rparr>)"
  using sys_inv_update [OF assms(1) _ map_le_refl assms(2), of i] assms(1) by (simp add: sys_inv_def)

lemma sys_inv_thread:
  assumes "sys_inv y" and "i < length (sys_threads y)" and "sys_threads y ! i = pc"
  shows "thread_inv (sys_store y) pc"
  using assms nth_mem by (auto simp: sys_inv_def)

fun effect_of :: "lf_event \<Rightarrow> (store_call \<times> store_reply) option" where
  "effect_of (Effect i c r) = Some (c, r)"
| "effect_of _ = None"

definition effects :: "lf_event list \<Rightarrow> (store_call \<times> store_reply) list" where
  "effects evs = List.map_filter effect_of evs"

lemma heap_alloc_mono: "lf_inv s \<Longrightarrow> lf_heap s \<subseteq>\<^sub>m lf_heap (snd (lf_alloc d s))"
  by (auto simp: lf_alloc_def map_le_def lf_inv_def)

lemma load_thread_inv:
  assumes "lf_inv s" and "is_update c"
  shows "thread_inv (snd (lf_alloc (on_copy c (lf_at s (call_key c))) s))
    (Loaded c (lf_buckets s ! slot (lf_mask s) (call_key c)) (lf_next s))"
proof -
  let ?a = "lf_buckets s ! slot (lf_mask s) (call_key c)"
  have "?a \<in> dom (lf_heap s)"
    using assms(1) nth_mem [OF lf_slot_less [OF assms(1)]] unfolding lf_inv_def by blast
  moreover then have "?a \<noteq> lf_next s"
    using assms(1) unfolding lf_inv_def by (metis less_irrefl)
  ultimately show ?thesis
    using assms(2) by (auto simp: lf_alloc_def lf_at_def lf_load_def)
qed

text \<open>Every step keeps the invariant; the steps with an effect are the calls of the abstract store.\<close>

lemma lf_step_sound:
  assumes "lf_step y ev y'" and "sys_inv y"
  shows "sys_inv y' \<and> (case effect_of ev of
      None \<Rightarrow> lf_abs (sys_store y') = lf_abs (sys_store y)
    | Some (c, r) \<Rightarrow> a_call c (lf_abs (sys_store y)) = (r, lf_abs (sys_store y')))"
proof -
  have inv: "lf_inv (sys_store y)" using assms(2) by (simp add: sys_inv_def)
  note b = bucket_ok [OF inv]
  from assms(1) show ?thesis
  proof cases
    case (load i c b data s')
    have s': "s' = snd (lf_alloc (on_copy c (lf_at (sys_store y) (call_key c))) (sys_store y))"
      "data = lf_next (sys_store y)"
      using load(6,7) by (auto simp: b lf_at_def lf_alloc_def)
    show ?thesis
      using load sys_inv_update [OF assms(2) lf_alloc_inv [OF inv] heap_alloc_mono [OF inv]
          load_thread_inv [OF inv load(5)]] lf_abs_alloc [OF inv]
      by (auto simp: b s')
  next
    case (cas_ok i c old data b s')
    obtain d where d: "is_update c" "lf_heap (sys_store y) old = Some d"
      "lf_heap (sys_store y) data = Some (on_copy c d)"
      using sys_inv_thread [OF assms(2) cas_ok(3,4)] by auto
    have bb: "b = slot (lf_mask (sys_store y)) (call_key c)" using cas_ok(5) by (simp add: b)
    have s': "s' = lf_swing b data (sys_store y)" and old: "lf_buckets (sys_store y) ! b = old"
      using cas_ok(6) by (auto simp: CompareAndSwap_def lf_swing_def split: if_splits)
    have "lf_heap (sys_store y) data = Some (on_copy c (lf_at (sys_store y) (call_key c)))"
      using d old bb by (simp add: lf_at_def lf_load_def)
    from lf_swing_abs [OF inv this d(1)] lf_swing_inv [OF inv, of data b] d(3) show ?thesis
      using cas_ok(1,2) s' bb sys_inv_update [OF assms(2), of s' "Ready RUnit" i]
      by (auto simp: lf_swing_def)
  next
    case (read i c b r)
    then show ?thesis
      using answer_abs sys_inv_local [OF assms(2)] by (auto simp: b lf_at_def)
  qed (use sys_inv_local [OF assms(2)] in \<open>auto simp: CompareAndSwap_def split: if_splits\<close>)
qed

lemma a_calls_snoc:
  "a_calls (cs @ [c]) a = (let (rs, a') = a_calls cs a; (r, a'') = a_call c a' in (rs @ [r], a''))"
  by (induction cs arbitrary: a) (auto simp: Let_def split: prod.splits)

lemma effects_snoc [simp]:
  "effects [] = []"
  "effects (evs @ [ev]) = effects evs @ (case effect_of ev of None \<Rightarrow> [] | Some x \<Rightarrow> [x])"
  by (simp_all add: effects_def map_filter_def split: option.splits)

lemma lf_exec_sound:
  assumes "lf_exec y evs y'" and "sys_inv y"
  shows "sys_inv y' \<and> a_calls (map fst (effects evs)) (lf_abs (sys_store y))
    = (map snd (effects evs), lf_abs (sys_store y'))"
  using assms
proof (induction rule: lf_exec.induct)
  case (exec_nil y)
  then show ?case by simp
next
  case (exec_snoc y evs y1 ev y2)
  then have y1: "sys_inv y1" "a_calls (map fst (effects evs)) (lf_abs (sys_store y))
      = (map snd (effects evs), lf_abs (sys_store y1))" by auto
  from lf_step_sound [OF exec_snoc.hyps(2) y1(1)] y1(2) show ?case
    by (cases "effect_of ev") (auto simp: a_calls_snoc)
qed

lemma lf_start_inv:
  assumes "shardCount < 2 ^ 63"
  shows "sys_inv (lf_start shardCount n) \<and> lf_abs (sys_store (lf_start shardCount n)) = a_empty"
  using NewLockFreeStore_inv [OF assms] by (auto simp: sys_inv_def lf_start_def)

text \<open>
  The life of a call, seen from its goroutine: it is invoked, it takes effect once, and it returns the
  reply of that effect. \<open>advance i\<close> accepts exactly the sequences of events of goroutine \<open>i\<close> that have
  this form; it skips internal steps and the events of other goroutines.
\<close>

datatype phase = Outside | Pending store_call | Effected store_reply

fun advance :: "nat \<Rightarrow> lf_event \<Rightarrow> phase \<Rightarrow> phase option" where
  "advance i (Internal j) ph = Some ph"
| "advance i (Invoke j c) ph =
     (if j \<noteq> i then Some ph else case ph of Outside \<Rightarrow> Some (Pending c) | _ \<Rightarrow> None)"
| "advance i (Effect j c r) ph =
     (if j \<noteq> i then Some ph
      else case ph of Pending c' \<Rightarrow> if c' = c then Some (Effected r) else None | _ \<Rightarrow> None)"
| "advance i (Return j r) ph =
     (if j \<noteq> i then Some ph
      else case ph of Effected r' \<Rightarrow> if r' = r then Some Outside else None | _ \<Rightarrow> None)"

fun phase_after :: "nat \<Rightarrow> lf_event list \<Rightarrow> phase \<Rightarrow> phase option" where
  "phase_after i [] ph = Some ph"
| "phase_after i (ev # evs) ph = Option.bind (advance i ev ph) (phase_after i evs)"

fun pc_phase :: "lf_pc \<Rightarrow> phase" where
  "pc_phase Idle = Outside"
| "pc_phase (Called c) = Pending c"
| "pc_phase (Loaded c old data) = Pending c"
| "pc_phase (Ready r) = Effected r"

lemma phase_after_snoc:
  "phase_after i (evs @ [ev]) ph = Option.bind (phase_after i evs ph) (advance i ev)"
  by (induction evs arbitrary: ph) (auto simp: bind_eq_None_conv split: Option.bind_splits)

lemma lf_step_phase:
  assumes "lf_step y ev y'" and "i < length (sys_threads y)"
  shows "advance i ev (pc_phase (sys_threads y ! i)) = Some (pc_phase (sys_threads y' ! i))
    \<and> length (sys_threads y') = length (sys_threads y)"
  using assms by (cases rule: lf_step.cases) (auto simp: nth_list_update)

lemma lf_exec_phase:
  assumes "lf_exec y evs y'" and "i < length (sys_threads y)"
  shows "phase_after i evs (pc_phase (sys_threads y ! i)) = Some (pc_phase (sys_threads y' ! i))
    \<and> length (sys_threads y') = length (sys_threads y)"
  using assms
  by (induction rule: lf_exec.induct) (auto simp: phase_after_snoc dest: lf_step_phase)

section \<open>Progress\<close>

text \<open>How many steps a goroutine can take while no call takes effect.\<close>

fun rank :: "LockFreeStore \<Rightarrow> lf_pc \<Rightarrow> nat" where
  "rank s Idle = 2"
| "rank s (Called c) = 1"
| "rank s (Loaded c old data) = (if lf_buckets s ! slot (lf_mask s) (call_key c) = old then 0 else 2)"
| "rank s (Ready r) = 3"

definition sys_rank :: "lf_sys \<Rightarrow> nat" where
  "sys_rank y = sum_list (map (rank (sys_store y)) (sys_threads y))"

lemma sys_rank_update:
  assumes "i < length (sys_threads y)" and "rank s' = rank (sys_store y)"
    and "rank s' pc < rank s' (sys_threads y ! i)"
  shows "sys_rank (y\<lparr>sys_store := s', sys_threads := (sys_threads y)[i := pc]\<rparr>) < sys_rank y"
proof -
  let ?rs = "map (rank s') (sys_threads y)"
  have "?rs ! i \<le> sum_list ?rs" using assms(1) by (intro elem_le_sum_list) simp
  then show ?thesis
    using assms by (simp add: sys_rank_def map_update sum_list_update)
qed

lemma rank_cong:
  assumes "lf_buckets s' = lf_buckets s" and "lf_mask s' = lf_mask s"
  shows "rank s' = rank s"
proof
  fix pc
  show "rank s' pc = rank s pc" using assms by (cases pc) auto
qed

lemma lf_step_rank:
  assumes "lf_step y ev y'" and "sys_inv y" and "effect_of ev = None"
  shows "sys_rank y' < sys_rank y"
proof -
  have inv: "lf_inv (sys_store y)" using assms(2) by (simp add: sys_inv_def)
  have local: "i < length (sys_threads y) \<Longrightarrow> rank (sys_store y) pc < rank (sys_store y) (sys_threads y ! i)
      \<Longrightarrow> sys_rank (y\<lparr>sys_threads := (sys_threads y)[i := pc]\<rparr>) < sys_rank y" for i pc
    using sys_rank_update [of i y "sys_store y" pc] by simp
  from assms(1) show ?thesis
  proof cases
    case (load i c b data s')
    have s': "lf_buckets s' = lf_buckets (sys_store y)" "lf_mask s' = lf_mask (sys_store y)"
      using load(7) by (auto simp: lf_alloc_def)
    have "b = slot (lf_mask (sys_store y)) (call_key c)"
      using load(6) bucket_ok [OF inv] by simp
    then show ?thesis
      using load s' sys_rank_update [OF load(3) rank_cong [OF s']] by simp
  next
    case (cas_fail i c old data b s')
    then show ?thesis
      using local bucket_ok [OF inv] by (auto simp: CompareAndSwap_def split: if_splits)
  qed (use local assms(3) in auto)
qed

lemma sys_rank_bound: "sys_rank y \<le> 3 * length (sys_threads y)"
proof -
  have "rank s pc \<le> 3" for s pc by (cases pc) auto
  then have "sum_list (map (rank (sys_store y)) pcs) \<le> 3 * length pcs" for pcs
    by (induction pcs) (auto intro: add_mono)
  then show ?thesis by (simp add: sys_rank_def)
qed

lemma lf_exec_rank:
  assumes "lf_exec y evs y'" and "sys_inv y" and "effects evs = []"
  shows "length evs + sys_rank y' \<le> sys_rank y"
  using assms
proof (induction rule: lf_exec.induct)
  case (exec_nil y)
  then show ?case by simp
next
  case (exec_snoc y evs y1 ev y2)
  then have ev: "effects evs = []" "effect_of ev = None" by (auto split: option.splits)
  have "sys_inv y1" using lf_exec_sound [OF exec_snoc.hyps(1) exec_snoc.prems(1)] by simp
  with lf_step_rank [OF exec_snoc.hyps(2) this ev(2)] exec_snoc.IH [OF exec_snoc.prems(1) ev(1)]
  show ?case by simp
qed

text \<open>No goroutine is ever blocked.\<close>

fun event_thread :: "lf_event \<Rightarrow> nat" where
  "event_thread (Invoke i c) = i" | "event_thread (Effect i c r) = i"
| "event_thread (Internal i) = i" | "event_thread (Return i r) = i"

lemma lf_can_step:
  assumes "sys_inv y" and i: "i < length (sys_threads y)"
  shows "\<exists>ev y'. lf_step y ev y' \<and> event_thread ev = i"
proof -
  have inv: "lf_inv (sys_store y)" using assms(1) by (simp add: sys_inv_def)
  note b = bucket_ok [OF inv]
  show ?thesis
  proof (cases "sys_threads y ! i")
    case Idle
    from lf_step.invoke [OF i this] show ?thesis by (metis event_thread.simps(1))
  next
    case (Called c)
    show ?thesis
    proof (cases "is_update c")
      case True
      from lf_step.load [OF i Called True b prod.collapse [symmetric]] show ?thesis
        by (metis event_thread.simps(3))
    next
      case False
      from lf_step.read [OF i Called False b refl] show ?thesis by (metis event_thread.simps(2))
    qed
  next
    case (Loaded c old data)
    obtain ok s' where "CompareAndSwap (slot (lf_mask (sys_store y)) (call_key c)) old data (sys_store y) = (ok, s')"
      by fastforce
    then show ?thesis
      using lf_step.cas_ok [OF i Loaded b] lf_step.cas_fail [OF i Loaded b]
      by (cases ok) (metis event_thread.simps(2), metis event_thread.simps(3))
  next
    case (Ready r)
    from lf_step.return [OF i this] show ?thesis by (metis event_thread.simps(4))
  qed
qed

section \<open>Properties\<close>

text \<open>
  C4: The lock-free store is linearizable. Let any number of goroutines call its methods, with their
  loads, copies and swaps interleaved in any way. Every call takes effect once, between its
  invocation and its return, and returns the reply of that effect; and the effects, in the order in
  which they happen, are a run of the abstract store from empty to the contents the buckets now have.
\<close>

theorem lockfree_linearizable:
  assumes "shardCount < 2 ^ 63" and "lf_exec (lf_start shardCount n) evs y"
  shows "a_calls (map fst (effects evs)) a_empty = (map snd (effects evs), lf_abs (sys_store y))
    \<and> (\<forall>i < n. phase_after i evs Outside = Some (pc_phase (sys_threads y ! i)))"
proof -
  note st = lf_start_inv [OF assms(1), of n]
  have "sys_threads (lf_start shardCount n) = replicate n Idle" by (simp add: lf_start_def)
  then have "\<forall>i < n. phase_after i evs Outside = Some (pc_phase (sys_threads y ! i))"
    using lf_exec_phase [OF assms(2)] by auto
  with lf_exec_sound [OF assms(2)] st show ?thesis by simp
qed

text \<open>
  Two goroutines set the same key in the only bucket. Both load it, the second swaps first, and the
  first fails.
\<close>

lemma slot_zero [simp]: "slot 0 key = 0"
  by (simp add: slot_def)

definition contended :: "lf_event list" where
  "contended = [Invoke 0 (CSet ''a'' ''x''), Invoke 1 (CSet ''a'' ''y''), Internal 0, Internal 1,
     Effect 1 (CSet ''a'' ''y'') RUnit, Internal 0]"

lemma contended_run: "\<exists>y. lf_exec (lf_start 1 2) contended y"
proof -
  let ?x = "CSet ''a'' ''x''" and ?y = "CSet ''a'' ''y''" and ?s = "NewLockFreeStore 1"
  let ?d = "\<lambda>c. on_copy c empty_bucket"
  let ?s1 = "snd (lf_alloc (?d ?x) ?s)"
  let ?s2 = "snd (lf_alloc (?d ?y) ?s1)"
  let ?s3 = "lf_swing 0 2 ?s2"
  let ?sys = "\<lambda>s p q. \<lparr>sys_store = s, sys_threads = [p, q]\<rparr>"
  note defs = bucket_def lf_alloc_def lf_load_def NewLockFreeStore_def CompareAndSwap_def lf_swing_def
  have two: "[Idle, Idle] = replicate 2 Idle" by (simp add: numeral_2_eq_2)
  have "lf_exec (lf_start 1 2) [] (?sys ?s Idle Idle)"
    using lf_exec.exec_nil [of "lf_start 1 2"] by (simp add: lf_start_def two)
  moreover have "lf_step (?sys ?s Idle Idle) (Invoke 0 ?x) (?sys ?s (Called ?x) Idle)"
    using lf_step.invoke [of 0 "?sys ?s Idle Idle" ?x] by simp
  moreover have "lf_step (?sys ?s (Called ?x) Idle) (Invoke 1 ?y) (?sys ?s (Called ?x) (Called ?y))"
    using lf_step.invoke [of 1 "?sys ?s (Called ?x) Idle" ?y] by simp
  moreover have "lf_step (?sys ?s (Called ?x) (Called ?y)) (Internal 0) (?sys ?s1 (Loaded ?x 0 1) (Called ?y))"
    using lf_step.load [of 0 "?sys ?s (Called ?x) (Called ?y)" ?x 0 1 ?s1] by (simp add: defs)
  moreover have "lf_step (?sys ?s1 (Loaded ?x 0 1) (Called ?y)) (Internal 1)
      (?sys ?s2 (Loaded ?x 0 1) (Loaded ?y 0 2))"
    using lf_step.load [of 1 "?sys ?s1 (Loaded ?x 0 1) (Called ?y)" ?y 0 2 ?s2] by (simp add: defs)
  moreover have "lf_step (?sys ?s2 (Loaded ?x 0 1) (Loaded ?y 0 2)) (Effect 1 ?y RUnit)
      (?sys ?s3 (Loaded ?x 0 1) (Ready RUnit))"
    using lf_step.cas_ok [of 1 "?sys ?s2 (Loaded ?x 0 1) (Loaded ?y 0 2)" ?y 0 2 0 ?s3] by (simp add: defs)
  moreover have "lf_step (?sys ?s3 (Loaded ?x 0 1) (Ready RUnit)) (Internal 0) (?sys ?s3 (Called ?x) (Ready RUnit))"
    using lf_step.cas_fail [of 0 "?sys ?s3 (Loaded ?x 0 1) (Ready RUnit)" ?x 0 1 0 ?s3] by (simp add: defs)
  ultimately have "lf_exec (lf_start 1 2) (((((([] @ [Invoke 0 ?x]) @ [Invoke 1 ?y]) @ [Internal 0]) @ [Internal 1])
      @ [Effect 1 ?y RUnit]) @ [Internal 0]) (?sys ?s3 (Called ?x) (Ready RUnit))"
    by (blast intro: lf_exec.exec_snoc)
  then show ?thesis unfolding contended_def by (metis append_Cons append_Nil)
qed

lemma effects_contended: "effects contended = [(CSet ''a'' ''y'', RUnit)]"
  by (simp add: effects_def contended_def map_filter_def)

theorem lockfree_linearizable_witness:
  "\<exists>y. lf_exec (lf_start 1 2) contended y \<and> lf_abs (sys_store y) = a_set ''a'' ''y'' a_empty
    \<and> pc_phase (sys_threads y ! 0) = Pending (CSet ''a'' ''x'')"
proof -
  obtain y where y: "lf_exec (lf_start 1 2) contended y" using contended_run by blast
  from lockfree_linearizable [OF _ y] have "lf_abs (sys_store y) = a_set ''a'' ''y'' a_empty"
    "phase_after 0 contended Outside = Some (pc_phase (sys_threads y ! 0))"
    by (auto simp: effects_contended)
  then show ?thesis using y by (intro exI [of _ y]) (simp add: contended_def)
qed

text \<open>
  C5: The store is lock-free. Among any \<open>3n + 1\<close> consecutive steps of \<open>n\<close> goroutines some call takes
  effect, so a swap that fails has lost to one that succeeded; and no goroutine is ever unable to
  take its next step, whatever the others do.
\<close>

theorem lockfree_progress:
  assumes "shardCount < 2 ^ 63" and "lf_exec (lf_start shardCount n) evs0 y" and "lf_exec y evs y'"
  shows "(length evs > 3 * n \<longrightarrow> effects evs \<noteq> [])
    \<and> (\<forall>i < n. \<exists>ev y''. lf_step y' ev y'' \<and> event_thread ev = i)"
proof -
  have len: "length (sys_threads (lf_start shardCount n)) = n" by (simp add: lf_start_def)
  have y: "sys_inv y" "i < n \<Longrightarrow> length (sys_threads y) = n" for i
    using lf_exec_sound [OF assms(2)] lf_start_inv [OF assms(1)] lf_exec_phase [OF assms(2)] len by auto
  have y': "sys_inv y'" "i < n \<Longrightarrow> length (sys_threads y') = n" for i
    using lf_exec_sound [OF assms(3) y(1)] lf_exec_phase [OF assms(3)] y(2) by auto
  have "length (sys_threads y) = n"
    using assms(2) len by (induction rule: lf_exec.induct) (auto elim!: lf_stepE)
  then have "effects evs = [] \<Longrightarrow> length evs \<le> 3 * n"
    using lf_exec_rank [OF assms(3) y(1)] sys_rank_bound [of y] by simp
  moreover have "\<forall>i < n. \<exists>ev y''. lf_step y' ev y'' \<and> event_thread ev = i"
    using lf_can_step [OF y'(1)] y'(2) by auto
  ultimately show ?thesis by auto
qed

theorem lockfree_progress_witness:
  "\<exists>y. lf_exec (lf_start 1 2) contended y \<and> (\<exists>ev y'. lf_step y ev y' \<and> event_thread ev = 0)"
proof -
  obtain y where y: "lf_exec (lf_start 1 2) contended y" using contended_run by blast
  then show ?thesis using lockfree_progress [OF _ lf_exec.exec_nil y] by auto
qed

end
