(* ===== verification/Heap_Chains.thy ===== *)
theory Heap_Chains
  imports Store_Spec
begin

text \<open>
  What the stores with pointers share: slices, chains of nodes in a heap, and association
  lists whose keys occur once.
\<close>

section \<open>Slices\<close>

text \<open>Reading and assigning an element panics when the index is out of range.\<close>

definition index :: "'a list \<Rightarrow> nat \<Rightarrow> 'a res" where
  "index xs i = (if i < length xs then Inr (xs ! i) else Inl Panic)"

definition assign :: "'a list \<Rightarrow> nat \<Rightarrow> 'a \<Rightarrow> 'a list res" where
  "assign xs i x = (if i < length xs then Inr (xs[i := x]) else Inl Panic)"

text \<open>
  \<open>xs[i:]\<close>, and inserting an element by appending one, shifting the rest and assigning (\<open>insertAt\<close> of
  \<open>store/bptree.go\<close>).
\<close>

definition slice_from :: "nat \<Rightarrow> 'a list \<Rightarrow> 'a list res" where
  "slice_from i xs = (if i \<le> length xs then Inr (drop i xs) else Inl Panic)"

definition insertAt :: "'a list \<Rightarrow> nat \<Rightarrow> 'a \<Rightarrow> 'a list res" where
  "insertAt xs i x = (if i \<le> length xs then Inr (take i xs @ x # drop i xs) else Inl Panic)"

section \<open>Chains\<close>

text \<open>\<open>linked nx xs\<close>: following \<open>nx\<close> from the first address of \<open>xs\<close> passes the others and ends.\<close>

fun linked :: "(nat \<Rightarrow> nat option) \<Rightarrow> nat list \<Rightarrow> bool" where
  "linked nx [] \<longleftrightarrow> True"
| "linked nx [a] \<longleftrightarrow> nx a = None"
| "linked nx (a # b # xs) \<longleftrightarrow> nx a = Some b \<and> linked nx (b # xs)"

lemma linked_cong: "linked nx xs \<Longrightarrow> (\<And>a. a \<in> set xs \<Longrightarrow> nx' a = nx a) \<Longrightarrow> linked nx' xs"
  by (induction nx xs rule: linked.induct) auto

lemma linked_next:
  "linked nx (xs @ a # ys) \<Longrightarrow> nx a = (case ys of [] \<Rightarrow> None | b # _ \<Rightarrow> Some b)"
proof (induction xs)
  case Nil
  then show ?case by (cases ys) auto
next
  case (Cons x xs)
  then show ?case by (cases xs) auto
qed

lemma linked_insert:
  assumes "linked nx (xs @ p # ys)" and "distinct (xs @ p # ys)" and "n \<notin> set (xs @ p # ys)"
  shows "linked (nx(p := Some n, n := nx p)) (xs @ p # n # ys)"
  using assms
proof (induction xs)
  case Nil
  then show ?case by (cases ys) (auto intro: linked_cong)
next
  case (Cons x xs)
  then show ?case by (cases xs) auto
qed

lemma linked_delete:
  assumes "linked nx (xs @ p # c # ys)" and "distinct (xs @ p # c # ys)"
  shows "linked (nx(p := nx c)) (xs @ p # ys)"
  using assms
proof (induction xs)
  case Nil
  then show ?case by (cases ys) (auto intro: linked_cong)
next
  case (Cons x xs)
  then show ?case by (cases xs) auto
qed

definition hd_opt :: "'a list \<Rightarrow> 'a option" where
  "hd_opt xs = (case xs of [] \<Rightarrow> None | x # _ \<Rightarrow> Some x)"

section \<open>Association lists\<close>

lemma map_of_insert:
  "k \<notin> fst ` set (xs @ ys) \<Longrightarrow> map_of (xs @ (k, v) # ys) = (map_of (xs @ ys))(k \<mapsto> v)"
  by (induction xs) (auto simp: fun_eq_iff)

lemma map_of_remove:
  assumes "k \<notin> fst ` set (xs @ ys)"
  shows "map_of (xs @ ys) = (map_of (xs @ (k, v) # ys))(k := None)"
proof -
  have "map_of (xs @ ys) k = None" using assms by (subst map_of_eq_None_iff)
  then show ?thesis unfolding map_of_insert [OF assms] by (simp add: fun_upd_idem)
qed

end
