(* ===== verification/Skip_List_Store.thy ===== *)
theory Skip_List_Store
  imports Heap_Chains
begin

text \<open>
  \<open>SkipListStore\<close> (\<open>store/skiplist.go\<close>). Nodes live in an explicit heap: a pointer is an address, the
  slice \<open>next\<close> of a node is a list of pointers, and assignments through pointers update the heap.
  Indexing a slice out of range and following a nil pointer panic. The coin flips of \<open>skipLevel\<close> come
  from a stream in the store's state.

  A loop that follows pointers gets as much fuel as there are addresses. It only reads, so a run that
  passes more nodes than there are would come back to one of them and go on forever: running out of
  fuel is the fault \<open>Deadlock\<close>, and the refinement shows that it does not happen.
\<close>

section \<open>The heap\<close>

record skipNode =
  sk_key :: string
  sk_value :: string
  sk_next :: "nat option list"

type_synonym sk_heap = "nat \<rightharpoonup> skipNode"

record SkipListStore =
  sl_heap :: sk_heap
  sl_head :: nat
  sl_level :: nat
  sl_hashes :: hmap
  sl_free :: nat
  sl_coins :: "nat \<Rightarrow> bool"

definition skipMaxLevel :: nat where "skipMaxLevel = 32"

definition deref :: "sk_heap \<Rightarrow> nat option \<Rightarrow> skipNode res" where
  "deref h p = (case p of None \<Rightarrow> Inl Panic | Some a \<Rightarrow> (case h a of None \<Rightarrow> Inl Panic | Some n \<Rightarrow> Inr n))"

definition get_next :: "sk_heap \<Rightarrow> nat option \<Rightarrow> nat \<Rightarrow> nat option res" where
  "get_next h p i = bindr (deref h p) (\<lambda>n. index (sk_next n) i)"

definition set_next :: "nat option \<Rightarrow> nat \<Rightarrow> nat option \<Rightarrow> sk_heap \<Rightarrow> sk_heap res" where
  "set_next p i q h = bindr (deref h p) (\<lambda>n. bindr (assign (sk_next n) i q) (\<lambda>ns.
     Inr (h(the p \<mapsto> n\<lparr>sk_next := ns\<rparr>))))"

section \<open>The methods\<close>

definition NewSkipListStore :: "(nat \<Rightarrow> bool) \<Rightarrow> SkipListStore" where
  "NewSkipListStore coins = \<lparr>sl_heap = [0 \<mapsto> \<lparr>sk_key = [], sk_value = [], sk_next = replicate skipMaxLevel None\<rparr>],
     sl_head = 0, sl_level = 1, sl_hashes = Map.empty, sl_free = 1, sl_coins = coins\<rparr>"

function skipLevel_loop :: "nat \<Rightarrow> (nat \<Rightarrow> bool) \<Rightarrow> nat \<times> (nat \<Rightarrow> bool)" where
  "skipLevel_loop level coins =
     (if level < skipMaxLevel
      then if coins 0 then skipLevel_loop (level + 1) (\<lambda>i. coins (Suc i)) else (level, \<lambda>i. coins (Suc i))
      else (level, coins))"
  by pat_completeness auto

termination
  by (relation "measure (\<lambda>(level, coins). skipMaxLevel - level)") auto

definition skipLevel :: "(nat \<Rightarrow> bool) \<Rightarrow> nat \<times> (nat \<Rightarrow> bool)" where
  "skipLevel coins = skipLevel_loop 1 coins"

text \<open>The inner loop \<open>for curr.next[i] != nil && curr.next[i].key < key\<close>.\<close>

fun walk :: "nat \<Rightarrow> sk_heap \<Rightarrow> nat \<Rightarrow> string \<Rightarrow> nat option \<Rightarrow> nat option res" where
  "walk 0 h i key cur = Inl Deadlock"
| "walk (Suc fuel) h i key cur =
     bindr (get_next h cur i) (\<lambda>nx.
       if nx = None then Inr cur
       else bindr (deref h nx) (\<lambda>n.
         if sk_key n < key then walk fuel h i key nx else Inr cur))"

text \<open>The outer loop \<open>for i := s.level - 1; i >= 0; i--\<close>; the argument is the number of turns left.\<close>

fun descend :: "nat \<Rightarrow> sk_heap \<Rightarrow> string \<Rightarrow> nat \<Rightarrow> nat option \<Rightarrow> nat option list
    \<Rightarrow> (nat option \<times> nat option list) res" where
  "descend fuel h key 0 cur prev = Inr (cur, prev)"
| "descend fuel h key (Suc i) cur prev =
     bindr (walk fuel h i key cur) (\<lambda>c.
     bindr (assign prev i c) (\<lambda>prev'. descend fuel h key i c prev'))"

definition search :: "string \<Rightarrow> SkipListStore \<Rightarrow> (nat option \<times> nat option list) res" where
  "search key s =
     bindr (descend (sl_free s) (sl_heap s) key (sl_level s) (Some (sl_head s)) (replicate skipMaxLevel None))
       (\<lambda>(cur, prev). bindr (get_next (sl_heap s) cur 0) (\<lambda>c. Inr (c, prev)))"

text \<open>\<open>for i := s.level; i < level; i++ { prev[i] = s.head }\<close>.\<close>

fun raise :: "nat \<Rightarrow> nat \<Rightarrow> nat \<Rightarrow> nat option list \<Rightarrow> nat option list res" where
  "raise head i 0 prev = Inr prev"
| "raise head i (Suc n) prev = bindr (assign prev i (Some head)) (raise head (i + 1) n)"

text \<open>\<open>for i := range level\<close>: the new node takes the place of what its predecessor pointed to.\<close>

fun link :: "nat \<Rightarrow> nat option list \<Rightarrow> nat \<Rightarrow> nat \<Rightarrow> sk_heap \<Rightarrow> sk_heap res" where
  "link a prev i 0 h = Inr h"
| "link a prev i (Suc n) h =
     bindr (index prev i) (\<lambda>p.
     bindr (get_next h p i) (\<lambda>q.
     bindr (set_next (Some a) i q h) (\<lambda>h1.
     bindr (set_next p i (Some a) h1) (\<lambda>h2. link a prev (i + 1) n h2))))"

definition SkipListStore_Set :: "string \<Rightarrow> string \<Rightarrow> SkipListStore \<Rightarrow> SkipListStore res" where
  "SkipListStore_Set key val s =
     bindr (search key s) (\<lambda>(cur, prev).
     bindr (if cur = None then Inr False else bindr (deref (sl_heap s) cur) (\<lambda>n. Inr (sk_key n = key))) (\<lambda>found.
     if found
     then bindr (deref (sl_heap s) cur) (\<lambda>n.
            Inr (s\<lparr>sl_heap := (sl_heap s)(the cur \<mapsto> n\<lparr>sk_value := val\<rparr>)\<rparr>))
     else let (level, coins) = skipLevel (sl_coins s); a = sl_free s;
              s1 = s\<lparr>sl_coins := coins, sl_free := a + 1, sl_level := max (sl_level s) level,
                sl_heap := (sl_heap s)(a \<mapsto> \<lparr>sk_key = key, sk_value = val, sk_next = replicate level None\<rparr>)\<rparr>
          in bindr (raise (sl_head s) (sl_level s) (level - sl_level s) prev) (\<lambda>prev'.
             bindr (link a prev' 0 level (sl_heap s1)) (\<lambda>h. Inr (s1\<lparr>sl_heap := h\<rparr>)))))"

text \<open>\<open>for i := 0; i < len(curr.next); i++ { prev[i].next[i] = curr.next[i] }\<close>.\<close>

fun unlink :: "nat option \<Rightarrow> nat option list \<Rightarrow> nat \<Rightarrow> nat \<Rightarrow> sk_heap \<Rightarrow> sk_heap res" where
  "unlink cur prev i 0 h = Inr h"
| "unlink cur prev i (Suc n) h =
     bindr (index prev i) (\<lambda>p.
     bindr (get_next h cur i) (\<lambda>q.
     bindr (set_next p i q h) (\<lambda>h1. unlink cur prev (i + 1) n h1)))"

definition SkipListStore_Del :: "string \<Rightarrow> SkipListStore \<Rightarrow> SkipListStore res" where
  "SkipListStore_Del key s =
     bindr (search key s) (\<lambda>(cur, prev).
     bindr (if cur = None then Inr (sl_heap s)
            else bindr (deref (sl_heap s) cur) (\<lambda>n.
              if sk_key n = key then unlink cur prev 0 (length (sk_next n)) (sl_heap s) else Inr (sl_heap s)))
       (\<lambda>h. Inr (s\<lparr>sl_heap := h, sl_hashes := (sl_hashes s)(key := None)\<rparr>)))"

definition SkipListStore_Get :: "string \<Rightarrow> SkipListStore \<Rightarrow> string option res" where
  "SkipListStore_Get key s =
     bindr (search key s) (\<lambda>(cur, prev).
       if cur = None then Inr None
       else bindr (deref (sl_heap s) cur) (\<lambda>n. Inr (if sk_key n = key then Some (sk_value n) else None)))"

definition SkipListStore_HSet :: "string \<Rightarrow> string \<Rightarrow> string \<Rightarrow> SkipListStore \<Rightarrow> SkipListStore res" where
  "SkipListStore_HSet hash key val s = Inr (s\<lparr>sl_hashes := hashes_set hash key val (sl_hashes s)\<rparr>)"

definition SkipListStore_HGet :: "string \<Rightarrow> string \<Rightarrow> SkipListStore \<Rightarrow> string option res" where
  "SkipListStore_HGet hash key s = Inr (hashes_get hash key (sl_hashes s))"

definition SkipListStore_HGetAll :: "string \<Rightarrow> SkipListStore \<Rightarrow> smap option res" where
  "SkipListStore_HGetAll hash s = Inr (hashes_all hash (sl_hashes s))"

text \<open>The keys from a node on, along the lowest level, as long as the condition holds.\<close>

fun collect :: "nat \<Rightarrow> sk_heap \<Rightarrow> (string \<Rightarrow> bool) \<Rightarrow> nat option \<Rightarrow> string list res" where
  "collect 0 h P cur = Inl Deadlock"
| "collect (Suc fuel) h P cur =
     (if cur = None then Inr []
      else bindr (deref h cur) (\<lambda>n.
        if P (sk_key n)
        then bindr (get_next h cur 0) (\<lambda>nx. bindr (collect fuel h P nx) (\<lambda>ks. Inr (sk_key n # ks)))
        else Inr []))"

definition SkipListStore_PrefixKeys :: "string \<Rightarrow> SkipListStore \<Rightarrow> string list res" where
  "SkipListStore_PrefixKeys p s =
     bindr (search p s) (\<lambda>(cur, prev). collect (sl_free s) (sl_heap s) (prefix p) cur)"

definition SkipListStore_RangeKeys :: "string \<Rightarrow> string \<Rightarrow> SkipListStore \<Rightarrow> string list res" where
  "SkipListStore_RangeKeys start end s =
     bindr (search start s) (\<lambda>(cur, prev).
       bindr (collect (sl_free s) (sl_heap s) (\<lambda>k. k \<le> end) cur) (\<lambda>ks. Inr (filter (\<lambda>k. start \<le> k) ks)))"

definition SkipListStore_ops :: "SkipListStore store_ops" where
  "SkipListStore_ops = \<lparr>op_Set = SkipListStore_Set, op_Get = SkipListStore_Get,
     op_Del = SkipListStore_Del, op_HSet = SkipListStore_HSet, op_HGet = SkipListStore_HGet,
     op_HGetAll = SkipListStore_HGetAll, op_Close = \<lambda>s. s\<rparr>"

declare skipLevel_loop.simps [simp del]

section \<open>Reading and writing nodes\<close>

definition nxt :: "sk_heap \<Rightarrow> nat \<Rightarrow> nat \<Rightarrow> nat option" where
  "nxt h i a = (case h a of None \<Rightarrow> None | Some n \<Rightarrow> if i < length (sk_next n) then sk_next n ! i else None)"

definition hgt :: "sk_heap \<Rightarrow> nat \<Rightarrow> nat" where
  "hgt h a = (case h a of None \<Rightarrow> 0 | Some n \<Rightarrow> length (sk_next n))"

definition entry :: "sk_heap \<Rightarrow> nat \<Rightarrow> string \<times> string" where
  "entry h a = (case h a of None \<Rightarrow> ([], []) | Some n \<Rightarrow> (sk_key n, sk_value n))"

abbreviation key_of :: "sk_heap \<Rightarrow> nat \<Rightarrow> string" where "key_of h a \<equiv> fst (entry h a)"

lemma get_next_ok: "i < hgt h a \<Longrightarrow> get_next h (Some a) i = Inr (nxt h i a)"
  by (auto simp: get_next_def deref_def index_def hgt_def nxt_def split: option.splits)

lemma hgt_pos_dom: "0 < hgt h a \<Longrightarrow> \<exists>n. h a = Some n"
  by (auto simp: hgt_def split: option.splits)

lemma set_next_ok:
  assumes "i < hgt h a"
  shows "\<exists>h'. set_next (Some a) i q h = Inr h' \<and> dom h' = dom h \<and> hgt h' = hgt h \<and> entry h' = entry h
    \<and> (\<forall>j. nxt h' j = (if j = i then (nxt h i)(a := q) else nxt h j))"
proof -
  obtain n where n: "h a = Some n" "i < length (sk_next n)"
    using assms by (auto simp: hgt_def split: option.splits)
  let ?h' = "h(a \<mapsto> n\<lparr>sk_next := (sk_next n)[i := q]\<rparr>)"
  have "set_next (Some a) i q h = Inr ?h'" "dom ?h' = dom h"
    using n by (auto simp: set_next_def deref_def assign_def)
  moreover have "hgt ?h' = hgt h" "entry ?h' = entry h"
    using n(1) by (auto simp: hgt_def entry_def fun_eq_iff)
  moreover have "\<forall>j. nxt ?h' j = (if j = i then (nxt h i)(a := q) else nxt h j)"
    using n by (simp add: nxt_def fun_eq_iff nth_list_update)
  ultimately show ?thesis by blast
qed

section \<open>The invariant\<close>

text \<open>
  \<open>ns\<close> are the nodes in the order of their keys. The chain of level \<open>i\<close> is the head and those nodes
  that are high enough.
\<close>

definition sl_rep :: "SkipListStore \<Rightarrow> nat list \<Rightarrow> bool" where
  "sl_rep s ns \<longleftrightarrow> hgt (sl_heap s) (sl_head s) = skipMaxLevel
     \<and> 1 \<le> sl_level s \<and> sl_level s \<le> skipMaxLevel \<and> distinct (sl_head s # ns)
     \<and> (\<forall>a \<in> dom (sl_heap s). a < sl_free s)
     \<and> (\<forall>a \<in> set ns. 1 \<le> hgt (sl_heap s) a \<and> hgt (sl_heap s) a \<le> sl_level s)
     \<and> sorted_wrt (<) (map (key_of (sl_heap s)) ns)
     \<and> (\<forall>i < skipMaxLevel. linked (nxt (sl_heap s) i) (sl_head s # filter (\<lambda>a. i < hgt (sl_heap s) a) ns))"

lemma walk_ok:
  assumes "linked (nxt h i) (xs @ a # ys @ zs)" and "\<forall>b \<in> set (a # ys @ zs). i < hgt h b"
    and "\<forall>b \<in> set ys. key_of h b < key" and "\<forall>b \<in> set zs. \<not> key_of h b < key" and "length ys < fuel"
  shows "walk fuel h i key (Some a) = Inr (Some (last (a # ys)))"
  using assms
proof (induction ys arbitrary: xs a fuel)
  case Nil
  then obtain f where f: "fuel = Suc f" by (cases fuel) auto
  have nx: "nxt h i a = (case zs of [] \<Rightarrow> None | b # _ \<Rightarrow> Some b)"
    using linked_next [of "nxt h i" xs a zs] Nil.prems(1) by simp
  have g: "get_next h (Some a) i = Inr (nxt h i a)" using Nil.prems(2) by (simp add: get_next_ok)
  show ?case
  proof (cases zs)
    case (Cons b bs)
    then obtain n where "h b = Some n" using Nil.prems(2) hgt_pos_dom [of h b] by fastforce
    then show ?thesis using Cons f g nx Nil.prems(4) by (simp add: deref_def entry_def)
  qed (use f g nx in simp)
next
  case (Cons b ys)
  then obtain f where f: "fuel = Suc f" by (cases fuel) auto
  obtain n where n: "h b = Some n" using Cons.prems(2) hgt_pos_dom [of h b] by fastforce
  have "nxt h i a = Some b" using linked_next [of "nxt h i" xs a "b # ys @ zs"] Cons.prems(1) by simp
  then have "walk fuel h i key (Some a) = walk f h i key (Some b)"
    using f n Cons.prems(2,3) by (simp add: get_next_ok deref_def entry_def)
  then show ?case
    using Cons.IH [of "xs @ [a]" b f] Cons.prems f by auto
qed

definition pred :: "sk_heap \<Rightarrow> nat \<Rightarrow> nat list \<Rightarrow> nat \<Rightarrow> nat" where
  "pred h head us i = last (head # filter (\<lambda>a. i < hgt h a) us)"

lemma pred_mem: "pred h head us i \<in> set (head # us) \<and> (i < hgt h head \<longrightarrow> i < hgt h (pred h head us i))"
proof -
  have "pred h head us i \<in> set (head # filter (\<lambda>a. i < hgt h a) us)"
    unfolding pred_def by (rule last_in_set) simp
  then show ?thesis by auto
qed

lemma length_nodes:
  assumes "sl_rep s ns"
  shows "length ns < sl_free s"
proof -
  have "\<exists>n. sl_heap s a = Some n" if "a \<in> set (sl_head s # ns)" for a
    using that assms hgt_pos_dom [of "sl_heap s" a] by (auto simp: sl_rep_def skipMaxLevel_def)
  then have "set (sl_head s # ns) \<subseteq> {..<sl_free s}" using assms unfolding sl_rep_def by blast
  from card_mono [OF _ this] show ?thesis using assms distinct_card by (fastforce simp: sl_rep_def)
qed

text \<open>The nodes below a key and the others.\<close>

abbreviation below :: "SkipListStore \<Rightarrow> string \<Rightarrow> nat list \<Rightarrow> nat list" where
  "below s key ns \<equiv> takeWhile (\<lambda>a. key_of (sl_heap s) a < key) ns"

abbreviation above :: "SkipListStore \<Rightarrow> string \<Rightarrow> nat list \<Rightarrow> nat list" where
  "above s key ns \<equiv> dropWhile (\<lambda>a. key_of (sl_heap s) a < key) ns"

lemma above_not_less:
  assumes "sorted_wrt (<) (map f ns)" and "b \<in> set (dropWhile (\<lambda>a. f a < key) ns)"
  shows "\<not> f b < (key :: string)"
  using assms by (induction ns) (auto split: if_splits)

lemma level_walk:
  assumes "sl_rep s ns" and "i < skipMaxLevel" and "a \<in> set (sl_head s # below s key ns)" and "i < hgt (sl_heap s) a"
  shows "walk (sl_free s) (sl_heap s) i key (Some a) = Inr (Some (pred (sl_heap s) (sl_head s) (below s key ns) i))"
proof -
  let ?h = "sl_heap s" and ?us = "below s key ns" and ?vs = "above s key ns"
  let ?f = "filter (\<lambda>a. i < hgt ?h a)"
  have "a \<in> set (sl_head s # ?f ?us)" using assms(3,4) by auto
  then obtain xs ys where xy: "sl_head s # ?f ?us = xs @ a # ys" by (meson split_list)
  have "?f ?us @ ?f ?vs = ?f ns" by (metis filter_append takeWhile_dropWhile_id)
  moreover have "linked (nxt ?h i) (sl_head s # ?f ns)" using assms(1,2) by (simp add: sl_rep_def)
  ultimately have l: "linked (nxt ?h i) (xs @ a # ys @ ?f ?vs)" using xy by (metis append.assoc append_Cons)
  have ys: "set ys \<subseteq> set (?f ?us)" using xy by (cases xs) auto
  have "length (?f ?us) \<le> length ns"
    using length_filter_le length_takeWhile_le by (rule order_trans)
  then have "length ys < sl_free s" using arg_cong [OF xy, of length] length_nodes [OF assms(1)] by simp
  moreover have "\<forall>b \<in> set (?f ?vs). \<not> key_of ?h b < key"
    using above_not_less [of "key_of ?h" ns _ key] assms(1) unfolding sl_rep_def set_filter by blast
  moreover have "\<forall>b \<in> set ys. key_of ?h b < key"
    using ys set_takeWhileD [of _ "\<lambda>a. key_of ?h a < key" ns] unfolding set_filter by blast
  moreover have "\<forall>b \<in> set (a # ys @ ?f ?vs). i < hgt ?h b"
    using assms(4) ys unfolding set_simps set_append set_filter by blast
  ultimately have "walk (sl_free s) ?h i key (Some a) = Inr (Some (last (a # ys)))"
    using l by (intro walk_ok)
  also have "last (a # ys) = pred ?h (sl_head s) ?us i" using xy by (simp add: pred_def)
  finally show ?thesis .
qed

lemma descend_ok:
  assumes "sl_rep s ns" and "n \<le> skipMaxLevel" and "a \<in> set (sl_head s # below s key ns)" and "n \<le> hgt (sl_heap s) a"
    and "length prev = skipMaxLevel"
  shows "descend (sl_free s) (sl_heap s) key n (Some a) prev
    = Inr (Some (if n = 0 then a else pred (sl_heap s) (sl_head s) (below s key ns) 0),
        map (\<lambda>i. if i < n then Some (pred (sl_heap s) (sl_head s) (below s key ns) i) else prev ! i) [0..<skipMaxLevel])"
  using assms(2-)
proof (induction n arbitrary: a prev)
  case 0
  have "map (\<lambda>i. prev ! i) [0..<skipMaxLevel] = prev" using 0(4) by (metis map_nth)
  then show ?case by simp
next
  case (Suc n)
  let ?p = "pred (sl_heap s) (sl_head s) (below s key ns)"
  have "hgt (sl_heap s) (sl_head s) = skipMaxLevel" using assms(1) by (simp add: sl_rep_def)
  then have p: "?p n \<in> set (sl_head s # below s key ns)" "n < hgt (sl_heap s) (?p n)"
    using pred_mem [of "sl_heap s" "sl_head s" "below s key ns" n] Suc.prems(1) by auto
  have "walk (sl_free s) (sl_heap s) n key (Some a) = Inr (Some (?p n))"
    using level_walk [OF assms(1) _ Suc.prems(2), of n] Suc.prems(1,3) by simp
  moreover have "assign prev n (Some (?p n)) = Inr (prev[n := Some (?p n)])"
    using Suc.prems(1,4) by (simp add: assign_def)
  ultimately show ?case
    using Suc.IH [of "?p n" "prev[n := Some (?p n)]"] p Suc.prems by (auto simp: nth_list_update less_Suc_eq)
qed

definition preds :: "SkipListStore \<Rightarrow> string \<Rightarrow> nat list \<Rightarrow> nat option list" where
  "preds s key ns = map (\<lambda>i. if i < sl_level s then Some (pred (sl_heap s) (sl_head s) (below s key ns) i) else None)
     [0..<skipMaxLevel]"

lemma filter_high: "sl_rep s ns \<Longrightarrow> filter (\<lambda>a. 0 < hgt (sl_heap s) a) ns = ns"
  by (auto simp: sl_rep_def filter_id_conv Suc_le_eq)

lemma linked_low:
  assumes "sl_rep s ns"
  shows "linked (nxt (sl_heap s) 0) (sl_head s # ns)"
proof -
  have "0 < skipMaxLevel" by (simp add: skipMaxLevel_def)
  then have "linked (nxt (sl_heap s) 0) (sl_head s # filter (\<lambda>a. 0 < hgt (sl_heap s) a) ns)"
    using assms unfolding sl_rep_def by blast
  then show ?thesis using filter_high [OF assms] by simp
qed

lemma search_ok:
  assumes "sl_rep s ns"
  shows "search key s = Inr (hd_opt (above s key ns), preds s key ns)"
proof -
  let ?h = "sl_heap s" and ?us = "below s key ns" and ?vs = "above s key ns"
  have lev: "1 \<le> sl_level s" "sl_level s \<le> skipMaxLevel" "hgt ?h (sl_head s) = skipMaxLevel"
    using assms by (simp_all add: sl_rep_def)
  have "map (\<lambda>i. if i < sl_level s then Some (pred ?h (sl_head s) ?us i) else replicate skipMaxLevel None ! i)
      [0..<skipMaxLevel] = preds s key ns"
    by (simp add: preds_def)
  then have d: "descend (sl_free s) ?h key (sl_level s) (Some (sl_head s)) (replicate skipMaxLevel None)
      = Inr (Some (pred ?h (sl_head s) ?us 0), preds s key ns)"
    using descend_ok [OF assms lev(2), of "sl_head s" key "replicate skipMaxLevel None"] lev by simp
  have "linked (nxt ?h 0) (sl_head s # ns)"
    by (rule linked_low [OF assms])
  then have "linked (nxt ?h 0) (butlast (sl_head s # ?us) @ last (sl_head s # ?us) # ?vs)"
    by (metis append_butlast_last_id append_Cons append.assoc append_Nil list.distinct(1) takeWhile_dropWhile_id)
  from linked_next [OF this] have "nxt ?h 0 (last (sl_head s # ?us)) = hd_opt ?vs" by (simp add: hd_opt_def)
  moreover have "filter (\<lambda>a. 0 < hgt ?h a) ?us = ?us"
    using assms by (intro filter_True ballI) (auto simp: sl_rep_def Suc_le_eq dest: set_takeWhileD)
  ultimately have "nxt ?h 0 (pred ?h (sl_head s) ?us 0) = hd_opt ?vs" by (simp add: pred_def)
  moreover have "get_next ?h (Some (pred ?h (sl_head s) ?us 0)) 0 = Inr (nxt ?h 0 (pred ?h (sl_head s) ?us 0))"
    using pred_mem [of ?h "sl_head s" ?us 0] lev(3) by (intro get_next_ok) (simp add: skipMaxLevel_def)
  ultimately show ?thesis using d by (simp add: search_def)
qed

section \<open>Abstraction\<close>

fun level0 :: "nat \<Rightarrow> sk_heap \<Rightarrow> nat option \<Rightarrow> nat list" where
  "level0 (Suc f) h (Some a) = a # level0 f h (nxt h 0 a)"
| "level0 _ h _ = []"

definition sl_nodes :: "SkipListStore \<Rightarrow> nat list" where
  "sl_nodes s = level0 (sl_free s) (sl_heap s) (nxt (sl_heap s) 0 (sl_head s))"

definition sl_abs :: "SkipListStore \<Rightarrow> astore" where
  "sl_abs s = \<lparr>astr = map_of (map (entry (sl_heap s)) (sl_nodes s)), ahash = sl_hashes s\<rparr>"

definition sl_inv :: "SkipListStore \<Rightarrow> bool" where
  "sl_inv s \<longleftrightarrow> sl_rep s (sl_nodes s)"

lemma level0_linked:
  "linked (nxt h 0) (a # ns) \<Longrightarrow> length ns \<le> fuel \<Longrightarrow> level0 fuel h (nxt h 0 a) = ns"
proof (induction ns arbitrary: a fuel)
  case Nil
  then show ?case by (cases fuel) auto
next
  case (Cons b ns)
  then show ?case by (cases fuel) auto
qed

lemma sl_nodes_eq:
  assumes "sl_rep s ns"
  shows "sl_nodes s = ns"
proof -
  have "linked (nxt (sl_heap s) 0) (sl_head s # ns)"
    by (rule linked_low [OF assms])
  then show ?thesis using length_nodes [OF assms] by (simp add: sl_nodes_def level0_linked)
qed

lemma sl_rep_inv: "sl_rep s ns \<Longrightarrow> sl_inv s \<and> sl_abs s = \<lparr>astr = map_of (map (entry (sl_heap s)) ns), ahash = sl_hashes s\<rparr>"
  by (simp add: sl_inv_def sl_abs_def sl_nodes_eq)

lemma map_of_above:
  assumes "sorted_wrt (<) (map (key_of h) ns)"
  shows "map_of (map (entry h) ns) key = (case dropWhile (\<lambda>a. key_of h a < key) ns of
    [] \<Rightarrow> None | a # _ \<Rightarrow> if key_of h a = key then Some (snd (entry h a)) else None)"
  using assms
proof (induction ns)
  case (Cons a ns)
  have "map_of (map (entry h) ns) key = None" if "\<not> key_of h a < key" "key_of h a \<noteq> key"
  proof -
    have "key < key_of h a" using that by simp
    moreover have "\<forall>b \<in> set ns. key_of h a < key_of h b" using Cons.prems by simp
    ultimately have "\<forall>b \<in> set ns. key_of h b \<noteq> key" by auto
    then have "key \<notin> fst ` set (map (entry h) ns)" by auto
    then show ?thesis by (simp add: map_of_eq_None_iff)
  qed
  then show ?case using Cons by (cases "entry h a") auto
qed simp

lemma above_Cons:
  assumes "sl_rep s ns" and "above s key ns = a # vs"
  shows "\<exists>n. sl_heap s a = Some n \<and> entry (sl_heap s) a = (sk_key n, sk_value n)"
proof -
  have "a \<in> set ns" using set_dropWhileD [of a "\<lambda>a. key_of (sl_heap s) a < key" ns] assms(2) by simp
  then have "0 < hgt (sl_heap s) a" using assms(1) by (auto simp: sl_rep_def Suc_le_eq)
  then show ?thesis using hgt_pos_dom [of "sl_heap s" a] by (auto simp: entry_def)
qed

lemma Get_ok:
  assumes "sl_inv s"
  shows "SkipListStore_Get key s = Inr (astr (sl_abs s) key)"
proof -
  have r: "sl_rep s (sl_nodes s)" using assms by (simp add: sl_inv_def)
  have "sorted_wrt (<) (map (key_of (sl_heap s)) (sl_nodes s))" using r by (simp add: sl_rep_def)
  note m = map_of_above [OF this, of key]
  show ?thesis
  proof (cases "above s key (sl_nodes s)")
    case Nil
    show ?thesis using m [unfolded Nil] search_ok [OF r, of key, unfolded Nil]
      by (simp add: SkipListStore_Get_def hd_opt_def sl_abs_def)
  next
    case (Cons a vs)
    show ?thesis using above_Cons [OF r Cons] m [unfolded Cons] search_ok [OF r, of key, unfolded Cons]
      by (auto simp: SkipListStore_Get_def hd_opt_def sl_abs_def deref_def)
  qed
qed

section \<open>The loops of Set and Del\<close>

lemma skipLevel_range: "1 \<le> fst (skipLevel coins) \<and> fst (skipLevel coins) \<le> skipMaxLevel"
proof -
  have "level \<le> skipMaxLevel \<Longrightarrow> level \<le> fst (skipLevel_loop level coins)
      \<and> fst (skipLevel_loop level coins) \<le> skipMaxLevel" for level coins
  proof (induction level coins rule: skipLevel_loop.induct)
    case (1 level coins)
    then show ?case by (auto simp: skipLevel_loop.simps [of level coins])
  qed
  from this [of 1] show ?thesis by (simp add: skipLevel_def skipMaxLevel_def)
qed

lemma raise_ok:
  assumes "i + n \<le> length prev"
  shows "raise head i n prev = Inr (map (\<lambda>j. if i \<le> j \<and> j < i + n then Some head else prev ! j) [0..<length prev])"
  using assms
proof (induction n arbitrary: i prev)
  case 0
  show ?case by (auto intro!: nth_equalityI)
next
  case (Suc n)
  then have "raise head i (Suc n) prev = raise head (i + 1) n (prev[i := Some head])"
    by (simp add: assign_def)
  also have "\<dots> = Inr (map (\<lambda>j. if i \<le> j \<and> j < i + Suc n then Some head else prev ! j) [0..<length prev])"
    using Suc by (auto simp: nth_list_update)
  finally show ?case .
qed

text \<open>
  What the two loops do to the pointers of each level they visit; heights, keys and values stay.
  \<open>p j\<close> is the predecessor of the new or the old node at level \<open>j\<close>.
\<close>

lemma link_ok:
  assumes "\<forall>j. i \<le> j \<and> j < i + n \<longrightarrow> j < length prev \<and> prev ! j = Some (p j) \<and> j < hgt h (p j) \<and> j < hgt h a \<and> p j \<noteq> a"
  shows "\<exists>h'. link a prev i n h = Inr h' \<and> dom h' = dom h \<and> hgt h' = hgt h \<and> entry h' = entry h
    \<and> (\<forall>j. nxt h' j = (if i \<le> j \<and> j < i + n then (nxt h j)(p j := Some a, a := nxt h j (p j)) else nxt h j))"
  using assms
proof (induction n arbitrary: i h)
  case 0
  then show ?case by auto
next
  case (Suc n)
  then have i: "i < length prev" "prev ! i = Some (p i)" "i < hgt h (p i)" "i < hgt h a" "p i \<noteq> a"
    by auto
  obtain h1 where h1: "set_next (Some a) i (nxt h i (p i)) h = Inr h1" "dom h1 = dom h" "hgt h1 = hgt h"
    "entry h1 = entry h" "\<forall>j. nxt h1 j = (if j = i then (nxt h i)(a := nxt h i (p i)) else nxt h j)"
    using set_next_ok [OF i(4)] by blast
  obtain h2 where h2: "set_next (Some (p i)) i (Some a) h1 = Inr h2" "dom h2 = dom h" "hgt h2 = hgt h"
    "entry h2 = entry h" "\<forall>j. nxt h2 j = (if j = i then (nxt h1 i)(p i := Some a) else nxt h1 j)"
    using set_next_ok [of i h1 "p i" "Some a"] i(3) h1(2-4) by auto
  have "\<forall>j. i + 1 \<le> j \<and> j < i + 1 + n \<longrightarrow>
      j < length prev \<and> prev ! j = Some (p j) \<and> j < hgt h2 (p j) \<and> j < hgt h2 a \<and> p j \<noteq> a"
    using Suc.prems h2(3) by simp
  from Suc.IH [OF this] obtain h' where h': "link a prev (i + 1) n h2 = Inr h'" "dom h' = dom h"
    "hgt h' = hgt h" "entry h' = entry h"
    "\<forall>j. nxt h' j = (if i + 1 \<le> j \<and> j < i + 1 + n then (nxt h2 j)(p j := Some a, a := nxt h2 j (p j)) else nxt h2 j)"
    using h2(2-4) by auto
  have "link a prev i (Suc n) h = Inr h'"
    using i h1(1) h2(1) h'(1) by (simp add: index_def get_next_ok)
  moreover have "\<forall>j. nxt h' j = (if i \<le> j \<and> j < i + Suc n then (nxt h j)(p j := Some a, a := nxt h j (p j)) else nxt h j)"
    using h'(5) h2(5) h1(5) i(5) by (auto simp: fun_upd_twist)
  ultimately show ?case using h'(2-4) by blast
qed

lemma unlink_ok:
  assumes "\<forall>j. i \<le> j \<and> j < i + n \<longrightarrow> j < length prev \<and> prev ! j = Some (p j) \<and> j < hgt h (p j) \<and> j < hgt h c"
  shows "\<exists>h'. unlink (Some c) prev i n h = Inr h' \<and> dom h' = dom h \<and> hgt h' = hgt h \<and> entry h' = entry h
    \<and> (\<forall>j. nxt h' j = (if i \<le> j \<and> j < i + n then (nxt h j)(p j := nxt h j c) else nxt h j))"
  using assms
proof (induction n arbitrary: i h)
  case 0
  then show ?case by auto
next
  case (Suc n)
  then have i: "i < length prev" "prev ! i = Some (p i)" "i < hgt h (p i)" "i < hgt h c" by auto
  obtain h1 where h1: "set_next (Some (p i)) i (nxt h i c) h = Inr h1" "dom h1 = dom h" "hgt h1 = hgt h"
    "entry h1 = entry h" "\<forall>j. nxt h1 j = (if j = i then (nxt h i)(p i := nxt h i c) else nxt h j)"
    using set_next_ok [OF i(3)] by blast
  have "\<forall>j. i + 1 \<le> j \<and> j < i + 1 + n \<longrightarrow>
      j < length prev \<and> prev ! j = Some (p j) \<and> j < hgt h1 (p j) \<and> j < hgt h1 c"
    using Suc.prems h1(3) by simp
  from Suc.IH [OF this] obtain h' where h': "unlink (Some c) prev (i + 1) n h1 = Inr h'" "dom h' = dom h"
    "hgt h' = hgt h" "entry h' = entry h"
    "\<forall>j. nxt h' j = (if i + 1 \<le> j \<and> j < i + 1 + n then (nxt h1 j)(p j := nxt h1 j c) else nxt h1 j)"
    using h1(2-4) by auto
  have "unlink (Some c) prev i (Suc n) h = Inr h'"
    using i h1(1) h'(1) by (simp add: index_def get_next_ok)
  moreover have "\<forall>j. nxt h' j = (if i \<le> j \<and> j < i + Suc n then (nxt h j)(p j := nxt h j c) else nxt h j)"
    using h'(5) h1(5) by auto
  ultimately show ?case using h'(2-4) by blast
qed

section \<open>Insertion and removal keep the invariant\<close>

lemma rep_nodes_dom:
  assumes "sl_rep s ns" and "a \<in> set (sl_head s # ns)"
  shows "a \<in> dom (sl_heap s)"
  using assms hgt_pos_dom [of "sl_heap s" a] by (auto simp: sl_rep_def skipMaxLevel_def)

lemma rep_free:
  assumes "sl_rep s ns"
  shows "sl_free s \<notin> set (sl_head s # ns)" "sl_heap s (sl_free s) = None"
proof -
  have "sl_free s \<notin> dom (sl_heap s)" using assms unfolding sl_rep_def by (metis less_irrefl)
  then show "sl_free s \<notin> set (sl_head s # ns)" "sl_heap s (sl_free s) = None"
    using rep_nodes_dom [OF assms, of "sl_free s"] by auto
qed

lemma linked_chain_insert:
  assumes "linked nx (head # filter P (us @ vs))" and "distinct (head # us @ vs)" and "a \<notin> set (head # us @ vs)"
    and "p = last (head # filter P us)"
  shows "linked (nx(p := Some a, a := nx p)) (head # filter P us @ a # filter P vs)"
proof -
  obtain xs where xs: "head # filter P us = xs @ [p]"
    using assms(4) by (metis append_butlast_last_id list.distinct(1))
  then have e: "head # filter P (us @ vs) = xs @ p # filter P vs" "head # filter P us @ a # filter P vs = xs @ p # a # filter P vs"
    by (metis append.assoc append_Cons append_Nil filter_append)+
  have "distinct (head # filter P (us @ vs))" "a \<notin> set (head # filter P (us @ vs))" using assms(2,3) by auto
  then show ?thesis using linked_insert [of nx xs p "filter P vs" a] assms(1) unfolding e by blast
qed

lemma rep_insert:
  assumes r: "sl_rep s (us @ vs)" and l: "1 \<le> l" "l \<le> skipMaxLevel"
    and us: "\<forall>b \<in> set us. key_of (sl_heap s) b < key" and vs: "\<forall>b \<in> set vs. key < key_of (sl_heap s) b"
    and h': "dom h' = insert (sl_free s) (dom (sl_heap s))" "hgt h' = (hgt (sl_heap s))(sl_free s := l)"
      "entry h' = (entry (sl_heap s))(sl_free s := (key, val))"
      "\<forall>j. nxt h' j = (if j < l
         then (nxt (sl_heap s) j)(pred (sl_heap s) (sl_head s) us j := Some (sl_free s),
           sl_free s := nxt (sl_heap s) j (pred (sl_heap s) (sl_head s) us j))
         else (nxt (sl_heap s) j)(sl_free s := None))"
  shows "sl_rep (s\<lparr>sl_coins := c, sl_free := sl_free s + 1, sl_level := max (sl_level s) l, sl_heap := h'\<rparr>)
    (us @ sl_free s # vs)"
proof -
  let ?h = "sl_heap s" and ?a = "sl_free s"
  have na: "?a \<notin> set (sl_head s # us @ vs)" by (rule rep_free(1) [OF r])
  have dist: "distinct (sl_head s # us @ vs)" using r by (simp add: sl_rep_def)
  have hgt: "b \<noteq> ?a \<Longrightarrow> hgt h' b = hgt ?h b" "b \<noteq> ?a \<Longrightarrow> key_of h' b = key_of ?h b" for b
    using h'(2,3) by simp_all
  have high: "filter (\<lambda>b. j < hgt h' b) (us @ ?a # vs) = filter (\<lambda>b. j < hgt ?h b) us
      @ (if j < l then [?a] else []) @ filter (\<lambda>b. j < hgt ?h b) vs" for j
  proof -
    have "filter (\<lambda>b. j < hgt h' b) bs = filter (\<lambda>b. j < hgt ?h b) bs" if "?a \<notin> set bs" for bs
      using that hgt(1) by (intro filter_cong refl) metis
    moreover have "hgt h' ?a = l" using h'(2) by simp
    ultimately show ?thesis using na by simp
  qed
  have chains: "linked (nxt h' j) (sl_head s # filter (\<lambda>b. j < hgt h' b) (us @ ?a # vs))" if j: "j < skipMaxLevel" for j
  proof -
    have old: "linked (nxt ?h j) (sl_head s # filter (\<lambda>b. j < hgt ?h b) (us @ vs))"
      using r j by (simp add: sl_rep_def)
    show ?thesis
    proof (cases "j < l")
      case True
      then have nx: "nxt h' j = (nxt ?h j)(pred ?h (sl_head s) us j := Some ?a, ?a := nxt ?h j (pred ?h (sl_head s) us j))"
        using h'(4) by simp
      show ?thesis
        using linked_chain_insert [OF old dist na pred_def [of ?h "sl_head s" us j]] True
        unfolding high nx by simp
    next
      case False
      have "linked (nxt h' j) (sl_head s # filter (\<lambda>b. j < hgt ?h b) (us @ vs))"
        using na h'(4) False by (intro linked_cong [OF old]) auto
      then show ?thesis using False unfolding high by simp
    qed
  qed
  have keys: "map (key_of h') (us @ ?a # vs) = map (key_of ?h) us @ key # map (key_of ?h) vs"
    using na hgt(2) h'(3) by auto
  have "sorted_wrt (<) (map (key_of ?h) (us @ vs))" using r by (simp add: sl_rep_def)
  then have "sorted_wrt (<) (map (key_of h') (us @ ?a # vs))"
    using us vs unfolding keys by (auto simp: sorted_wrt_append)
  moreover have "\<forall>b \<in> set (us @ vs). 1 \<le> hgt ?h b \<and> hgt ?h b \<le> sl_level s" using r by (simp add: sl_rep_def)
  then have "\<forall>b \<in> set (us @ ?a # vs). 1 \<le> hgt h' b \<and> hgt h' b \<le> max (sl_level s) l"
    using l(1) h'(2) by (auto simp: le_max_iff_disj)
  moreover have "hgt h' (sl_head s) = skipMaxLevel" "\<forall>b \<in> dom h'. b < sl_free s + 1" "1 \<le> max (sl_level s) l"
    "max (sl_level s) l \<le> skipMaxLevel"
    using r na hgt(1) h'(1) l unfolding sl_rep_def by (auto simp: less_Suc_eq)
  ultimately show ?thesis using dist na chains by (simp add: sl_rep_def)
qed

lemma raise_preds:
  assumes "sl_rep s ns" and "l \<le> skipMaxLevel"
  shows "\<exists>prev. raise (sl_head s) (sl_level s) (l - sl_level s) (preds s key ns) = Inr prev \<and> length prev = skipMaxLevel
    \<and> (\<forall>j < l. prev ! j = Some (pred (sl_heap s) (sl_head s) (below s key ns) j))"
proof -
  have high: "pred (sl_heap s) (sl_head s) (below s key ns) j = sl_head s" if "sl_level s \<le> j" for j
  proof -
    have "\<forall>b \<in> set ns. hgt (sl_heap s) b \<le> sl_level s" using assms(1) by (simp add: sl_rep_def)
    then have "\<not> j < hgt (sl_heap s) b" if "b \<in> set (below s key ns)" for b
      using set_takeWhileD [OF that] \<open>sl_level s \<le> j\<close> by force
    then have "filter (\<lambda>b. j < hgt (sl_heap s) b) (below s key ns) = []" by (simp add: filter_empty_conv)
    then show ?thesis by (simp add: pred_def)
  qed
  have len: "length (preds s key ns) = skipMaxLevel" by (simp add: preds_def)
  moreover have "sl_level s \<le> skipMaxLevel" using assms(1) by (simp add: sl_rep_def)
  ultimately have "sl_level s + (l - sl_level s) \<le> length (preds s key ns)" using assms(2) by simp
  from raise_ok [OF this, of "sl_head s"] show ?thesis
    using assms(2) high len by (auto simp: preds_def)
qed

lemma alloc_node:
  assumes "h a = None"
  shows "hgt (h(a \<mapsto> \<lparr>sk_key = key, sk_value = val, sk_next = replicate l None\<rparr>)) = (hgt h)(a := l)"
    and "entry (h(a \<mapsto> \<lparr>sk_key = key, sk_value = val, sk_next = replicate l None\<rparr>)) = (entry h)(a := (key, val))"
    and "nxt (h(a \<mapsto> \<lparr>sk_key = key, sk_value = val, sk_next = replicate l None\<rparr>)) j = (nxt h j)(a := None)"
  by (auto simp: hgt_def entry_def nxt_def fun_eq_iff)

text \<open>What the proofs of the methods know about the nodes below a key and the others.\<close>

lemma rep_split:
  assumes "sl_inv s"
  obtains us vs where "sl_nodes s = us @ vs" "below s key (us @ vs) = us"
    "sl_rep s (us @ vs)" "\<forall>b \<in> set us. key_of (sl_heap s) b < key" "\<forall>b \<in> set vs. \<not> key_of (sl_heap s) b < key"
    "\<forall>b \<in> set (tl vs). key < key_of (sl_heap s) b"
    "search key s = Inr (hd_opt vs, preds s key (us @ vs))"
proof -
  define us vs where uv: "us = below s key (sl_nodes s)" "vs = above s key (sl_nodes s)"
  have ns: "sl_nodes s = us @ vs" by (simp add: uv)
  then have r: "sl_rep s (us @ vs)" using assms by (simp add: sl_inv_def)
  then have sorted: "sorted_wrt (<) (map (key_of (sl_heap s)) (us @ vs))" by (simp add: sl_rep_def)
  have us: "\<forall>b \<in> set us. key_of (sl_heap s) b < key" unfolding uv by (auto dest: set_takeWhileD)
  have vs: "\<forall>b \<in> set vs. \<not> key_of (sl_heap s) b < key"
    using above_not_less [OF sorted [folded ns], of _ key] unfolding uv(2) by blast
  have "\<forall>b \<in> set (tl vs). key < key_of (sl_heap s) b"
  proof (cases vs)
    case (Cons a ws)
    then show ?thesis using sorted vs by (auto simp: sorted_wrt_append not_less)
  qed simp
  moreover have "below s key (us @ vs) = us" "above s key (us @ vs) = vs" unfolding ns [symmetric] by (simp_all only: uv)
  ultimately show ?thesis using that ns r us vs search_ok [OF r, of key] by metis
qed

lemma Set_found:
  fixes val :: string
  assumes "sl_rep s (us @ a # vs)" and "key_of (sl_heap s) a = key" and "\<forall>b \<in> set us. key_of (sl_heap s) b < key"
    and "\<forall>b \<in> set vs. key < key_of (sl_heap s) b" and "sl_heap s a = Some n"
  defines "s' \<equiv> s\<lparr>sl_heap := (sl_heap s)(a \<mapsto> n\<lparr>sk_value := val\<rparr>)\<rparr>"
  shows "sl_inv s' \<and> sl_abs s' = a_set key val (sl_abs s)"
proof -
  let ?h = "sl_heap s" and ?h' = "sl_heap s'"
  have h': "hgt ?h' = hgt ?h" "nxt ?h' = nxt ?h" "dom ?h' = dom ?h" "entry ?h' = (entry ?h)(a := (key, val))"
    using assms(2,5) by (auto simp: s'_def hgt_def nxt_def entry_def fun_eq_iff)
  have na: "a \<notin> set us" "a \<notin> set vs" using assms(1) by (auto simp: sl_rep_def)
  have "key_of ?h' = key_of ?h" using h'(4) assms(2) by auto
  then have "sl_rep s' (us @ a # vs)"
    using assms(1) h'(1-3) unfolding sl_rep_def by (simp add: s'_def)
  from sl_rep_inv [OF this] sl_rep_inv [OF assms(1)] show ?thesis
    using map_of_insert [of key "map (entry ?h) us" "map (entry ?h) vs"] h'(4) na assms(2-4)
    by (cases "entry ?h a") (force simp: s'_def a_set_def)
qed

lemma Set_new:
  fixes val :: string and c :: "nat \<Rightarrow> bool"
  assumes r: "sl_rep s (us @ vs)" and us: "\<forall>b \<in> set us. key_of (sl_heap s) b < key"
    and vs: "\<forall>b \<in> set vs. key < key_of (sl_heap s) b" and l: "1 \<le> l" "l \<le> skipMaxLevel"
    and prev: "length prev = skipMaxLevel" "\<forall>j < l. prev ! j = Some (pred (sl_heap s) (sl_head s) us j)"
  defines "s1 \<equiv> s\<lparr>sl_coins := c, sl_free := sl_free s + 1, sl_level := max (sl_level s) l,
    sl_heap := (sl_heap s)(sl_free s \<mapsto> \<lparr>sk_key = key, sk_value = val, sk_next = replicate l None\<rparr>)\<rparr>"
  shows "\<exists>h. link (sl_free s) prev 0 l (sl_heap s1) = Inr h
    \<and> sl_inv (s1\<lparr>sl_heap := h\<rparr>) \<and> sl_abs (s1\<lparr>sl_heap := h\<rparr>) = a_set key val (sl_abs s)"
proof -
  let ?h = "sl_heap s" and ?a = "sl_free s" and ?p = "pred (sl_heap s) (sl_head s) us"
  have na: "?a \<notin> set (sl_head s # us @ vs)" "?h ?a = None" by (rule rep_free [OF r])+
  have h1: "hgt (sl_heap s1) = (hgt ?h)(?a := l)" "entry (sl_heap s1) = (entry ?h)(?a := (key, val))"
    "nxt (sl_heap s1) j = (nxt ?h j)(?a := None)" "dom (sl_heap s1) = insert ?a (dom ?h)" for j
    using alloc_node [of ?h ?a, OF na(2)] by (simp_all add: s1_def)
  have top: "hgt ?h (sl_head s) = skipMaxLevel" using r by (simp add: sl_rep_def)
  have p: "?p j \<noteq> ?a" "j < skipMaxLevel \<Longrightarrow> j < hgt ?h (?p j)" for j
    using pred_mem [of ?h "sl_head s" us j] na(1) top by auto
  have "\<forall>j. 0 \<le> j \<and> j < 0 + l \<longrightarrow> j < length prev \<and> prev ! j = Some (?p j) \<and> j < hgt (sl_heap s1) (?p j)
      \<and> j < hgt (sl_heap s1) ?a \<and> ?p j \<noteq> ?a"
    using prev l(2) p h1(1) by simp
  from link_ok [OF this] obtain h where h: "link ?a prev 0 l (sl_heap s1) = Inr h"
    "dom h = dom (sl_heap s1)" "hgt h = hgt (sl_heap s1)" "entry h = entry (sl_heap s1)"
    "\<forall>j. nxt h j = (if j < l then (nxt (sl_heap s1) j)(?p j := Some ?a, ?a := nxt (sl_heap s1) j (?p j))
       else nxt (sl_heap s1) j)"
    by auto
  have "\<forall>j. nxt h j = (if j < l then (nxt ?h j)(?p j := Some ?a, ?a := nxt ?h j (?p j)) else (nxt ?h j)(?a := None))"
    using h(5) h1(3) p(1) by (auto simp: fun_upd_twist)
  from rep_insert [OF r l us vs _ _ _ this, of val c] h(2-4) h1
  have rep: "sl_rep (s1\<lparr>sl_heap := h\<rparr>) (us @ ?a # vs)" by (simp add: s1_def)
  have m: "map (entry h) (us @ ?a # vs) = map (entry ?h) us @ (key, val) # map (entry ?h) vs"
    using h(4) h1(2) na(1) by auto
  have k: "key \<notin> fst ` set (map (entry ?h) us @ map (entry ?h) vs)" using us vs by auto
  have "map_of (map (entry h) (us @ ?a # vs)) = (map_of (map (entry ?h) (us @ vs)))(key \<mapsto> val)"
    unfolding m using map_of_insert [OF k] by simp
  then have "sl_abs (s1\<lparr>sl_heap := h\<rparr>) = a_set key val (sl_abs s)"
    using conjunct2 [OF sl_rep_inv [OF rep]] conjunct2 [OF sl_rep_inv [OF r]]
    by (simp add: s1_def a_set_def del: map_append list.map)
  then show ?thesis using h(1) sl_rep_inv [OF rep] by blast
qed

lemma Set_ok:
  assumes "sl_inv s"
  shows "\<exists>s'. SkipListStore_Set key val s = Inr s' \<and> sl_inv s' \<and> sl_abs s' = a_set key val (sl_abs s)"
proof -
  obtain us vs where ns: "below s key (us @ vs) = us"
    and r: "sl_rep s (us @ vs)" and us: "\<forall>b \<in> set us. key_of (sl_heap s) b < key"
    and vs: "\<forall>b \<in> set vs. \<not> key_of (sl_heap s) b < key" "\<forall>b \<in> set (tl vs). key < key_of (sl_heap s) b"
    and search: "search key s = Inr (hd_opt vs, preds s key (us @ vs))"
    using rep_split [OF assms, of key] by metis
  show ?thesis
  proof (cases "vs \<noteq> [] \<and> key_of (sl_heap s) (hd vs) = key")
    case True
    then obtain a ws where a: "vs = a # ws" "key_of (sl_heap s) a = key" by (cases vs) auto
    have "a \<in> dom (sl_heap s)" using rep_nodes_dom [OF r] a(1) by simp
    then obtain n where n: "sl_heap s a = Some n" by blast
    then show ?thesis
      using Set_found [OF r [unfolded a(1)] a(2) us _ n] vs(2) search a
      by (simp add: SkipListStore_Set_def hd_opt_def deref_def entry_def)
  next
    case False
    then have new: "\<forall>b \<in> set vs. key < key_of (sl_heap s) b" using vs by (cases vs) auto
    obtain l c where l: "skipLevel (sl_coins s) = (l, c)" by fastforce
    then have range: "1 \<le> l" "l \<le> skipMaxLevel" using skipLevel_range [of "sl_coins s"] by auto
    obtain prev where prev: "raise (sl_head s) (sl_level s) (l - sl_level s) (preds s key (us @ vs)) = Inr prev"
      "length prev = skipMaxLevel" "\<forall>j < l. prev ! j = Some (pred (sl_heap s) (sl_head s) us j)"
      using raise_preds [OF r range(2), of key] ns by metis
    have "bindr (if hd_opt vs = None then Inr False
        else bindr (deref (sl_heap s) (hd_opt vs)) (\<lambda>n. Inr (sk_key n = key))) f = f False" for f :: "bool \<Rightarrow> SkipListStore res"
    proof (cases vs)
      case (Cons a ws)
      have "a \<in> dom (sl_heap s)" using rep_nodes_dom [OF r] Cons by simp
      then show ?thesis using Cons False by (auto simp: hd_opt_def deref_def entry_def)
    qed (simp add: hd_opt_def)
    then show ?thesis
      using Set_new [OF r us new range prev(2,3), of val c] l prev(1) search
      by (auto simp: SkipListStore_Set_def)
  qed
qed

lemma linked_chain_delete:
  assumes "linked nx (head # filter P (us @ c # vs))" and "distinct (head # us @ c # vs)" and "P c"
    and "p = last (head # filter P us)"
  shows "linked (nx(p := nx c)) (head # filter P (us @ vs))"
proof -
  obtain xs where xs: "head # filter P us = xs @ [p]"
    using assms(4) by (metis append_butlast_last_id list.distinct(1))
  then have e: "head # filter P (us @ vs) = xs @ p # filter P vs"
    by (metis append.assoc append_Cons append_Nil filter_append)
  have e': "head # filter P (us @ c # vs) = xs @ p # c # filter P vs"
    using xs assms(3) by (metis append.assoc append_Cons append_Nil filter.simps(2) filter_append)
  have "distinct (head # filter P (us @ c # vs))" using assms(2) by auto
  then show ?thesis using linked_delete [of nx xs p c "filter P vs"] assms(1) unfolding e e' by blast
qed

lemma rep_delete:
  assumes r: "sl_rep s (us @ c # vs)"
    and h': "dom h' = dom (sl_heap s)" "hgt h' = hgt (sl_heap s)" "entry h' = entry (sl_heap s)"
      "\<forall>j. nxt h' j = (if j < hgt (sl_heap s) c
         then (nxt (sl_heap s) j)(pred (sl_heap s) (sl_head s) us j := nxt (sl_heap s) j c) else nxt (sl_heap s) j)"
  shows "sl_rep (s\<lparr>sl_heap := h', sl_hashes := hs\<rparr>) (us @ vs)"
proof -
  let ?h = "sl_heap s"
  have chains: "linked (nxt h' j) (sl_head s # filter (\<lambda>b. j < hgt ?h b) (us @ vs))" if "j < skipMaxLevel" for j
  proof -
    have old: "linked (nxt ?h j) (sl_head s # filter (\<lambda>b. j < hgt ?h b) (us @ c # vs))" and
      dist: "distinct (sl_head s # us @ c # vs)" using r that by (simp_all add: sl_rep_def)
    show ?thesis
    proof (cases "j < hgt ?h c")
      case True
      then show ?thesis
        using linked_chain_delete [OF old dist True pred_def [of ?h "sl_head s" us j]] h'(4) by simp
    next
      case False
      then show ?thesis using old h'(4) by simp
    qed
  qed
  with r h' show ?thesis by (auto simp: sl_rep_def sorted_wrt_append)
qed

lemma Del_ok:
  assumes "sl_inv s"
  shows "\<exists>s'. SkipListStore_Del key s = Inr s' \<and> sl_inv s' \<and> sl_abs s' = a_del key (sl_abs s)"
proof -
  obtain us vs where ns: "below s key (us @ vs) = us"
    and r: "sl_rep s (us @ vs)" and us: "\<forall>b \<in> set us. key_of (sl_heap s) b < key"
    and vs: "\<forall>b \<in> set vs. \<not> key_of (sl_heap s) b < key" "\<forall>b \<in> set (tl vs). key < key_of (sl_heap s) b"
    and search: "search key s = Inr (hd_opt vs, preds s key (us @ vs))"
    using rep_split [OF assms, of key] by metis
  let ?h = "sl_heap s" and ?p = "pred (sl_heap s) (sl_head s) us" and ?hs = "(sl_hashes s)(key := None)"
  show ?thesis
  proof (cases "vs \<noteq> [] \<and> key_of ?h (hd vs) = key")
    case True
    then obtain c ws where c: "vs = c # ws" "key_of ?h c = key" by (cases vs) auto
    have "c \<in> dom ?h" using rep_nodes_dom [OF r] c(1) by simp
    then obtain n where n: "?h c = Some n" by blast
    have lev: "hgt ?h c \<le> sl_level s" "sl_level s \<le> skipMaxLevel" "hgt ?h (sl_head s) = skipMaxLevel"
      using r c(1) by (simp_all add: sl_rep_def)
    have "\<forall>j. 0 \<le> j \<and> j < 0 + hgt ?h c \<longrightarrow> j < length (preds s key (us @ vs))
        \<and> preds s key (us @ vs) ! j = Some (?p j) \<and> j < hgt ?h (?p j) \<and> j < hgt ?h c"
      using lev pred_mem [of ?h "sl_head s" us] ns by (auto simp: preds_def)
    from unlink_ok [OF this] obtain h' where h': "unlink (Some c) (preds s key (us @ vs)) 0 (hgt ?h c) ?h = Inr h'"
      "dom h' = dom ?h" "hgt h' = hgt ?h" "entry h' = entry ?h"
      "\<forall>j. nxt h' j = (if j < hgt ?h c then (nxt ?h j)(?p j := nxt ?h j c) else nxt ?h j)" by auto
    let ?s' = "s\<lparr>sl_heap := h', sl_hashes := ?hs\<rparr>"
    have rep: "sl_rep ?s' (us @ ws)" by (rule rep_delete [OF r [unfolded c(1)] h'(2-5)])
    have "SkipListStore_Del key s = Inr ?s'"
      using search c n h'(1) by (simp add: SkipListStore_Del_def hd_opt_def deref_def entry_def hgt_def)
    have k: "key \<notin> fst ` set (map (entry ?h) us @ map (entry ?h) ws)" using us vs(2) c(1) by auto
    have m: "map (entry ?h) (us @ c # ws) = map (entry ?h) us @ (key, snd (entry ?h c)) # map (entry ?h) ws"
      using c(2) by (cases "entry ?h c") simp
    have "map_of (map (entry h') (us @ ws)) = (map_of (map (entry ?h) (us @ c # ws)))(key := None)"
      unfolding m using map_of_remove [OF k, of "snd (entry ?h c)"] by (simp only: h'(4) map_append)
    then have "sl_abs ?s' = a_del key (sl_abs s)"
      using conjunct2 [OF sl_rep_inv [OF rep]] conjunct2 [OF sl_rep_inv [OF r]] c(1)
      by (simp add: a_del_def del: map_append list.map)
    then show ?thesis using \<open>SkipListStore_Del key s = Inr ?s'\<close> sl_rep_inv [OF rep] by blast
  next
    case False
    have "SkipListStore_Del key s = Inr (s\<lparr>sl_hashes := ?hs\<rparr>)"
    proof (cases vs)
      case (Cons a ws)
      have "a \<in> dom ?h" using rep_nodes_dom [OF r] Cons by simp
      then show ?thesis using Cons False search by (auto simp: SkipListStore_Del_def hd_opt_def deref_def entry_def)
    qed (use search in \<open>simp add: SkipListStore_Del_def hd_opt_def\<close>)
    moreover have "\<forall>b \<in> set vs. key < key_of ?h b" using vs False by (cases vs) auto
    then have "map_of (map (entry ?h) (us @ vs)) key = None" using us by (subst map_of_eq_None_iff) auto
    moreover have "sl_rep (s\<lparr>sl_hashes := ?hs\<rparr>) (us @ vs)" using r by (simp add: sl_rep_def)
    ultimately show ?thesis
      using conjunct2 [OF sl_rep_inv [OF r]] sl_rep_inv by (fastforce simp: a_del_def fun_upd_idem_iff)
  qed
qed

section \<open>Ordered listings\<close>

lemma collect_ok:
  assumes "linked (nxt h 0) (x # ys)" and "\<forall>b \<in> set ys. 0 < hgt h b" and "length ys < fuel"
  shows "collect fuel h P (hd_opt ys) = Inr (takeWhile P (map (key_of h) ys))"
  using assms
proof (induction ys arbitrary: x fuel)
  case Nil
  then show ?case by (cases fuel) (simp_all add: hd_opt_def)
next
  case (Cons b ys)
  then obtain f where f: "fuel = Suc f" by (cases fuel) auto
  obtain n where n: "h b = Some n" using Cons.prems(2) hgt_pos_dom [of h b] by auto
  have "nxt h 0 b = hd_opt ys" using linked_next [of "nxt h 0" "[x]" b ys] Cons.prems(1) by (simp add: hd_opt_def)
  moreover have "get_next h (Some b) 0 = Inr (nxt h 0 b)" using Cons.prems(2) by (simp add: get_next_ok)
  moreover have "collect f h P (hd_opt ys) = Inr (takeWhile P (map (key_of h) ys))"
    using Cons.IH [of b f] Cons.prems f by simp
  ultimately show ?case
    using n f by (simp add: hd_opt_def [of "b # ys"] deref_def entry_def)
qed

lemma collect_from:
  assumes "sl_inv s"
  shows "\<exists>prev. search key s = Inr (hd_opt (above s key (sl_nodes s)), prev)
    \<and> collect (sl_free s) (sl_heap s) P (hd_opt (above s key (sl_nodes s)))
      = Inr (takeWhile P (dropWhile (\<lambda>k. k < key) (map (key_of (sl_heap s)) (sl_nodes s))))"
proof -
  have r: "sl_rep s (sl_nodes s)" using assms by (simp add: sl_inv_def)
  let ?us = "below s key (sl_nodes s)" and ?vs = "above s key (sl_nodes s)"
  have tail: "linked nx (xs @ ys) \<Longrightarrow> linked nx ys" for nx xs ys
    by (induction nx xs rule: linked.induct) (auto elim: linked.elims)
  have "linked (nxt (sl_heap s) 0) ((sl_head s # ?us) @ ?vs)" using linked_low [OF r] by simp
  then have "linked (nxt (sl_heap s) 0) (butlast (sl_head s # ?us) @ last (sl_head s # ?us) # ?vs)"
    by (metis append_butlast_last_id append.assoc append_Cons append_Nil list.distinct(1))
  then have l: "linked (nxt (sl_heap s) 0) (last (sl_head s # ?us) # ?vs)" by (rule tail)
  have "\<forall>b \<in> set ?vs. 0 < hgt (sl_heap s) b"
    using r by (auto simp: sl_rep_def Suc_le_eq dest: set_dropWhileD)
  moreover have "length ?vs < sl_free s"
    using length_nodes [OF r] length_dropWhile_le le_less_trans by blast
  ultimately have "collect (sl_free s) (sl_heap s) P (hd_opt ?vs) = Inr (takeWhile P (map (key_of (sl_heap s)) ?vs))"
    by (rule collect_ok [OF l])
  then show ?thesis using search_ok [OF r, of key] by (simp add: dropWhile_map comp_def)
qed

lemma nodes_keys:
  assumes "sl_inv s"
  shows "sorted_wrt (<) (map (key_of (sl_heap s)) (sl_nodes s))"
    and "set (map (key_of (sl_heap s)) (sl_nodes s)) = dom (astr (sl_abs s))"
  using assms by (auto simp: sl_inv_def sl_rep_def sl_abs_def dom_map_of_conv_image_fst image_image)

section \<open>The contract\<close>

interpretation skiplist: total_store SkipListStore_ops sl_inv sl_abs "\<lambda>_. True"
proof unfold_locales
  fix s :: SkipListStore
  assume inv: "sl_inv s"
  show "op_Get SkipListStore_ops k s = Inr (astr (sl_abs s) k)" for k
    using Get_ok [OF inv] by (simp add: SkipListStore_ops_def)
  show "op_HSet SkipListStore_ops h f v s = Inr s' \<Longrightarrow> sl_inv s' \<and> sl_abs s' = a_hset h f v (sl_abs s)" for h f v s'
    using inv by (auto simp: SkipListStore_ops_def SkipListStore_HSet_def sl_inv_def sl_rep_def sl_nodes_def
        sl_abs_def a_hset_def)
  show "op_HGet SkipListStore_ops h f s = Inr (hashes_get h f (ahash (sl_abs s)))" for h f
    by (simp add: SkipListStore_ops_def SkipListStore_HGet_def sl_abs_def)
  show "op_HGetAll SkipListStore_ops h s = Inr (ahash (sl_abs s) h)" for h
    by (simp add: SkipListStore_ops_def SkipListStore_HGetAll_def sl_abs_def)
  show "op_Set SkipListStore_ops k v s = Inr s' \<Longrightarrow> sl_inv s' \<and> sl_abs s' = a_set k v (sl_abs s)"
    "\<exists>s'. op_Set SkipListStore_ops k v s = Inr s'" for k v s'
    using Set_ok [OF inv, of k v] by (auto simp: SkipListStore_ops_def)
  show "op_Del SkipListStore_ops k s = Inr s' \<Longrightarrow> sl_inv s' \<and> sl_abs s' = a_del k (sl_abs s)"
    "\<exists>s'. op_Del SkipListStore_ops k s = Inr s'" for k s'
    using Del_ok [OF inv, of k] by (auto simp: SkipListStore_ops_def)
qed (simp_all add: SkipListStore_ops_def SkipListStore_HSet_def)

interpretation skiplist: ordered_store SkipListStore_ops sl_inv sl_abs "\<lambda>_. True"
  SkipListStore_PrefixKeys SkipListStore_RangeKeys
proof unfold_locales
  fix s :: SkipListStore
  assume inv: "sl_inv s"
  show "\<exists>ks. SkipListStore_PrefixKeys p s = Inr ks \<and> sorted_keys (prefix p) (astr (sl_abs s)) ks" for p
    using collect_from [OF inv, of p "prefix p"] prefix_listing [OF nodes_keys [OF inv], of p]
    by (auto simp: SkipListStore_PrefixKeys_def)
  show "\<exists>ks. SkipListStore_RangeKeys lo hi s = Inr ks
      \<and> sorted_keys (\<lambda>k. lo \<le> k \<and> k \<le> hi) (astr (sl_abs s)) ks" for lo hi
    using collect_from [OF inv, of lo "\<lambda>k. k \<le> hi"] range_listing [OF nodes_keys [OF inv], of lo hi]
    by (auto simp: SkipListStore_RangeKeys_def)
qed

lemma NewSkipListStore_inv: "sl_inv (NewSkipListStore coins) \<and> sl_abs (NewSkipListStore coins) = a_empty"
proof -
  have "sl_rep (NewSkipListStore coins) []"
    by (simp add: sl_rep_def NewSkipListStore_def hgt_def nxt_def skipMaxLevel_def)
  from sl_rep_inv [OF this] show ?thesis by (simp add: a_empty_def NewSkipListStore_def)
qed

section \<open>Properties\<close>

text \<open>
  C6: Whatever levels the coin flips give, every sequence of calls on a new skip list returns: no slice
  is indexed out of range, no nil pointer is followed, no search runs forever. It replies what the
  abstract store replies; afterwards \<open>PrefixKeys\<close> and \<open>RangeKeys\<close> list, in increasing order, exactly the
  string keys with the prefix or in the range.
\<close>

theorem skip_list_correct:
  "\<exists>s. calls SkipListStore_ops cs (NewSkipListStore coins) = Inr (fst (a_calls cs a_empty), s)
    \<and> (\<exists>ks. SkipListStore_PrefixKeys p s = Inr ks
          \<and> sorted_keys (\<lambda>k. prefix p k) (astr (snd (a_calls cs a_empty))) ks)
    \<and> (\<exists>ks. SkipListStore_RangeKeys lo hi s = Inr ks
          \<and> sorted_keys (\<lambda>k. lo \<le> k \<and> k \<le> hi) (astr (snd (a_calls cs a_empty))) ks)"
proof -
  obtain s where s: "calls SkipListStore_ops cs (NewSkipListStore coins) = Inr (fst (a_calls cs a_empty), s)"
    "sl_inv s" "sl_abs s = snd (a_calls cs a_empty)"
    using skiplist.calls_correct [of "NewSkipListStore coins" cs] NewSkipListStore_inv by auto
  then show ?thesis
    using skiplist.PrefixKeys_law [OF s(2), of p] skiplist.RangeKeys_law [OF s(2), of lo hi] by auto
qed

end
