(* ===== verification/BPTree_Store.thy ===== *)
theory BPTree_Store
  imports Heap_Chains
begin

text \<open>
  \<open>BPTreeStore\<close> (\<open>store/bptree.go\<close>): a B+ tree whose leaves are chained. Nodes live in an explicit
  heap, since the code changes them through pointers, compares pointers to find a node's parent, and
  follows \<open>next\<close> from leaf to leaf. Indexing or slicing out of range and following a nil pointer panic.

  A loop or a recursion that follows pointers gets as much fuel as there are addresses; running out of
  fuel is the fault \<open>Deadlock\<close>. The refinement (theory \<open>BPTree_Refinement\<close>) shows that no fault occurs.
\<close>

section \<open>The heap\<close>

record bpNode =
  bp_keys :: "string list"
  bp_children :: "nat list"
  bp_values :: "string list option"
  bp_next :: "nat option"

type_synonym bp_heap = "nat \<rightharpoonup> bpNode"

record BPTreeStore =
  bt_heap :: bp_heap
  bt_root :: nat
  bt_hashes :: hmap
  bt_free :: nat

definition bpOrder :: nat where "bpOrder = 32"

definition newLeaf :: bpNode where
  "newLeaf = \<lparr>bp_keys = [], bp_children = [], bp_values = Some [], bp_next = None\<rparr>"

definition newInternal :: bpNode where
  "newInternal = \<lparr>bp_keys = [], bp_children = [], bp_values = None, bp_next = None\<rparr>"

definition isLeaf :: "bpNode \<Rightarrow> bool" where
  "isLeaf n \<longleftrightarrow> bp_values n \<noteq> None"

text \<open>A nil slice has no elements.\<close>

definition values_of :: "bpNode \<Rightarrow> string list" where
  "values_of n = (case bp_values n of None \<Rightarrow> [] | Some vs \<Rightarrow> vs)"

definition bp_deref :: "bp_heap \<Rightarrow> nat \<Rightarrow> bpNode res" where
  "bp_deref h a = (case h a of None \<Rightarrow> Inl Panic | Some n \<Rightarrow> Inr n)"

definition bp_put :: "nat \<Rightarrow> bpNode \<Rightarrow> BPTreeStore \<Rightarrow> BPTreeStore" where
  "bp_put a n s = s\<lparr>bt_heap := (bt_heap s)(a \<mapsto> n)\<rparr>"

definition bp_alloc :: "bpNode \<Rightarrow> BPTreeStore \<Rightarrow> nat \<times> BPTreeStore" where
  "bp_alloc n s = (bt_free s, s\<lparr>bt_heap := (bt_heap s)(bt_free s \<mapsto> n), bt_free := bt_free s + 1\<rparr>)"

definition NewBPTreeStore :: BPTreeStore where
  "NewBPTreeStore = \<lparr>bt_heap = [0 \<mapsto> newLeaf], bt_root = 0, bt_hashes = Map.empty, bt_free = 1\<rparr>"

section \<open>Binary search\<close>

text \<open>\<open>sort.Search\<close> of the standard library.\<close>

function search_loop :: "(nat \<Rightarrow> bool) \<Rightarrow> nat \<Rightarrow> nat \<Rightarrow> nat" where
  "search_loop f i j =
     (if i < j
      then let h = (i + j) div 2 in if \<not> f h then search_loop f (h + 1) j else search_loop f i h
      else i)"
  by pat_completeness auto

termination
  by (relation "measure (\<lambda>(f, i, j). j - i)") auto

definition sort_Search :: "nat \<Rightarrow> (nat \<Rightarrow> bool) \<Rightarrow> nat" where
  "sort_Search n f = search_loop f 0 n"

declare search_loop.simps [simp del]

section \<open>The methods\<close>

fun searchLeaf :: "nat \<Rightarrow> bp_heap \<Rightarrow> string \<Rightarrow> nat \<Rightarrow> nat res" where
  "searchLeaf 0 h key n = Inl Deadlock"
| "searchLeaf (Suc fuel) h key n =
     bindr (bp_deref h n) (\<lambda>nd.
       if isLeaf nd then Inr n
       else bindr (index (bp_children nd) (sort_Search (length (bp_keys nd)) (\<lambda>i. bp_keys nd ! i > key)))
              (searchLeaf fuel h key))"

text \<open>The position of a key in a leaf.\<close>

definition leaf_index :: "bpNode \<Rightarrow> string \<Rightarrow> nat" where
  "leaf_index leaf key = sort_Search (length (bp_keys leaf)) (\<lambda>i. bp_keys leaf ! i \<ge> key)"

definition leaf_has :: "bpNode \<Rightarrow> string \<Rightarrow> bool" where
  "leaf_has leaf key \<longleftrightarrow>
     leaf_index leaf key < length (bp_keys leaf) \<and> bp_keys leaf ! leaf_index leaf key = key"

definition BPTreeStore_Get :: "string \<Rightarrow> BPTreeStore \<Rightarrow> string option res" where
  "BPTreeStore_Get key s =
     bindr (searchLeaf (bt_free s) (bt_heap s) key (bt_root s)) (\<lambda>a.
     bindr (bp_deref (bt_heap s) a) (\<lambda>leaf.
       if leaf_has leaf key
       then bindr (index (values_of leaf) (leaf_index leaf key)) (\<lambda>v. Inr (Some v))
       else Inr None))"

definition BPTreeStore_Del :: "string \<Rightarrow> BPTreeStore \<Rightarrow> BPTreeStore res" where
  "BPTreeStore_Del key s =
     bindr (searchLeaf (bt_free s) (bt_heap s) key (bt_root s)) (\<lambda>a.
     bindr (bp_deref (bt_heap s) a) (\<lambda>leaf.
       let i = leaf_index leaf key
       in bindr (if leaf_has leaf key
                 then bindr (slice_from (i + 1) (bp_keys leaf)) (\<lambda>ks.
                      bindr (slice_from (i + 1) (values_of leaf)) (\<lambda>vs.
                        Inr (bp_put a (leaf\<lparr>bp_keys := take i (bp_keys leaf) @ ks,
                          bp_values := Some (take i (values_of leaf) @ vs)\<rparr>) s)))
                 else Inr s)
            (\<lambda>s'. Inr (s'\<lparr>bt_hashes := (bt_hashes s')(key := None)\<rparr>))))"

text \<open>The range over the children in \<open>findParent\<close>; \<open>rec\<close> is the recursive call.\<close>

fun find_among ::
    "(nat \<Rightarrow> (nat option \<times> nat) res) \<Rightarrow> bp_heap \<Rightarrow> nat \<Rightarrow> nat \<Rightarrow> nat \<Rightarrow> nat list \<Rightarrow> (nat option \<times> nat) res" where
  "find_among rec h n target i [] = Inr (None, 0)"
| "find_among rec h n target i (child # cs) =
     (if child = target then Inr (Some n, i)
      else bindr (bp_deref h child) (\<lambda>nd.
        if isLeaf nd then find_among rec h n target (i + 1) cs
        else bindr (rec child) (\<lambda>(p, idx).
          if p \<noteq> None then Inr (p, idx) else find_among rec h n target (i + 1) cs)))"

fun findParent :: "nat \<Rightarrow> bp_heap \<Rightarrow> nat \<Rightarrow> nat \<Rightarrow> (nat option \<times> nat) res" where
  "findParent 0 h target n = Inl Deadlock"
| "findParent (Suc fuel) h target n =
     bindr (bp_deref h n) (\<lambda>nd.
       if isLeaf nd then Inr (None, 0)
       else find_among (findParent fuel h target) h n target 0 (bp_children nd))"

text \<open>
  Putting a new right sibling into the tree: above the root, or behind its left sibling in the parent,
  which is returned. The first half of \<open>insertIntoParent\<close> and the second of \<open>splitInternal\<close>.
\<close>

definition place :: "nat \<Rightarrow> string \<Rightarrow> nat \<Rightarrow> BPTreeStore \<Rightarrow> (nat option \<times> BPTreeStore) res" where
  "place left key right s =
     (if bt_root s = left
      then let (a, s1) = bp_alloc (newInternal\<lparr>bp_keys := [key], bp_children := [left, right]\<rparr>) s
           in Inr (None, s1\<lparr>bt_root := a\<rparr>)
      else bindr (findParent (bt_free s) (bt_heap s) left (bt_root s)) (\<lambda>(p, childIdx).
        case p of None \<Rightarrow> Inl Panic
        | Some parent \<Rightarrow>
            bindr (bp_deref (bt_heap s) parent) (\<lambda>nd.
            bindr (insertAt (bp_keys nd) childIdx key) (\<lambda>ks.
            bindr (insertAt (bp_children nd) (childIdx + 1) right) (\<lambda>cs.
              Inr (Some parent, bp_put parent (nd\<lparr>bp_keys := ks, bp_children := cs\<rparr>) s))))))"

text \<open>The first half of \<open>splitInternal\<close>: the key to promote, the new node, and the halved one.\<close>

definition halve :: "nat \<Rightarrow> BPTreeStore \<Rightarrow> (string \<times> nat \<times> BPTreeStore) res" where
  "halve n s =
     (let mid = bpOrder div 2
      in bindr (bp_deref (bt_heap s) n) (\<lambda>nd.
         bindr (index (bp_keys nd) mid) (\<lambda>promoteKey.
         bindr (slice_from (mid + 1) (bp_keys nd)) (\<lambda>ks.
         bindr (slice_from (mid + 1) (bp_children nd)) (\<lambda>cs.
           let (a, s1) = bp_alloc (newInternal\<lparr>bp_keys := ks, bp_children := cs\<rparr>) s
           in Inr (promoteKey, a, bp_put n (nd\<lparr>bp_keys := take mid (bp_keys nd),
                bp_children := take (mid + 1) (bp_children nd)\<rparr>) s1))))))"

fun splitInternal :: "nat \<Rightarrow> nat \<Rightarrow> BPTreeStore \<Rightarrow> BPTreeStore res" where
  "splitInternal 0 n s = Inl Deadlock"
| "splitInternal (Suc fuel) n s =
     bindr (halve n s) (\<lambda>(promoteKey, a, s1).
     bindr (place n promoteKey a s1) (\<lambda>(p, s2).
       case p of None \<Rightarrow> Inr s2
       | Some parent \<Rightarrow>
           bindr (bp_deref (bt_heap s2) parent) (\<lambda>nd.
             if length (bp_keys nd) \<ge> bpOrder then splitInternal fuel parent s2 else Inr s2)))"

definition insertIntoParent :: "nat \<Rightarrow> string \<Rightarrow> nat \<Rightarrow> BPTreeStore \<Rightarrow> BPTreeStore res" where
  "insertIntoParent left key right s =
     bindr (place left key right s) (\<lambda>(p, s1).
       case p of None \<Rightarrow> Inr s1
       | Some parent \<Rightarrow>
           bindr (bp_deref (bt_heap s1) parent) (\<lambda>nd.
             if length (bp_keys nd) < bpOrder then Inr s1 else splitInternal (bt_free s1) parent s1))"

definition split_leaf :: "nat \<Rightarrow> BPTreeStore \<Rightarrow> BPTreeStore res" where
  "split_leaf leaf s =
     (let mid = bpOrder div 2
      in bindr (bp_deref (bt_heap s) leaf) (\<lambda>nd.
         bindr (slice_from mid (bp_keys nd)) (\<lambda>ks.
         bindr (slice_from mid (values_of nd)) (\<lambda>vs.
           let (a, s1) = bp_alloc (newLeaf\<lparr>bp_keys := ks, bp_values := Some vs, bp_next := bp_next nd\<rparr>) s;
               s2 = bp_put leaf (nd\<lparr>bp_keys := take mid (bp_keys nd),
                 bp_values := Some (take mid (values_of nd)), bp_next := Some a\<rparr>) s1
           in bindr (index ks 0) (\<lambda>promoteKey. insertIntoParent leaf promoteKey a s2)))))"

definition BPTreeStore_Set :: "string \<Rightarrow> string \<Rightarrow> BPTreeStore \<Rightarrow> BPTreeStore res" where
  "BPTreeStore_Set key val s =
     bindr (searchLeaf (bt_free s) (bt_heap s) key (bt_root s)) (\<lambda>a.
     bindr (bp_deref (bt_heap s) a) (\<lambda>leaf.
       let i = leaf_index leaf key
       in if leaf_has leaf key
          then bindr (assign (values_of leaf) i val) (\<lambda>vs. Inr (bp_put a (leaf\<lparr>bp_values := Some vs\<rparr>) s))
          else bindr (insertAt (bp_keys leaf) i key) (\<lambda>ks.
               bindr (insertAt (values_of leaf) i val) (\<lambda>vs.
                 let s1 = bp_put a (leaf\<lparr>bp_keys := ks, bp_values := Some vs\<rparr>) s
                 in if length ks < bpOrder then Inr s1 else split_leaf a s1))))"

definition BPTreeStore_HSet :: "string \<Rightarrow> string \<Rightarrow> string \<Rightarrow> BPTreeStore \<Rightarrow> BPTreeStore res" where
  "BPTreeStore_HSet hash key val s = Inr (s\<lparr>bt_hashes := hashes_set hash key val (bt_hashes s)\<rparr>)"

definition BPTreeStore_HGet :: "string \<Rightarrow> string \<Rightarrow> BPTreeStore \<Rightarrow> string option res" where
  "BPTreeStore_HGet hash key s = Inr (hashes_get hash key (bt_hashes s))"

definition BPTreeStore_HGetAll :: "string \<Rightarrow> BPTreeStore \<Rightarrow> smap option res" where
  "BPTreeStore_HGetAll hash s = Inr (hashes_all hash (bt_hashes s))"

text \<open>
  The two listings: keys that satisfy \<open>P\<close> are collected, another one ends the listing when it
  satisfies \<open>stop\<close>. The flag says that the listing has ended.
\<close>

fun scan_keys :: "(string \<Rightarrow> bool) \<Rightarrow> (string \<Rightarrow> bool) \<Rightarrow> string list \<Rightarrow> string list \<times> bool" where
  "scan_keys P stop [] = ([], False)"
| "scan_keys P stop (k # ks) =
     (if P k then let (out, ended) = scan_keys P stop ks in (k # out, ended)
      else if stop k then ([], True) else scan_keys P stop ks)"

fun scan_leaves :: "nat \<Rightarrow> bp_heap \<Rightarrow> (string \<Rightarrow> bool) \<Rightarrow> (string \<Rightarrow> bool) \<Rightarrow> nat option \<Rightarrow> string list res" where
  "scan_leaves 0 h P stop leaf = Inl Deadlock"
| "scan_leaves (Suc fuel) h P stop leaf =
     (case leaf of None \<Rightarrow> Inr []
      | Some a \<Rightarrow>
          bindr (bp_deref h a) (\<lambda>nd.
            let (out, ended) = scan_keys P stop (bp_keys nd)
            in if ended then Inr out
               else bindr (scan_leaves fuel h P stop (bp_next nd)) (\<lambda>ks. Inr (out @ ks))))"

definition BPTreeStore_PrefixKeys :: "string \<Rightarrow> BPTreeStore \<Rightarrow> string list res" where
  "BPTreeStore_PrefixKeys p s =
     bindr (searchLeaf (bt_free s) (bt_heap s) p (bt_root s)) (\<lambda>a.
       scan_leaves (bt_free s + 1) (bt_heap s) (prefix p) (\<lambda>k. k > p \<and> \<not> prefix p k) (Some a))"

definition BPTreeStore_RangeKeys :: "string \<Rightarrow> string \<Rightarrow> BPTreeStore \<Rightarrow> string list res" where
  "BPTreeStore_RangeKeys start end s =
     bindr (searchLeaf (bt_free s) (bt_heap s) start (bt_root s)) (\<lambda>a.
       scan_leaves (bt_free s + 1) (bt_heap s) (\<lambda>k. k \<ge> start \<and> k \<le> end) (\<lambda>k. k > end) (Some a))"

definition BPTreeStore_ops :: "BPTreeStore store_ops" where
  "BPTreeStore_ops = \<lparr>op_Set = BPTreeStore_Set, op_Get = BPTreeStore_Get,
     op_Del = BPTreeStore_Del, op_HSet = BPTreeStore_HSet, op_HGet = BPTreeStore_HGet,
     op_HGetAll = BPTreeStore_HGetAll, op_Close = \<lambda>s. s\<rparr>"

end
