(* ===== verification/BPTree_Trees.thy ===== *)
theory BPTree_Trees
  imports BPTree_Store "HOL-Library.Product_Lexorder" "HOL-Library.Multiset"
begin

text \<open>
  The trees the heap of \<open>BPTree_Store\<close> represents. Their nodes carry the addresses; the place in the
  tree where the code works is a list of frames, from the node up to the root. The descent to a leaf
  and the search for a node's parent are described in these terms.
\<close>

section \<open>Binary search\<close>

lemma search_loop_first:
  assumes mono: "\<forall>k l. k \<le> l \<and> l < n \<and> f k \<longrightarrow> f l"
    and "i \<le> j" and "j \<le> n" and "\<forall>k < i. \<not> f k" and "\<forall>k. j \<le> k \<and> k < n \<longrightarrow> f k"
  shows "search_loop f i j \<le> n \<and> (\<forall>k < search_loop f i j. \<not> f k) \<and> (\<forall>k. search_loop f i j \<le> k \<and> k < n \<longrightarrow> f k)"
  using assms(2-)
proof (induction "j - i" arbitrary: i j rule: less_induct)
  case less
  let ?h = "(i + j) div 2"
  consider "i = j" | "i < j" "f ?h" | "i < j" "\<not> f ?h" using less.prems(1) le_less by blast
  then show ?case
  proof cases
    case 1
    then have "search_loop f i j = i" by (subst search_loop.simps) simp
    then show ?thesis using 1 less.prems by simp
  next
    case 2
    then have eq: "search_loop f i j = search_loop f i ?h" by (subst search_loop.simps) (simp add: Let_def)
    have d: "?h - i < j - i" "i \<le> ?h" "?h \<le> n" using 2(1) less.prems(2) by auto
    have "\<forall>k. ?h \<le> k \<and> k < n \<longrightarrow> f k" using mono 2(2) by blast
    from less.hyps [OF d less.prems(3) this] show ?thesis unfolding eq .
  next
    case 3
    then have eq: "search_loop f i j = search_loop f (?h + 1) j" by (subst search_loop.simps) (simp add: Let_def)
    have d: "j - (?h + 1) < j - i" "?h + 1 \<le> j" "?h < n" using 3(1) less.prems(2) by auto
    have "\<forall>k < ?h + 1. \<not> f k" using mono d(3) 3(2) by (metis Suc_eq_plus1 less_Suc_eq_le)
    from less.hyps [OF d(1,2) less.prems(2) this less.prems(4)] show ?thesis unfolding eq .
  qed
qed

lemma sort_Search_first:
  assumes "\<forall>k l. k \<le> l \<and> l < n \<and> f k \<longrightarrow> f l"
  shows "sort_Search n f \<le> n \<and> (\<forall>k < sort_Search n f. \<not> f k) \<and> (\<forall>k. sort_Search n f \<le> k \<and> k < n \<longrightarrow> f k)"
  unfolding sort_Search_def by (rule search_loop_first [OF assms]) (simp_all, meson leD)

text \<open>On a sorted list the search gives the length of the part before the first hit.\<close>

lemma sort_Search_takeWhile:
  assumes "\<forall>k l. k \<le> l \<and> l < length xs \<and> P (xs ! k) \<longrightarrow> P (xs ! l)"
  shows "sort_Search (length xs) (\<lambda>i. P (xs ! i)) = length (takeWhile (\<lambda>x. \<not> P x) xs)"
proof -
  define i where "i = sort_Search (length xs) (\<lambda>i. P (xs ! i))"
  have i: "i \<le> length xs" "\<forall>k < i. \<not> P (xs ! k)" "\<forall>k. i \<le> k \<and> k < length xs \<longrightarrow> P (xs ! k)"
    using sort_Search_first [of "length xs" "\<lambda>i. P (xs ! i)", OF assms, folded i_def] by blast+
  then have "takeWhile (\<lambda>x. \<not> P x) xs = take i xs"
    by (intro takeWhile_eq_take_P_nth) auto
  then show ?thesis using i(1) unfolding i_def [symmetric] by simp
qed

section \<open>Trees\<close>

datatype bt = Lf nat "(string \<times> string) list" | Nd nat "string list" "bt list"

fun addr :: "bt \<Rightarrow> nat" where
  "addr (Lf a kvs) = a" | "addr (Nd a ks ts) = a"

fun addrs :: "bt \<Rightarrow> nat list" where
  "addrs (Lf a kvs) = [a]" | "addrs (Nd a ks ts) = a # concat (map addrs ts)"

fun leaves :: "bt \<Rightarrow> (nat \<times> (string \<times> string) list) list" where
  "leaves (Lf a kvs) = [(a, kvs)]" | "leaves (Nd a ks ts) = concat (map leaves ts)"

fun bt_ok :: "bt \<Rightarrow> bool" where
  "bt_ok (Lf a kvs) \<longleftrightarrow> length kvs < bpOrder"
| "bt_ok (Nd a ks ts) \<longleftrightarrow> length ts = length ks + 1 \<and> length ks < bpOrder \<and> (\<forall>t \<in> set ts. bt_ok t)"

fun rep :: "bp_heap \<Rightarrow> bt \<Rightarrow> bool" where
  "rep h (Lf a kvs) \<longleftrightarrow> (\<exists>nx. h a = Some \<lparr>bp_keys = map fst kvs, bp_children = [],
     bp_values = Some (map snd kvs), bp_next = nx\<rparr>)"
| "rep h (Nd a ks ts) \<longleftrightarrow> h a = Some \<lparr>bp_keys = ks, bp_children = map addr ts, bp_values = None, bp_next = None\<rparr>
     \<and> (\<forall>t \<in> set ts. rep h t)"

text \<open>
  The keys of the leaves and the separators in their order from left to right. A separator is not
  above the keys that follow and above those before it: in the order of pairs, \<open>(k, True)\<close> for a key
  and \<open>(k, False)\<close> for a separator, the list is strictly increasing.
\<close>

fun weave :: "string list \<Rightarrow> (string \<times> bool) list list \<Rightarrow> (string \<times> bool) list" where
  "weave [] xs = concat xs"
| "weave (k # ks) [] = []"
| "weave (k # ks) (x # xs) = x @ (k, False) # weave ks xs"

fun tokens :: "bt \<Rightarrow> (string \<times> bool) list" where
  "tokens (Lf a kvs) = map (\<lambda>(k, v). (k, True)) kvs"
| "tokens (Nd a ks ts) = weave ks (map tokens ts)"

definition ordered :: "bt \<Rightarrow> bool" where
  "ordered t \<longleftrightarrow> sorted_wrt (<) (tokens t)"

definition entries :: "bt \<Rightarrow> (string \<times> string) list" where
  "entries t = concat (map snd (leaves t))"

lemma addr_in_addrs [simp]: "addr t \<in> set (addrs t)"
  by (cases t) auto

lemma leaves_addrs: "fst ` set (leaves t) \<subseteq> set (addrs t)"
  by (induction t) auto

lemma distinct_leaves: "distinct (addrs t) \<Longrightarrow> distinct (map fst (leaves t))"
proof (induction t)
  case (Nd a ks ts)
  have "distinct (map fst (concat (map leaves ts)))" if "distinct (concat (map addrs ts))" "set ts \<subseteq> set us"
    "\<And>t. t \<in> set us \<Longrightarrow> distinct (addrs t) \<Longrightarrow> distinct (map fst (leaves t))" for ts us
    using that
  proof (induction ts)
    case (Cons t ts)
    have "fst ` set (leaves t) \<inter> fst ` set (concat (map leaves ts)) \<subseteq> set (addrs t) \<inter> set (concat (map addrs ts))"
      using leaves_addrs by fastforce
    then have "fst ` set (leaves t) \<inter> fst ` set (concat (map leaves ts)) = {}" using Cons.prems(1) by auto
    moreover have "distinct (map fst (concat (map leaves ts)))" using Cons by simp
    moreover have "distinct (map fst (leaves t))" using Cons.prems by simp
    ultimately show ?case unfolding list.map concat.simps map_append distinct_append set_map by blast
  qed simp
  from this [of ts ts] show ?case using Nd by simp
qed simp

lemma rep_cong: "rep h t \<Longrightarrow> (\<And>a. a \<in> set (addrs t) \<Longrightarrow> h' a = h a) \<Longrightarrow> rep h' t"
  by (induction t) auto

lemma rep_dom: "rep h t \<Longrightarrow> a \<in> set (addrs t) \<Longrightarrow> a \<in> dom h"
  by (induction t) auto

lemma weave_seps: "sorted_wrt (<) (weave ks xs) \<Longrightarrow> length xs = length ks + 1 \<Longrightarrow> sorted_wrt (<) ks"
proof (induction ks xs rule: weave.induct)
  case (3 k ks x xs)
  have seps: "length xs = length ks + 1 \<Longrightarrow> k' \<in> set ks \<Longrightarrow> (k', False) \<in> set (weave ks xs)" for k' ks and xs :: "(string \<times> bool) list list"
    by (induction ks xs rule: weave.induct) auto
  have "\<forall>y \<in> set (weave ks xs). (k, False) < y" using 3(2) by (simp add: sorted_wrt_append)
  moreover have "length xs = length ks + 1" using 3(3) by simp
  ultimately have "\<forall>k' \<in> set ks. (k, False) < (k', False)" using seps by blast
  then have "\<forall>k' \<in> set ks. k < k'" by (simp add: less_prod_def)
  then show ?case using 3 by (simp add: sorted_wrt_append)
qed auto

lemma filter_weave: "length xs = length ks + 1 \<Longrightarrow> filter snd (weave ks xs) = concat (map (filter snd) xs)"
  by (induction ks xs rule: weave.induct) (auto simp: filter_concat)

lemma entries_simps [simp]: "entries (Lf a kvs) = kvs"
  by (simp add: entries_def)

lemma entries_Nd: "entries (Nd a ks ts) = concat (map entries ts)"
  by (induction ts) (simp_all add: entries_def)

lemma tokens_entries: "bt_ok t \<Longrightarrow> filter snd (tokens t) = map (\<lambda>(k, v). (k, True)) (entries t)"
proof (induction t)
  case (Lf a kvs)
  then show ?case by (simp add: entries_def filter_map comp_def case_prod_unfold)
next
  case (Nd a ks ts)
  then have "concat (map (filter snd) (map tokens ts)) = concat (map (\<lambda>t. map (\<lambda>(k, v). (k, True)) (entries t)) ts)"
    by (intro arg_cong [where f = concat]) simp
  then show ?case using Nd.prems by (simp add: filter_weave entries_Nd map_concat comp_def)
qed

lemma entries_sorted:
  assumes "ordered t" and "bt_ok t"
  shows "sorted_wrt (<) (map fst (entries t))"
proof -
  have "sorted_wrt (<) (map (\<lambda>(k, v). (k, True)) (entries t))"
    using assms tokens_entries [OF assms(2)] by (metis ordered_def sorted_wrt_filter)
  then show ?thesis by (simp add: sorted_wrt_map case_prod_unfold)
qed

section \<open>Frames\<close>

text \<open>
  A frame is an internal node with a hole among its children: the address, the separators and
  subtrees to the left of the hole, and those to the right. \<open>plug\<close> fills the hole of the first frame,
  then puts the result into the hole of the next.
\<close>

type_synonym frame = "nat \<times> string list \<times> bt list \<times> string list \<times> bt list"

fun fill :: "frame \<Rightarrow> bt \<Rightarrow> bt" where
  "fill (a, lks, lts, rks, rts) t = Nd a (lks @ rks) (lts @ t # rts)"

fun plug :: "frame list \<Rightarrow> bt \<Rightarrow> bt" where
  "plug [] t = t" | "plug (f # fs) t = plug fs (fill f t)"

fun frame_ok :: "frame \<Rightarrow> bool" where
  "frame_ok (a, lks, lts, rks, rts) \<longleftrightarrow> length lts = length lks \<and> length rts = length rks
     \<and> length lks + length rks < bpOrder \<and> (\<forall>t \<in> set lts. bt_ok t) \<and> (\<forall>t \<in> set rts. bt_ok t)"

fun pre :: "string list \<Rightarrow> (string \<times> bool) list list \<Rightarrow> (string \<times> bool) list" where
  "pre (k # ks) (x # xs) = x @ (k, False) # pre ks xs" | "pre _ _ = []"

fun post :: "string list \<Rightarrow> (string \<times> bool) list list \<Rightarrow> (string \<times> bool) list" where
  "post (k # ks) (x # xs) = (k, False) # x @ post ks xs" | "post _ _ = []"

fun tpre :: "frame list \<Rightarrow> (string \<times> bool) list" where
  "tpre [] = []" | "tpre ((a, lks, lts, rks, rts) # fs) = tpre fs @ pre lks (map tokens lts)"

fun tpost :: "frame list \<Rightarrow> (string \<times> bool) list" where
  "tpost [] = []" | "tpost ((a, lks, lts, rks, rts) # fs) = post rks (map tokens rts) @ tpost fs"

fun lpre :: "frame list \<Rightarrow> (nat \<times> (string \<times> string) list) list" where
  "lpre [] = []" | "lpre ((a, lks, lts, rks, rts) # fs) = lpre fs @ concat (map leaves lts)"

fun lpost :: "frame list \<Rightarrow> (nat \<times> (string \<times> string) list) list" where
  "lpost [] = []" | "lpost ((a, lks, lts, rks, rts) # fs) = concat (map leaves rts) @ lpost fs"

fun caddrs :: "frame list \<Rightarrow> nat list" where
  "caddrs [] = []"
| "caddrs ((a, lks, lts, rks, rts) # fs) = a # concat (map addrs lts) @ concat (map addrs rts) @ caddrs fs"

fun crep :: "bp_heap \<Rightarrow> frame list \<Rightarrow> nat \<Rightarrow> bool" where
  "crep h [] x \<longleftrightarrow> True"
| "crep h ((a, lks, lts, rks, rts) # fs) x \<longleftrightarrow>
     h a = Some \<lparr>bp_keys = lks @ rks, bp_children = map addr lts @ x # map addr rts, bp_values = None, bp_next = None\<rparr>
     \<and> (\<forall>t \<in> set lts. rep h t) \<and> (\<forall>t \<in> set rts. rep h t) \<and> crep h fs a"

lemma plug_append: "plug (fs @ gs) t = plug gs (plug fs t)"
  by (induction fs arbitrary: t) auto

lemma weave_post: "length xs = length ks \<Longrightarrow> weave ks (x # xs) = x @ post ks xs"
  by (induction ks xs arbitrary: x rule: post.induct) auto

lemma weave_hole:
  "length ls = length lks \<Longrightarrow> length rs = length rks
    \<Longrightarrow> weave (lks @ rks) (ls @ x # rs) = pre lks ls @ x @ post rks rs"
  by (induction lks ls rule: pre.induct) (auto simp: weave_post)

lemma tokens_plug: "\<forall>f \<in> set fs. frame_ok f \<Longrightarrow> tokens (plug fs t) = tpre fs @ tokens t @ tpost fs"
proof (induction fs arbitrary: t)
  case (Cons f fs)
  then show ?case by (cases f) (auto simp: weave_hole)
qed simp

lemma leaves_plug: "leaves (plug fs t) = lpre fs @ leaves t @ lpost fs"
proof (induction fs arbitrary: t)
  case (Cons f fs)
  then show ?case by (cases f) auto
qed simp

lemma bt_ok_fill: "frame_ok f \<Longrightarrow> bt_ok t \<Longrightarrow> bt_ok (fill f t)"
  by (cases f) auto

lemma bt_ok_plug: "\<forall>f \<in> set fs. frame_ok f \<Longrightarrow> bt_ok t \<Longrightarrow> bt_ok (plug fs t)"
  by (induction fs arbitrary: t) (simp_all add: bt_ok_fill)

lemma bt_ok_hole: "bt_ok (plug fs t) \<Longrightarrow> bt_ok t"
proof (induction fs arbitrary: t)
  case (Cons f fs)
  then have "bt_ok (fill f t)" by simp
  then show ?case by (cases f) auto
qed simp

lemma rep_plug: "rep h (plug fs t) \<longleftrightarrow> crep h fs (addr t) \<and> rep h t"
proof (induction fs arbitrary: t)
  case (Cons f fs)
  then show ?case by (cases f) auto
qed simp

lemma addrs_plug: "mset (addrs (plug fs t)) = mset (caddrs fs) + mset (addrs t)"
proof (induction fs arbitrary: t)
  case (Cons f fs)
  then show ?case by (cases f) auto
qed simp

lemma set_addrs_plug: "set (addrs (plug fs t)) = set (caddrs fs) \<union> set (addrs t)"
  using arg_cong [OF addrs_plug, of set_mset fs t] by simp

lemma distinct_addrs_plug: "distinct (addrs (plug fs t)) \<longleftrightarrow> distinct (caddrs fs @ addrs t)"
  using addrs_plug [of fs t] by (intro mset_eq_imp_distinct_iff) simp

lemma length_plug: "length gs < length (addrs (plug gs t))"
proof -
  have "length (addrs (plug gs t)) = length (caddrs gs) + length (addrs t)"
    using arg_cong [OF addrs_plug, of size gs t] by (simp only: size_mset size_union)
  moreover have "length gs \<le> length (caddrs gs)" by (induction gs rule: caddrs.induct) auto
  moreover have "0 < length (addrs t)" by (cases t) auto
  ultimately show ?thesis by linarith
qed

lemma crep_cong: "crep h fs x \<Longrightarrow> (\<And>a. a \<in> set (caddrs fs) \<Longrightarrow> h' a = h a) \<Longrightarrow> crep h' fs x"
proof (induction fs arbitrary: x)
  case (Cons f fs)
  obtain a lks lts rks rts where f: "f = (a, lks, lts, rks, rts)" by (cases f)
  have "rep h' t" if "t \<in> set lts \<or> t \<in> set rts" for t
    using that Cons.prems f by (intro rep_cong [of h t h']) auto
  moreover have "crep h' fs a" using Cons.IH [of a] Cons.prems f by simp
  ultimately show ?case using Cons.prems f by simp
qed simp

lemma addr_plug: "fs \<noteq> [] \<Longrightarrow> addr (plug fs t) = fst (last fs)"
proof (induction fs arbitrary: t)
  case (Cons f fs)
  then show ?case by (cases f; cases fs) auto
qed simp

lemma last_caddrs: "fs \<noteq> [] \<Longrightarrow> fst (last fs) \<in> set (caddrs fs)"
proof (induction fs)
  case (Cons f fs)
  then show ?case by (cases f; cases fs) auto
qed simp

lemma plug_inner: "fs \<noteq> [] \<Longrightarrow> \<exists>a ks ts. plug fs t = Nd a ks ts"
proof (induction fs arbitrary: t)
  case (Cons f fs)
  then show ?case by (cases f; cases fs) auto
qed simp

section \<open>Descending to a leaf\<close>

definition on_path :: "string \<Rightarrow> frame \<Rightarrow> bool" where
  "on_path key f = (case f of (a, lks, lts, rks, rts) \<Rightarrow> (\<forall>s \<in> set lks. s \<le> key) \<and> (\<forall>s \<in> set rks. key < s))"

lemma length_addrs_child: "t \<in> set ts \<Longrightarrow> length (addrs t) < length (addrs (Nd a ks ts))"
proof -
  assume "t \<in> set ts"
  then obtain us vs where "ts = us @ t # vs" by (meson split_list)
  then show ?thesis by simp
qed

lemma weave_part: "x \<in> set xs \<Longrightarrow> length xs = length ks + 1 \<Longrightarrow> sorted_wrt (<) (weave ks xs) \<Longrightarrow> sorted_wrt (<) x"
proof (induction ks xs rule: weave.induct)
  case (1 xs)
  then show ?case by (cases xs) auto
qed (auto simp: sorted_wrt_append)

lemma searchLeaf_ok:
  assumes "rep h t" and "bt_ok t" and "ordered t" and "length (addrs t) \<le> fuel"
  shows "\<exists>fs a kvs. t = plug fs (Lf a kvs) \<and> (\<forall>f \<in> set fs. frame_ok f \<and> on_path key f)
    \<and> searchLeaf fuel h key (addr t) = Inr a"
  using assms
proof (induction t arbitrary: fuel)
  case (Lf a kvs)
  then obtain f where "fuel = Suc f" by (cases fuel) auto
  then show ?case
    using Lf by (intro exI [of _ "[]"] exI [of _ a] exI [of _ kvs]) (auto simp: bp_deref_def isLeaf_def)
next
  case (Nd a ks ts)
  obtain f where f: "fuel = Suc f" using Nd.prems(4) by (cases fuel) auto
  have len: "length ts = length ks + 1" and sorted: "sorted_wrt (<) ks"
    using Nd.prems(2,3) weave_seps [of ks "map tokens ts"] by (auto simp: ordered_def)
  define i where "i = length (takeWhile (\<lambda>s. \<not> s > key) ks)"
  have "\<forall>k l. k \<le> l \<and> l < length ks \<and> ks ! k > key \<longrightarrow> ks ! l > key"
    using sorted by (metis le_neq_implies_less order.strict_trans sorted_wrt_iff_nth_less)
  then have search: "sort_Search (length ks) (\<lambda>i. ks ! i > key) = i"
    unfolding i_def by (rule sort_Search_takeWhile)
  have i: "i \<le> length ks" "take i ks = takeWhile (\<lambda>s. \<not> s > key) ks" "drop i ks = dropWhile (\<lambda>s. \<not> s > key) ks"
    unfolding i_def by (simp_all only: length_takeWhile_le takeWhile_eq_take [symmetric] dropWhile_eq_drop [symmetric])
  define c where "c = ts ! i"
  let ?f = "(a, take i ks, take i ts, drop i ks, drop (i + 1) ts)"
  have c: "c \<in> set ts" "ts = take i ts @ c # drop (i + 1) ts"
    using i(1) len id_take_nth_drop [of i ts] by (simp_all add: c_def)
  have "\<forall>s \<in> set (drop i ks). key < s"
  proof -
    have "set (dropWhile (\<lambda>s. \<not> s > key) ks) \<subseteq> {s. key < s}"
      using sorted by (induction ks) (auto simp: less_le_trans)
    then show ?thesis using i(3) by auto
  qed
  moreover have "\<forall>s \<in> set (take i ks). s \<le> key"
    unfolding i(2) by (auto dest: set_takeWhileD)
  moreover have "frame_ok ?f"
    using Nd.prems(2) len i(1) by (auto dest: in_set_takeD in_set_dropD)
  ultimately have ok: "frame_ok ?f \<and> on_path key ?f" by (simp add: on_path_def)
  have "length (addrs c) \<le> f" using length_addrs_child [OF c(1), of a ks] Nd.prems(4) f by simp
  moreover have "ordered c"
    using weave_part [of "tokens c" "map tokens ts" ks] c(1) len Nd.prems(3) by (simp add: ordered_def)
  ultimately obtain fs b kvs where sub: "c = plug fs (Lf b kvs)" "\<forall>f \<in> set fs. frame_ok f \<and> on_path key f"
    "searchLeaf f h key (addr c) = Inr b"
    using Nd.IH [OF c(1), of f] Nd.prems(1,2) c(1) by auto
  have "searchLeaf fuel h key (addr (Nd a ks ts)) = Inr b"
    using Nd.prems(1) f search sub(3) i(1) len by (simp add: bp_deref_def isLeaf_def index_def c_def)
  moreover have "Nd a ks ts = plug (fs @ [?f]) (Lf b kvs)" using sub(1) c(2) by (simp add: plug_append)
  ultimately show ?case using ok sub(2) by (intro exI [of _ "fs @ [?f]"] exI [of _ b] exI [of _ kvs]) auto
qed

section \<open>What is left and right of the path\<close>

lemma pre_le:
  "sorted_wrt (<) (pre ks xs) \<Longrightarrow> \<forall>s \<in> set ks. s \<le> key \<Longrightarrow> y \<in> set (pre ks xs) \<Longrightarrow> y \<le> (key, False)"
proof (induction ks xs rule: pre.induct)
  case (1 k ks x xs)
  have k: "(k, False) \<le> (key, False)" using 1(3) by (simp add: less_eq_prod_def)
  have s: "\<forall>z \<in> set x. z < (k, False)" "sorted_wrt (<) (pre ks xs)" using 1(2) by (auto simp: sorted_wrt_append)
  consider "y \<in> set x" | "y = (k, False)" | "y \<in> set (pre ks xs)" using 1(4) by auto
  then show ?case
  proof cases
    case 1
    then have "y < (k, False)" using s(1) by blast
    then show ?thesis using k by (rule order.strict_implies_order [OF order.strict_trans2])
  next
    case 2
    then show ?thesis using k by blast
  next
    case 3
    then show ?thesis using 1(1) [OF s(2)] 1(3) by simp
  qed
qed auto

lemma post_gr:
  "sorted_wrt (<) (post ks xs) \<Longrightarrow> \<forall>s \<in> set ks. key < s \<Longrightarrow> y \<in> set (post ks xs) \<Longrightarrow> (key, True) < y"
proof (induction ks xs rule: post.induct)
  case (1 k ks x xs)
  have k: "(key, True) < (k, False)" using 1(3) by (simp add: less_prod_def)
  have s: "\<forall>z \<in> set x. (k, False) < z" "sorted_wrt (<) (post ks xs)" using 1(2) by (auto simp: sorted_wrt_append)
  consider "y \<in> set x" | "y = (k, False)" | "y \<in> set (post ks xs)" using 1(4) by auto
  then show ?case
  proof cases
    case 1
    then have "(k, False) < y" using s(1) by blast
    with k show ?thesis by (rule order.strict_trans)
  next
    case 2
    then show ?thesis using k by blast
  next
    case 3
    then show ?thesis using 1(1) [OF s(2)] 1(3) by simp
  qed
qed auto

lemma tpre_le:
  "sorted_wrt (<) (tpre fs) \<Longrightarrow> \<forall>f \<in> set fs. on_path key f \<Longrightarrow> y \<in> set (tpre fs) \<Longrightarrow> y \<le> (key, False)"
proof (induction fs)
  case (Cons f fs)
  then show ?case
    by (cases f) (auto simp: sorted_wrt_append on_path_def dest: pre_le)
qed simp

lemma tpost_gr:
  "sorted_wrt (<) (tpost fs) \<Longrightarrow> \<forall>f \<in> set fs. on_path key f \<Longrightarrow> y \<in> set (tpost fs) \<Longrightarrow> (key, True) < y"
proof (induction fs)
  case (Cons f fs)
  then show ?case
    by (cases f) (auto simp: sorted_wrt_append on_path_def dest: post_gr)
qed simp

abbreviation key_token :: "string \<times> string \<Rightarrow> string \<times> bool" where
  "key_token e \<equiv> (fst e, True)"

lemma tokens_contents:
  "bt_ok t \<Longrightarrow> e \<in> set (entries t) \<Longrightarrow> key_token e \<in> set (tokens t)"
proof -
  assume "bt_ok t" and "e \<in> set (entries t)"
  then have "key_token e \<in> set (filter snd (tokens t))"
    by (simp only: tokens_entries) (auto intro!: image_eqI [of _ _ e] simp: case_prod_unfold)
  then show ?thesis by simp
qed

lemma pre_tokens: "length xs = length ks \<Longrightarrow> x \<in> set xs \<Longrightarrow> set x \<subseteq> set (pre ks xs)"
  by (induction ks xs rule: pre.induct) auto

lemma post_tokens: "length xs = length ks \<Longrightarrow> x \<in> set xs \<Longrightarrow> set x \<subseteq> set (post ks xs)"
  by (induction ks xs rule: post.induct) auto

definition epre :: "frame list \<Rightarrow> (string \<times> string) list" where
  "epre fs = concat (map snd (lpre fs))"

definition epost :: "frame list \<Rightarrow> (string \<times> string) list" where
  "epost fs = concat (map snd (lpost fs))"

lemma entries_plug: "entries (plug fs t) = epre fs @ entries t @ epost fs"
  by (simp add: entries_def epre_def epost_def leaves_plug)

lemma concat_leaves: "concat (map snd (concat (map leaves ts))) = concat (map entries ts)"
  by (induction ts) (simp_all add: entries_def)

lemma epre_tokens:
  "\<forall>f \<in> set fs. frame_ok f \<Longrightarrow> e \<in> set (epre fs) \<Longrightarrow> key_token e \<in> set (tpre fs)"
proof (induction fs)
  case (Cons f fs)
  obtain a lks lts rks rts where f: "f = (a, lks, lts, rks, rts)" by (cases f)
  have "epre (f # fs) = epre fs @ concat (map entries lts)" by (simp add: f epre_def concat_leaves)
  moreover have "key_token e \<in> set (pre lks (map tokens lts))" if "t \<in> set lts" "e \<in> set (entries t)" for t
    using pre_tokens [of "map tokens lts" lks "tokens t"] tokens_contents [of t e] that Cons.prems(1) f by auto
  ultimately show ?case using Cons f by auto
qed (simp add: epre_def)

lemma epost_tokens:
  "\<forall>f \<in> set fs. frame_ok f \<Longrightarrow> e \<in> set (epost fs) \<Longrightarrow> key_token e \<in> set (tpost fs)"
proof (induction fs)
  case (Cons f fs)
  obtain a lks lts rks rts where f: "f = (a, lks, lts, rks, rts)" by (cases f)
  have "epost (f # fs) = concat (map entries rts) @ epost fs" by (simp add: f epost_def concat_leaves)
  moreover have "key_token e \<in> set (post rks (map tokens rts))" if "t \<in> set rts" "e \<in> set (entries t)" for t
    using post_tokens [of "map tokens rts" rks "tokens t"] tokens_contents [of t e] that Cons.prems(1) f by auto
  ultimately show ?case using Cons f by auto
qed (simp add: epost_def)

section \<open>Finding a parent\<close>

lemma rep_isLeaf: "rep h t \<Longrightarrow> \<exists>nd. h (addr t) = Some nd \<and> (isLeaf nd \<longleftrightarrow> (\<exists>a kvs. t = Lf a kvs))"
  by (cases t) (auto simp: isLeaf_def)

lemma find_among_skip:
  assumes "\<forall>t \<in> set ts. rep h t \<and> addr t \<noteq> target \<and> ((\<exists>a ks us. t = Nd a ks us) \<longrightarrow> rec (addr t) = Inr (None, 0))"
  shows "find_among rec h n target i (map addr ts @ cs) = find_among rec h n target (i + length ts) cs"
  using assms
proof (induction ts arbitrary: i)
  case (Cons t ts)
  then obtain nd where "h (addr t) = Some nd" "isLeaf nd \<longleftrightarrow> (\<exists>a kvs. t = Lf a kvs)"
    using rep_isLeaf [of h t] by auto
  then show ?case using Cons by (cases t) (auto simp: bp_deref_def)
qed simp

lemma findParent_none:
  "rep h t \<Longrightarrow> target \<notin> set (addrs t) \<Longrightarrow> length (addrs t) \<le> fuel \<Longrightarrow> findParent fuel h target (addr t) = Inr (None, 0)"
proof (induction t arbitrary: fuel)
  case (Lf a kvs)
  then show ?case by (cases fuel) (auto simp: bp_deref_def isLeaf_def)
next
  case (Nd a ks ts)
  obtain f where f: "fuel = Suc f" using Nd.prems(3) by (cases fuel) auto
  have "findParent f h target (addr t) = Inr (None, 0)" if "t \<in> set ts" for t
    using that Nd.prems length_addrs_child [OF that, of a ks] f by (intro Nd.IH) auto
  moreover have "addr t \<noteq> target" if "t \<in> set ts" for t
    using addr_in_addrs [of t] that Nd.prems(2) by auto
  ultimately have "find_among (findParent f h target) h a target 0 (map addr ts @ []) = Inr (None, 0)"
    using Nd.prems(1) by (subst find_among_skip) simp_all
  then show ?case using Nd.prems f by (simp add: bp_deref_def isLeaf_def)
qed

lemma findParent_plug:
  assumes "rep h (plug (f # fs) l)" and "distinct (addrs (plug (f # fs) l))"
    and "length (addrs (plug (f # fs) l)) \<le> fuel"
  shows "findParent fuel h (addr l) (addr (plug (f # fs) l)) = Inr (Some (fst f), length (fst (snd (snd f))))"
  using assms
proof (induction fs arbitrary: fuel rule: rev_induct)
  case Nil
  obtain a lks lts rks rts where f: "f = (a, lks, lts, rks, rts)" by (cases f)
  obtain n where n: "fuel = Suc n" using Nil.prems(3) f by (cases fuel) auto
  have out: "addr l \<notin> set (addrs t)" if "t \<in> set lts" for t
    using that Nil.prems(2) f addr_in_addrs [of l] by auto
  have "findParent n h (addr l) (addr t) = Inr (None, 0)" if "t \<in> set lts" for t
    using that Nil.prems length_addrs_child [of t "lts @ l # rts" a "lks @ rks"] f n
    by (intro findParent_none out) auto
  moreover have "addr t \<noteq> addr l" if "t \<in> set lts" for t
    using out [OF that] by (metis addr_in_addrs)
  ultimately show ?case
    using Nil.prems(1) f n by (simp add: bp_deref_def isLeaf_def find_among_skip)
next
  case (snoc g fs)
  obtain b lks lts rks rts where g: "g = (b, lks, lts, rks, rts)" by (cases g)
  define c where "c = plug (f # fs) l"
  have t: "plug (f # fs @ [g]) l = Nd b (lks @ rks) (lts @ c # rts)"
    using plug_append [of "f # fs" "[g]" l] g by (simp add: c_def)
  obtain n where n: "fuel = Suc n" using snoc.prems(3) t by (cases fuel) auto
  have l: "addr l \<in> set (addrs c)" unfolding c_def by (simp only: set_addrs_plug) simp
  have "findParent n h (addr l) (addr t) = Inr (None, 0) \<and> addr t \<noteq> addr l \<and> rep h t" if "t \<in> set lts" for t
  proof -
    have "addr l \<notin> set (addrs t)" using that snoc.prems(2) t l by auto
    moreover from this have "addr t \<noteq> addr l" by (metis addr_in_addrs)
    ultimately show ?thesis
      using that snoc.prems t n length_addrs_child [of t "lts @ c # rts" b "lks @ rks"]
      by (auto intro!: findParent_none)
  qed
  moreover have "findParent n h (addr l) (addr c) = Inr (Some (fst f), length (fst (snd (snd f))))"
    using snoc.prems t n by (intro snoc.IH [folded c_def]) auto
  moreover have "addr c \<noteq> addr l"
  proof -
    have "distinct (addrs c)" using snoc.prems(2) t by simp
    then have "distinct (caddrs (f # fs) @ addrs l)" unfolding c_def by (simp only: distinct_addrs_plug)
    moreover have "fst (last (f # fs)) \<in> set (caddrs (f # fs))" by (rule last_caddrs) simp
    ultimately show ?thesis using addr_plug [of "f # fs" l] addr_in_addrs [of l] by (auto simp: c_def)
  qed
  moreover have "\<exists>a ks ts. c = Nd a ks ts"
    unfolding c_def by (rule plug_inner) simp
  ultimately show ?case
    using snoc.prems(1) t n rep_isLeaf [of h c] by (auto simp: bp_deref_def isLeaf_def find_among_skip)
qed

end
