(* ===== verification/BPTree_Refinement.thy ===== *)
theory BPTree_Refinement
  imports BPTree_Trees
begin

text \<open>
  The B+ tree of \<open>BPTree_Store\<close> refines the abstract store: the heap represents a tree of
  \<open>BPTree_Trees\<close>, every method keeps it so, and the loop that splits full nodes on the way up takes
  the frames above a node one by one. No fault occurs.
\<close>

section \<open>The invariant\<close>

definition nexts :: "bp_heap \<Rightarrow> nat \<Rightarrow> nat option" where
  "nexts h a = (case h a of None \<Rightarrow> None | Some n \<Rightarrow> bp_next n)"

definition leaf_node :: "(string \<times> string) list \<Rightarrow> nat option \<Rightarrow> bpNode" where
  "leaf_node kvs nx = \<lparr>bp_keys = map fst kvs, bp_children = [], bp_values = Some (map snd kvs), bp_next = nx\<rparr>"

definition bp_shape :: "BPTreeStore \<Rightarrow> bt \<Rightarrow> bool" where
  "bp_shape s t \<longleftrightarrow> rep (bt_heap s) t \<and> bt_root s = addr t \<and> distinct (addrs t)
     \<and> (\<forall>a \<in> dom (bt_heap s). a < bt_free s) \<and> ordered t
     \<and> linked (nexts (bt_heap s)) (map fst (leaves t))"

definition bp_rep :: "BPTreeStore \<Rightarrow> bt \<Rightarrow> bool" where
  "bp_rep s t \<longleftrightarrow> bp_shape s t \<and> bt_ok t"

definition bp_inv :: "BPTreeStore \<Rightarrow> bool" where
  "bp_inv s \<longleftrightarrow> (\<exists>t. bp_rep s t)"

lemma leaf_node_simps [simp]:
  "bp_keys (leaf_node kvs nx) = map fst kvs" "values_of (leaf_node kvs nx) = map snd kvs"
  "bp_next (leaf_node kvs nx) = nx"
  "(leaf_node kvs nx)\<lparr>bp_keys := map fst kvs', bp_values := Some (map snd kvs')\<rparr> = leaf_node kvs' nx"
  by (simp_all add: leaf_node_def values_of_def)

lemma rep_Lf: "rep h (Lf a kvs) \<longleftrightarrow> (\<exists>nx. h a = Some (leaf_node kvs nx))"
  by (simp add: leaf_node_def)

lemma rep_fuel:
  assumes "rep h t" and "distinct (addrs t)" and "\<forall>a \<in> dom h. a < n"
  shows "length (addrs t) \<le> n"
proof -
  have "set (addrs t) \<subseteq> {..<n}" using rep_dom [OF assms(1)] assms(3) by fastforce
  then have "card (set (addrs t)) \<le> n" using card_mono [of "{..<n}"] by simp
  then show ?thesis using assms(2) by (simp add: distinct_card)
qed

lemma shape_fuel: "bp_shape s t \<Longrightarrow> length (addrs t) \<le> bt_free s"
  by (rule rep_fuel) (auto simp: bp_shape_def)

lemma shape_fresh: "bp_shape s t \<Longrightarrow> bt_free s \<notin> set (addrs t) \<and> bt_heap s (bt_free s) = None"
  using rep_dom [of "bt_heap s" t "bt_free s"] by (fastforce simp: bp_shape_def dom_def)

section \<open>Locating a key\<close>

lemma leaf_split:
  assumes "sorted_wrt (<) (map fst kvs)"
  obtains us vs where "kvs = us @ vs" and "\<forall>x \<in> set us. fst x < key" and "\<forall>x \<in> set vs. key \<le> fst x"
    and "leaf_index (leaf_node kvs nx) key = length us"
proof -
  let ?ks = "map fst kvs" and ?P = "\<lambda>x. fst x < key"
  have "\<forall>k l. k \<le> l \<and> l < length ?ks \<and> ?ks ! k \<ge> key \<longrightarrow> ?ks ! l \<ge> key"
    using assms by (metis le_neq_implies_less order.trans order.strict_implies_order sorted_wrt_iff_nth_less)
  from sort_Search_takeWhile [of ?ks "\<lambda>x. x \<ge> key", OF this]
  have "leaf_index (leaf_node kvs nx) key = length (takeWhile ?P kvs)"
    by (simp add: leaf_index_def takeWhile_map comp_def not_le)
  moreover have "\<forall>x \<in> set (dropWhile ?P kvs). key \<le> fst x"
    using assms by (induction kvs) (auto simp: not_less)
  ultimately show ?thesis
    using that [of "takeWhile ?P kvs" "dropWhile ?P kvs"] by (auto dest: set_takeWhileD)
qed

definition located :: "BPTreeStore \<Rightarrow> string \<Rightarrow> frame list \<Rightarrow> nat \<Rightarrow> (string \<times> string) list \<Rightarrow> (string \<times> string) list
    \<Rightarrow> nat option \<Rightarrow> bool" where
  "located s key fs a us vs nx \<longleftrightarrow> (\<forall>f \<in> set fs. frame_ok f)
     \<and> searchLeaf (bt_free s) (bt_heap s) key (bt_root s) = Inr a
     \<and> bt_heap s a = Some (leaf_node (us @ vs) nx) \<and> leaf_index (leaf_node (us @ vs) nx) key = length us
     \<and> (\<forall>y \<in> set (tpre fs). y \<le> (key, False)) \<and> (\<forall>y \<in> set (tpost fs). (key, True) < y)
     \<and> (\<forall>x \<in> set us. fst x < key) \<and> (\<forall>x \<in> set vs. key \<le> fst x) \<and> sorted_wrt (<) (map fst (us @ vs))"

lemma locate:
  assumes "bp_rep s t"
  obtains fs a us vs nx where "t = plug fs (Lf a (us @ vs))" and "located s key fs a us vs nx"
proof -
  have shape: "bp_shape s t" and ok: "bt_ok t" using assms by (auto simp: bp_rep_def)
  obtain fs a kvs where t: "t = plug fs (Lf a kvs)" and fs: "\<forall>f \<in> set fs. frame_ok f" "\<forall>f \<in> set fs. on_path key f"
    and search: "searchLeaf (bt_free s) (bt_heap s) key (addr t) = Inr a"
    using searchLeaf_ok [of "bt_heap s" t "bt_free s" key] shape ok shape_fuel [OF shape]
    by (auto simp: bp_shape_def)
  obtain nx where nx: "bt_heap s a = Some (leaf_node kvs nx)"
    using shape t rep_plug [of "bt_heap s" fs "Lf a kvs"] rep_Lf by (auto simp: bp_shape_def)
  have toks: "sorted_wrt (<) (tpre fs @ map (\<lambda>(k, v). (k, True)) kvs @ tpost fs)"
    using shape t tokens_plug [OF fs(1), of "Lf a kvs"] by (simp add: bp_shape_def ordered_def)
  then have "sorted_wrt (<) (map fst kvs)" by (simp add: sorted_wrt_append sorted_wrt_map case_prod_unfold)
  then obtain us vs where "kvs = us @ vs" "\<forall>x \<in> set us. fst x < key" "\<forall>x \<in> set vs. key \<le> fst x"
    "leaf_index (leaf_node kvs nx) key = length us"
    by (rule leaf_split)
  moreover have "\<forall>y \<in> set (tpre fs). y \<le> (key, False)" "\<forall>y \<in> set (tpost fs). (key, True) < y"
    using tpre_le [OF _ fs(2)] tpost_gr [OF _ fs(2)] toks by (simp_all add: sorted_wrt_append)
  ultimately show ?thesis
    using that [of fs a us vs nx] t fs(1) search nx shape \<open>sorted_wrt (<) (map fst kvs)\<close>
    by (simp add: located_def bp_shape_def)
qed

lemma located_has:
  "located s key fs a us vs nx \<Longrightarrow> leaf_has (leaf_node (us @ vs) nx) key \<longleftrightarrow> (\<exists>v ws. vs = (key, v) # ws)"
  by (cases vs) (auto simp: located_def leaf_has_def nth_append)

lemma located_outside:
  assumes "located s key fs a us vs nx"
  shows "(\<forall>x \<in> set (epre fs @ us). fst x < key) \<and> (\<forall>x \<in> set (epost fs). key < fst x)"
proof -
  have "fst x < key" if "x \<in> set (epre fs)" for x
    using epre_tokens [OF _ that] assms by (fastforce simp: located_def less_eq_prod_def)
  moreover have "key < fst x" if "x \<in> set (epost fs)" for x
    using epost_tokens [OF _ that] assms by (fastforce simp: located_def less_prod_def)
  ultimately show ?thesis using assms by (auto simp: located_def)
qed

lemma Get_rep:
  assumes "bp_rep s t"
  shows "BPTreeStore_Get key s = Inr (map_of (entries t) key)"
proof -
  obtain fs a us vs nx where t: "t = plug fs (Lf a (us @ vs))" and l: "located s key fs a us vs nx"
    by (rule locate [OF assms])
  have e: "map_of (epre fs @ us) key = None" "map_of (epost fs) key = None"
    using located_outside [OF l] by (auto simp: map_of_eq_None_iff)
  have ent: "entries t = (epre fs @ us) @ vs @ epost fs" by (simp add: t entries_plug)
  have vs: "map_of vs key = (case vs of [] \<Rightarrow> None | x # _ \<Rightarrow> if fst x = key then Some (snd x) else None)"
    using l by (cases vs) (fastforce simp: located_def map_of_eq_None_iff sorted_wrt_append)+
  have "map_of (entries t) key = map_of vs key"
    unfolding ent map_add_def map_of_append using e by (auto simp: map_add_def split: option.splits)
  then show ?thesis
    using l located_has [OF l] vs
    by (cases vs) (auto simp: BPTreeStore_Get_def located_def bp_deref_def index_def nth_append)
qed

definition bp_abs :: "BPTreeStore \<Rightarrow> astore" where
  "bp_abs s = \<lparr>astr = (\<lambda>k. case BPTreeStore_Get k s of Inl _ \<Rightarrow> None | Inr v \<Rightarrow> v), ahash = bt_hashes s\<rparr>"

lemma bp_abs_rep: "bp_rep s t \<Longrightarrow> bp_abs s = \<lparr>astr = map_of (entries t), ahash = bt_hashes s\<rparr>"
  by (simp add: bp_abs_def Get_rep)

section \<open>Changing a leaf\<close>

lemma bp_put_simps [simp]:
  "bt_heap (bp_put a n s) = (bt_heap s)(a \<mapsto> n)" "bt_root (bp_put a n s) = bt_root s"
  "bt_hashes (bp_put a n s) = bt_hashes s" "bt_free (bp_put a n s) = bt_free s"
  by (simp_all add: bp_put_def)

lemma bp_rep_hashes [simp]: "bp_rep (s\<lparr>bt_hashes := hs\<rparr>) t \<longleftrightarrow> bp_rep s t"
  by (simp add: bp_rep_def bp_shape_def)

lemma addr_plug_cong: "addr t' = addr t \<Longrightarrow> addr (plug fs t') = addr (plug fs t)"
  by (cases fs) (simp_all add: addr_plug del: plug.simps(2))

lemma nexts_put: "h a = Some nd \<Longrightarrow> bp_next nd' = bp_next nd \<Longrightarrow> nexts (h(a \<mapsto> nd')) = nexts h"
  by (auto simp: nexts_def fun_eq_iff)

lemma leaf_update:
  assumes s: "bp_shape s (plug fs (Lf a kvs))" and fs: "\<forall>f \<in> set fs. frame_ok f"
    and a: "bt_heap s a = Some (leaf_node kvs nx)"
    and toks: "sorted_wrt (<) (tpre fs @ tokens (Lf a kvs') @ tpost fs)"
  shows "bp_shape (bp_put a (leaf_node kvs' nx) s) (plug fs (Lf a kvs'))"
proof -
  let ?h = "(bt_heap s)(a \<mapsto> leaf_node kvs' nx)"
  have d: "distinct (caddrs fs @ addrs (Lf a kvs))"
    using s unfolding bp_shape_def by (simp only: distinct_addrs_plug)
  have "crep ?h fs a"
    using s d by (auto simp: bp_shape_def rep_plug elim!: crep_cong)
  then have "rep ?h (plug fs (Lf a kvs'))" unfolding rep_plug rep_Lf by auto
  moreover have "nexts ?h = nexts (bt_heap s)" using a by (rule nexts_put) simp
  moreover have "distinct (addrs (plug fs (Lf a kvs')))" using d unfolding distinct_addrs_plug by simp
  moreover have "\<forall>b \<in> dom ?h. b < bt_free s" using s a by (auto simp: bp_shape_def)
  ultimately show ?thesis
    using s toks addr_plug_cong [of "Lf a kvs'" "Lf a kvs" fs]
    by (simp add: bp_shape_def ordered_def tokens_plug [OF fs] leaves_plug)
qed

lemma located_rest:
  assumes "located s key fs a us vs nx"
  shows "vs = (key, v) # ws \<Longrightarrow> \<forall>x \<in> set ws. key < fst x"
    and "\<nexists>v ws. vs = (key, v) # ws \<Longrightarrow> \<forall>x \<in> set vs. key < fst x"
proof -
  have s: "sorted_wrt (<) (map fst vs)" "\<forall>x \<in> set vs. key \<le> fst x"
    using assms by (auto simp: located_def sorted_wrt_append)
  then show "vs = (key, v) # ws \<Longrightarrow> \<forall>x \<in> set ws. key < fst x" by auto
  show "\<forall>x \<in> set vs. key < fst x" if "\<nexists>v ws. vs = (key, v) # ws"
    using s that by (cases vs) (auto simp: le_less)
qed

lemma tokens_Lf: "tokens (Lf a kvs) = map key_token kvs"
  by (simp add: case_prod_unfold)

lemma sorted_key_tokens:
  "sorted_wrt (<) (xs @ map key_token kvs @ ys) \<longleftrightarrow> sorted_wrt (<) xs \<and> sorted_wrt (<) ys \<and> sorted_wrt (<) (map fst kvs)
    \<and> (\<forall>x \<in> set xs. \<forall>y \<in> set ys. x < y)
    \<and> (\<forall>e \<in> set kvs. (\<forall>x \<in> set xs. x < key_token e) \<and> (\<forall>y \<in> set ys. key_token e < y))"
proof -
  have "sorted_wrt (<) (map key_token kvs) \<longleftrightarrow> sorted_wrt (<) (map fst kvs)" by (simp add: sorted_wrt_map)
  then show ?thesis unfolding sorted_wrt_append set_append set_map by blast
qed

lemma located_tokens:
  assumes l: "located s key fs a us vs nx" and s: "bp_shape s (plug fs (Lf a (us @ vs)))"
    and ws: "set ws \<subseteq> set vs" "sorted_wrt (<) (map fst ws)" "\<forall>x \<in> set ws. key < fst x"
  shows "sorted_wrt (<) (tpre fs @ tokens (Lf a (us @ ws)) @ tpost fs)"
    and "sorted_wrt (<) (tpre fs @ tokens (Lf a (us @ (key, v) # ws)) @ tpost fs)"
proof -
  have fs: "\<forall>f \<in> set fs. frame_ok f" using l by (simp add: located_def)
  have old: "sorted_wrt (<) (tpre fs @ map key_token (us @ vs) @ tpost fs)"
    using s tokens_plug [OF fs, of "Lf a (us @ vs)"] unfolding tokens_Lf bp_shape_def ordered_def by simp
  have us: "sorted_wrt (<) (map fst us)" "\<forall>x \<in> set us. fst x < key"
    using l by (auto simp: located_def sorted_wrt_append)
  then have sorted: "sorted_wrt (<) (map fst (us @ ws))" "sorted_wrt (<) (map fst (us @ (key, v) # ws))"
    using ws(2,3) by (force simp: sorted_wrt_append)+
  have "y < (key, True)" if "y \<in> set (tpre fs)" for y
    using l that by (fastforce simp: located_def less_eq_prod_def less_prod_def)
  moreover have "\<forall>y \<in> set (tpost fs). (key, True) < y" using l by (simp add: located_def)
  moreover have "set (us @ ws) \<subseteq> set (us @ vs)" using ws(1) by auto
  ultimately show "sorted_wrt (<) (tpre fs @ tokens (Lf a (us @ ws)) @ tpost fs)"
    "sorted_wrt (<) (tpre fs @ tokens (Lf a (us @ (key, v) # ws)) @ tpost fs)"
    using old sorted unfolding tokens_Lf sorted_key_tokens by auto
qed

text \<open>The entries around the place of a key.\<close>

lemma located_entries:
  assumes "located s key fs a us vs nx" and "\<forall>x \<in> set ws. key < fst x"
  shows "map_of (entries (plug fs (Lf a (us @ (key, v) # ws)))) = (map_of (entries (plug fs (Lf a (us @ ws)))))(key \<mapsto> v)"
    and "map_of (entries (plug fs (Lf a (us @ ws)))) key = None"
proof -
  have out: "key \<notin> fst ` set ((epre fs @ us) @ ws @ epost fs)"
    using located_outside [OF assms(1)] assms(2) by force
  show "map_of (entries (plug fs (Lf a (us @ (key, v) # ws)))) = (map_of (entries (plug fs (Lf a (us @ ws)))))(key \<mapsto> v)"
    using map_of_insert [OF out, of v] by (simp add: entries_plug)
  show "map_of (entries (plug fs (Lf a (us @ ws)))) key = None"
    using out by (simp only: map_of_eq_None_iff entries_plug entries_simps append_assoc not_False_eq_True)
qed

lemma Del_rep:
  assumes "bp_rep s t"
  shows "\<exists>s' t'. BPTreeStore_Del key s = Inr s' \<and> bp_rep s' t'
    \<and> map_of (entries t') = (map_of (entries t))(key := None) \<and> bt_hashes s' = (bt_hashes s)(key := None)"
proof -
  obtain fs a us vs nx where t: "t = plug fs (Lf a (us @ vs))" and l: "located s key fs a us vs nx"
    by (rule locate [OF assms])
  let ?hs = "(bt_hashes s)(key := None)"
  show ?thesis
  proof (cases "\<exists>v ws. vs = (key, v) # ws")
    case True
    then obtain v ws where vs: "vs = (key, v) # ws" by blast
    let ?s = "bp_put a (leaf_node (us @ ws) nx) s"
    have ws: "\<forall>x \<in> set ws. key < fst x" by (rule located_rest(1) [OF l vs])
    have shape: "bp_shape s (plug fs (Lf a (us @ vs)))" and ok: "bt_ok (plug fs (Lf a (us @ vs)))"
      using assms t by (simp_all add: bp_rep_def)
    have "sorted_wrt (<) (map fst ws)" using l vs by (simp add: located_def sorted_wrt_append)
    then have "bp_shape ?s (plug fs (Lf a (us @ ws)))"
      using l vs located_tokens(1) [OF l shape _ _ ws] by (intro leaf_update [OF shape]) (auto simp: located_def)
    moreover have "bt_ok (plug fs (Lf a (us @ ws)))"
      using bt_ok_hole [OF ok] l vs by (intro bt_ok_plug) (simp_all add: located_def)
    ultimately have "bp_rep ?s (plug fs (Lf a (us @ ws)))" by (simp add: bp_rep_def)
    then have "bp_rep (?s\<lparr>bt_hashes := ?hs\<rparr>) (plug fs (Lf a (us @ ws)))" by (subst bp_rep_hashes)
    moreover have "BPTreeStore_Del key s = Inr (?s\<lparr>bt_hashes := ?hs\<rparr>)"
    proof -
      have "leaf_node (us @ vs) nx\<lparr>bp_keys := map fst us @ map fst ws, bp_values := Some (map snd us @ map snd ws)\<rparr> = leaf_node (us @ ws) nx"
        by (simp add: leaf_node_def)
      then show ?thesis using l located_has [OF l] vs
        by (simp add: BPTreeStore_Del_def located_def bp_deref_def slice_from_def Let_def)
    qed
    moreover have "map_of (entries (plug fs (Lf a (us @ ws)))) = (map_of (entries t))(key := None)"
      using located_entries(1) [OF l ws, of v] located_entries(2) [OF l ws] vs t by (simp add: fun_upd_idem)
    ultimately show ?thesis by auto
  next
    case False
    have "BPTreeStore_Del key s = Inr (s\<lparr>bt_hashes := ?hs\<rparr>)"
      using l located_has [OF l] False by (simp add: BPTreeStore_Del_def located_def bp_deref_def Let_def)
    moreover have "map_of (entries t) = (map_of (entries t))(key := None)"
      using located_entries(2) [OF l located_rest(2) [OF l False]] t by (simp add: fun_upd_idem)
    ultimately show ?thesis using assms by auto
  qed
qed

section \<open>Splitting\<close>

text \<open>
  Between the two halves of a split: the node \<open>l\<close> sits in the tree, its new right sibling \<open>r\<close> is in the
  heap and, if it is a leaf, in the chain, but no parent points to it yet.
\<close>

definition pending :: "BPTreeStore \<Rightarrow> frame list \<Rightarrow> bt \<Rightarrow> string \<Rightarrow> bt \<Rightarrow> bool" where
  "pending s fs l k r \<longleftrightarrow> (\<forall>f \<in> set fs. frame_ok f) \<and> bt_ok l \<and> bt_ok r
     \<and> crep (bt_heap s) fs (addr l) \<and> rep (bt_heap s) l \<and> rep (bt_heap s) r \<and> bt_root s = addr (plug fs l)
     \<and> distinct (caddrs fs @ addrs l @ addrs r) \<and> (\<forall>a \<in> dom (bt_heap s). a < bt_free s)
     \<and> sorted_wrt (<) (tpre fs @ tokens l @ (k, False) # tokens r @ tpost fs)
     \<and> linked (nexts (bt_heap s)) (map fst (lpre fs @ leaves l @ leaves r @ lpost fs))"

lemma pendingD:
  assumes "pending s fs l k r"
  shows "\<forall>f \<in> set fs. frame_ok f" and "bt_ok l" and "bt_ok r" and "rep (bt_heap s) (plug fs l)"
    and "rep (bt_heap s) r" and "bt_root s = addr (plug fs l)" and "distinct (addrs (plug fs l))"
    and "distinct (caddrs fs @ addrs l @ addrs r)" and "\<forall>a \<in> dom (bt_heap s). a < bt_free s"
    and "sorted_wrt (<) (tpre fs @ tokens l @ (k, False) # tokens r @ tpost fs)"
    and "linked (nexts (bt_heap s)) (map fst (lpre fs @ leaves l @ leaves r @ lpost fs))"
  using assms unfolding pending_def rep_plug distinct_addrs_plug by auto

definition inner :: "string list \<Rightarrow> bt list \<Rightarrow> bpNode" where
  "inner ks ts = \<lparr>bp_keys = ks, bp_children = map addr ts, bp_values = None, bp_next = None\<rparr>"

lemma inner_simps [simp]:
  "bp_keys (inner ks ts) = ks" "bp_children (inner ks ts) = map addr ts" "bp_next (inner ks ts) = None"
  "(inner ks ts)\<lparr>bp_keys := ks', bp_children := map addr ts'\<rparr> = inner ks' ts'"
  "newInternal\<lparr>bp_keys := ks', bp_children := map addr ts'\<rparr> = inner ks' ts'"
  by (simp_all add: inner_def newInternal_def)

lemma rep_Nd: "rep h (Nd a ks ts) \<longleftrightarrow> h a = Some (inner ks ts) \<and> (\<forall>t \<in> set ts. rep h t)"
  by (simp add: inner_def)

lemma crep_Cons:
  "crep h ((a, lks, lts, rks, rts) # fs) x \<longleftrightarrow> (\<exists>ts. map addr ts = map addr lts @ x # map addr rts \<and> h a = Some (inner (lks @ rks) ts))
    \<and> (\<forall>t \<in> set lts. rep h t) \<and> (\<forall>t \<in> set rts. rep h t) \<and> crep h fs a"
proof -
  have "\<exists>ts. map addr ts = map addr lts @ x # map addr rts"
    by (rule exI [of _ "lts @ Lf x [] # rts"]) simp
  then show ?thesis by (auto simp: inner_def)
qed

lemma rep_upd: "rep h t \<Longrightarrow> a \<notin> set (addrs t) \<Longrightarrow> rep (h(a \<mapsto> n)) t"
  by (erule rep_cong) auto

lemma crep_upd: "crep h fs x \<Longrightarrow> a \<notin> set (caddrs fs) \<Longrightarrow> crep (h(a \<mapsto> n)) fs x"
  by (erule crep_cong) auto

text \<open>A new root above the two siblings.\<close>

lemma place_root:
  assumes "pending s [] l k r"
  shows "\<exists>s'. place (addr l) k (addr r) s = Inr (None, s') \<and> bp_rep s' (Nd (bt_free s) [k] [l, r])
    \<and> bt_hashes s' = bt_hashes s"
proof -
  let ?a = "bt_free s" and ?h = "(bt_heap s)(bt_free s \<mapsto> inner [k] [l, r])"
  let ?s = "s\<lparr>bt_heap := ?h, bt_free := ?a + 1, bt_root := ?a\<rparr>"
  have fresh: "?a \<notin> set (addrs l)" "?a \<notin> set (addrs r)" "bt_heap s ?a = None"
    using assms rep_dom [of "bt_heap s" l ?a] rep_dom [of "bt_heap s" r ?a] by (fastforce simp: pending_def)+
  have "newInternal\<lparr>bp_keys := [k], bp_children := [addr l, addr r]\<rparr> = inner [k] [l, r]"
    by (simp add: newInternal_def inner_def)
  then have "place (addr l) k (addr r) s = Inr (None, ?s)"
    using assms by (simp add: place_def bp_alloc_def pending_def)
  moreover have "nexts ?h = nexts (bt_heap s)" using fresh by (auto simp: nexts_def fun_eq_iff)
  then have "bp_rep ?s (Nd ?a [k] [l, r])"
    using assms fresh rep_upd [of "bt_heap s" l ?a] rep_upd [of "bt_heap s" r ?a]
    by (auto simp: pending_def bp_rep_def bp_shape_def inner_def ordered_def bpOrder_def less_Suc_eq)
  ultimately show ?thesis by auto
qed

lemma place_parent:
  assumes p: "pending s ((a, lks, lts, rks, rts) # gs) l k r"
  shows "\<exists>s'. place (addr l) k (addr r) s = Inr (Some a, s') \<and> bt_hashes s' = bt_hashes s
    \<and> bp_shape s' (plug gs (Nd a (lks @ k # rks) (lts @ l # r # rts)))"
proof -
  define f where "f = (a, lks, lts, rks, rts)"
  let ?h = "bt_heap s" and ?n = "inner (lks @ k # rks) (lts @ l # r # rts)"
  note p = p [folded f_def] and d = pendingD(8) [OF p [folded f_def]]
  have ok: "\<forall>f \<in> set gs. frame_ok f" "length lts = length lks" "length rts = length rks"
    using pendingD(1) [OF p] by (simp_all add: f_def)
  have "bt_root s \<noteq> addr l"
    using d last_caddrs [of "f # gs"] addr_plug [of "f # gs" l] pendingD(6) [OF p] addr_in_addrs [of l]
    by (metis UnI1 disjoint_iff distinct_append list.distinct(1) set_append)
  moreover have "findParent (bt_free s) ?h (addr l) (bt_root s) = Inr (Some a, length lts)"
    using findParent_plug [OF pendingD(4,7) [OF p] rep_fuel [OF pendingD(4,7,9) [OF p]]] pendingD(6) [OF p]
    by (simp add: f_def)
  moreover obtain ts where ts: "map addr ts = map addr lts @ addr l # map addr rts" "?h a = Some (inner (lks @ rks) ts)"
    and sub: "\<forall>t \<in> set lts \<union> set rts. rep ?h t" "crep ?h gs a" "rep ?h l"
    using pendingD(4) [OF p] unfolding rep_plug f_def crep_Cons by auto
  ultimately have "place (addr l) k (addr r) s = Inr (Some a, bp_put a ?n s)"
    using ok(2,3) inner_simps(4) [where ks' = "lks @ k # rks" and ts' = "lts @ l # r # rts"]
    by (simp add: place_def bp_deref_def insertAt_def del: inner_simps(4))
  moreover have "bp_shape (bp_put a ?n s) (plug gs (Nd a (lks @ k # rks) (lts @ l # r # rts)))"
  proof -
    have "rep (?h(a \<mapsto> ?n)) t" if "t \<in> set (lts @ l # r # rts)" for t
      using d sub pendingD(5) [OF p] that by (intro rep_upd) (auto simp: f_def)
    moreover have "crep (?h(a \<mapsto> ?n)) gs a" using d sub(2) by (intro crep_upd) (auto simp: f_def)
    ultimately have "rep (?h(a \<mapsto> ?n)) (plug gs (Nd a (lks @ k # rks) (lts @ l # r # rts)))"
      unfolding rep_plug rep_Nd by simp
    moreover have "distinct (addrs (plug gs (Nd a (lks @ k # rks) (lts @ l # r # rts))))"
      using d unfolding distinct_addrs_plug by (auto simp: f_def)
    moreover have "nexts (?h(a \<mapsto> ?n)) = nexts ?h" using ts(2) by (rule nexts_put) simp
    moreover have "ordered (plug gs (Nd a (lks @ k # rks) (lts @ l # r # rts)))"
      using pendingD(10) [OF p] ok by (simp add: ordered_def tokens_plug weave_hole f_def)
    moreover have "bt_root s = addr (plug gs (Nd a (lks @ k # rks) (lts @ l # r # rts)))"
      using pendingD(6) [OF p] addr_plug_cong [of "Nd a (lks @ k # rks) (lts @ l # r # rts)" "fill f l" gs]
      by (simp add: f_def)
    moreover have "\<forall>b \<in> dom (?h(a \<mapsto> ?n)). b < bt_free s" using pendingD(9) [OF p] ts(2) by auto
    ultimately show ?thesis
      using pendingD(11) [OF p] by (simp add: bp_shape_def leaves_plug f_def)
  qed
  ultimately show ?thesis by auto
qed

text \<open>Halving a full internal node.\<close>

lemma weave_mid:
  "length xs = length ks + 1 \<Longrightarrow> weave (ks @ k # ks') (xs @ xs') = weave ks xs @ (k, False) # weave ks' xs'"
proof (induction ks xs rule: weave.induct)
  case (1 xs)
  then show ?case by (cases xs) auto
qed auto

lemma shape_heap:
  assumes "bp_shape s (plug gs t)"
  shows "crep (bt_heap s) gs (addr t)" and "rep (bt_heap s) t" and "distinct (caddrs gs @ addrs t)"
    and "bt_free s \<notin> set (caddrs gs @ addrs t)" and "bt_heap s (bt_free s) = None"
proof -
  show "crep (bt_heap s) gs (addr t)" "rep (bt_heap s) t" using assms by (simp_all add: bp_shape_def rep_plug)
  show "distinct (caddrs gs @ addrs t)" using assms unfolding bp_shape_def distinct_addrs_plug by blast
  show "bt_free s \<notin> set (caddrs gs @ addrs t)" "bt_heap s (bt_free s) = None"
    using shape_fresh [OF assms] unfolding set_addrs_plug by auto
qed

lemma halve_ok:
  assumes s: "bp_shape s (plug gs (Nd a (ks @ k # ks') (ts @ ts')))" and gs: "\<forall>f \<in> set gs. frame_ok f"
    and len: "length ks = bpOrder div 2" "length ts = length ks + 1" "length ts' = length ks' + 1" "length ks' < bpOrder"
    and ok: "\<forall>t \<in> set (ts @ ts'). bt_ok t"
  shows "\<exists>s'. halve a s = Inr (k, bt_free s, s') \<and> bt_hashes s' = bt_hashes s
    \<and> pending s' gs (Nd a ks ts) k (Nd (bt_free s) ks' ts')"
proof -
  let ?b = "bt_free s" and ?l = "Nd a ks ts" and ?r = "Nd (bt_free s) ks' ts'"
  let ?h = "(bt_heap s)(?b \<mapsto> inner ks' ts', a \<mapsto> inner ks ts)"
  let ?s = "bp_put a (inner ks ts) (s\<lparr>bt_heap := (bt_heap s)(?b \<mapsto> inner ks' ts'), bt_free := ?b + 1\<rparr>)"
  note h = shape_heap [OF s]
  have a: "bt_heap s a = Some (inner (ks @ k # ks') (ts @ ts'))" using h(2) unfolding rep_Nd by simp
  have "(inner (ks @ k # ks') (ts @ ts'))\<lparr>bp_keys := ks, bp_children := map addr ts\<rparr> = inner ks ts"
    "newInternal\<lparr>bp_keys := ks', bp_children := map addr ts'\<rparr> = inner ks' ts'"
    by (simp_all add: inner_def newInternal_def)
  then have "halve a s = Inr (k, ?b, ?s)"
    using a len by (simp add: halve_def Let_def bp_deref_def index_def slice_from_def bp_alloc_def nth_append)
  moreover have "pending ?s gs ?l k ?r"
  proof -
    have ne: "?b \<noteq> a" using h(4) by auto
    have reps: "rep ?h t" if "t \<in> set (ts @ ts')" for t
      using h(2,3,4) that by (intro rep_upd) (auto simp: rep_Nd)
    have "crep ?h gs a" using h(1,3,4) by (intro crep_upd) auto
    moreover have "rep ?h ?l" "rep ?h ?r" using reps ne unfolding rep_Nd by auto
    moreover have "distinct (caddrs gs @ addrs ?l @ addrs ?r)" using h(3,4) by auto
    moreover have "bt_root s = addr (plug gs ?l)"
      using s addr_plug_cong [of ?l "Nd a (ks @ k # ks') (ts @ ts')" gs] by (simp add: bp_shape_def)
    moreover have "nexts ?h = nexts (bt_heap s)" using a h(5) by (auto simp: nexts_def fun_eq_iff)
    moreover have "\<forall>c \<in> dom ?h. c < ?b + 1" using s a by (auto simp: bp_shape_def less_Suc_eq)
    moreover have "sorted_wrt (<) (tpre gs @ tokens ?l @ (k, False) # tokens ?r @ tpost gs)"
      using s len by (simp add: bp_shape_def ordered_def tokens_plug [OF gs] weave_mid)
    moreover have "bt_ok ?l" "bt_ok ?r" using len ok by (auto simp: bpOrder_def)
    ultimately show ?thesis
      using s gs by (simp add: pending_def bp_shape_def leaves_plug del: rep.simps)
  qed
  ultimately show ?thesis by auto
qed

text \<open>Placing the new sibling gives a tree again, whose node above may be full.\<close>

definition raised :: "BPTreeStore \<Rightarrow> (nat \<times> (string \<times> string) list) list \<Rightarrow> nat \<Rightarrow> frame list \<Rightarrow> string list \<Rightarrow> bt list \<Rightarrow> bool" where
  "raised s ls a gs ks ts \<longleftrightarrow> bp_shape s (plug gs (Nd a ks ts)) \<and> (\<forall>f \<in> set gs. frame_ok f) \<and> (\<forall>t \<in> set ts. bt_ok t)
     \<and> length ts = length ks + 1 \<and> length ks \<le> bpOrder \<and> leaves (plug gs (Nd a ks ts)) = ls"

lemma raised_rep: "raised s ls a gs ks ts \<Longrightarrow> length ks < bpOrder \<Longrightarrow> \<exists>t. bp_rep s t \<and> leaves t = ls"
  unfolding raised_def bp_rep_def by (auto intro!: exI [of _ "plug gs (Nd a ks ts)"] bt_ok_plug)

lemma raised_keys: "raised s ls a gs ks ts \<Longrightarrow> bp_deref (bt_heap s) a = Inr (inner ks ts)"
  using shape_heap(2) [of s gs "Nd a ks ts"] unfolding raised_def rep_Nd by (simp add: bp_deref_def)

lemma settle:
  assumes p: "pending s fs l k r"
  shows "\<exists>q s'. place (addr l) k (addr r) s = Inr (q, s') \<and> bt_hashes s' = bt_hashes s \<and>
    (case q of None \<Rightarrow> \<exists>t. bp_rep s' t \<and> leaves t = lpre fs @ leaves l @ leaves r @ lpost fs
     | Some a \<Rightarrow> \<exists>gs ks ts. length gs < length fs \<and> raised s' (lpre fs @ leaves l @ leaves r @ lpost fs) a gs ks ts)"
proof (cases fs)
  case Nil
  then obtain s' where "place (addr l) k (addr r) s = Inr (None, s')" "bp_rep s' (Nd (bt_free s) [k] [l, r])"
    "bt_hashes s' = bt_hashes s"
    using place_root p by blast
  then show ?thesis using Nil by (auto intro!: exI [of _ "Nd (bt_free s) [k] [l, r]"])
next
  case (Cons f gs)
  obtain a lks lts rks rts where f: "f = (a, lks, lts, rks, rts)" by (cases f)
  let ?ks = "lks @ k # rks" and ?ts = "lts @ l # r # rts"
  obtain s' where s': "place (addr l) k (addr r) s = Inr (Some a, s')" "bt_hashes s' = bt_hashes s"
    "bp_shape s' (plug gs (Nd a ?ks ?ts))"
    using place_parent p Cons f by blast
  have "raised s' (lpre fs @ leaves l @ leaves r @ lpost fs) a gs ?ks ?ts"
    using s'(3) pendingD(1,2,3) [OF p] Cons f by (auto simp: raised_def leaves_plug)
  then show ?thesis using s' Cons by auto
qed

lemma halve_full:
  assumes r: "raised s ls a gs ks ts" and full: "length ks = bpOrder"
  shows "\<exists>l k r s'. halve a s = Inr (k, addr r, s') \<and> addr l = a \<and> bt_hashes s' = bt_hashes s
    \<and> pending s' gs l k r \<and> lpre gs @ leaves l @ leaves r @ lpost gs = ls"
proof -
  let ?m = "bpOrder div 2"
  have len: "length ts = length ks + 1" using r by (simp add: raised_def)
  have ks: "ks = take ?m ks @ ks ! ?m # drop (?m + 1) ks" using full id_take_nth_drop [of ?m ks] by (simp add: bpOrder_def)
  have ts: "ts = take (?m + 1) ts @ drop (?m + 1) ts" by simp
  have "leaves (plug gs (Nd a ks (take (?m + 1) ts @ drop (?m + 1) ts))) = ls" using r by (simp add: raised_def)
  then have ls: "lpre gs @ concat (map leaves (take (?m + 1) ts)) @ concat (map leaves (drop (?m + 1) ts)) @ lpost gs = ls"
    unfolding leaves_plug leaves.simps map_append concat_append by simp
  have "bp_shape s (plug gs (Nd a (take ?m ks @ ks ! ?m # drop (?m + 1) ks) (take (?m + 1) ts @ drop (?m + 1) ts)))"
    using r ks unfolding raised_def by (metis ts)
  from halve_ok [OF this] obtain s' where "halve a s = Inr (ks ! ?m, bt_free s, s')" "bt_hashes s' = bt_hashes s"
    "pending s' gs (Nd a (take ?m ks) (take (?m + 1) ts)) (ks ! ?m) (Nd (bt_free s) (drop (?m + 1) ks) (drop (?m + 1) ts))"
    using r full len by (auto simp: raised_def bpOrder_def)
  then show ?thesis
    using ls by (intro exI [of _ "Nd a (take ?m ks) (take (?m + 1) ts)"] exI [of _ "ks ! ?m"]
        exI [of _ "Nd (bt_free s) (drop (?m + 1) ks) (drop (?m + 1) ts)"] exI [of _ s']) simp
qed

lemma split_up:
  assumes "raised s ls a gs ks ts" and "length ks = bpOrder" and "length gs < fuel"
  shows "\<exists>s' t. splitInternal fuel a s = Inr s' \<and> bp_rep s' t \<and> leaves t = ls \<and> bt_hashes s' = bt_hashes s"
  using assms
proof (induction fuel arbitrary: s a gs ks ts)
  case (Suc fuel)
  obtain l k r s1 where h: "halve a s = Inr (k, addr r, s1)" "addr l = a" "bt_hashes s1 = bt_hashes s"
    "pending s1 gs l k r" "lpre gs @ leaves l @ leaves r @ lpost gs = ls"
    using halve_full [OF Suc.prems(1,2)] by blast
  obtain q s2 where q: "place (addr l) k (addr r) s1 = Inr (q, s2)" "bt_hashes s2 = bt_hashes s1"
    "case q of None \<Rightarrow> \<exists>t. bp_rep s2 t \<and> leaves t = ls
     | Some b \<Rightarrow> \<exists>gs' ks ts. length gs' < length gs \<and> raised s2 ls b gs' ks ts"
    using settle [OF h(4)] unfolding h(5) by blast
  show ?case
  proof (cases q)
    case None
    then show ?thesis using h q by auto
  next
    case (Some b)
    then obtain gs' ks' ts' where r: "length gs' < length gs" "raised s2 ls b gs' ks' ts'" using q(3) by auto
    note deref = raised_keys [OF r(2)]
    show ?thesis
    proof (cases "length ks' < bpOrder")
      case True
      then show ?thesis using raised_rep [OF r(2)] h q Some deref by auto
    next
      case False
      then have "length ks' = bpOrder" using r(2) by (simp add: raised_def)
      then show ?thesis using Suc.IH [OF r(2)] r(1) Suc.prems(3) h q Some deref by auto
    qed
  qed
qed simp

lemma insertIntoParent_ok:
  assumes p: "pending s fs l k r"
  shows "\<exists>s' t. insertIntoParent (addr l) k (addr r) s = Inr s' \<and> bp_rep s' t
    \<and> leaves t = lpre fs @ leaves l @ leaves r @ lpost fs \<and> bt_hashes s' = bt_hashes s"
proof -
  let ?ls = "lpre fs @ leaves l @ leaves r @ lpost fs"
  obtain q s2 where q: "place (addr l) k (addr r) s = Inr (q, s2)" "bt_hashes s2 = bt_hashes s"
    "case q of None \<Rightarrow> \<exists>t. bp_rep s2 t \<and> leaves t = ?ls
     | Some b \<Rightarrow> \<exists>gs' ks ts. length gs' < length fs \<and> raised s2 ?ls b gs' ks ts"
    using settle [OF p] by blast
  show ?thesis
  proof (cases q)
    case None
    then show ?thesis using q by (auto simp: insertIntoParent_def)
  next
    case (Some b)
    then obtain gs ks ts where r: "raised s2 ?ls b gs ks ts" using q(3) by auto
    note deref = raised_keys [OF r]
    show ?thesis
    proof (cases "length ks < bpOrder")
      case True
      then show ?thesis using raised_rep [OF r] q Some deref by (auto simp: insertIntoParent_def)
    next
      case False
      then have full: "length ks = bpOrder" using r by (simp add: raised_def)
      have "length (addrs (plug gs (Nd b ks ts))) \<le> bt_free s2" using r by (intro shape_fuel) (simp add: raised_def)
      then have "length gs < bt_free s2" using length_plug [of gs "Nd b ks ts"] by simp
      then show ?thesis using split_up [OF r full] q Some deref False by (auto simp: insertIntoParent_def)
    qed
  qed
qed

text \<open>Splitting a full leaf.\<close>

lemma sorted_before:
  assumes "sorted_wrt (<) (xs @ z # ys)" and "\<forall>x \<in> set xs. x < w" and "w < (z :: 'a :: linorder)"
  shows "sorted_wrt (<) (xs @ w # z # ys)"
  using assms by (auto simp: sorted_wrt_append intro: less_trans)

lemma promoted_sorted:
  assumes old: "sorted_wrt (<) (xs @ map key_token (us @ (k, v) # vs) @ ys)" and us: "us \<noteq> []"
  shows "sorted_wrt (<) (xs @ map key_token us @ (k, False) # map key_token ((k, v) # vs) @ ys)"
proof -
  have lt: "\<forall>e \<in> set us. fst e < k" using old by (auto simp: sorted_wrt_append)
  obtain u where u: "u \<in> set us" using us by (cases us) auto
  have "x < (k, False)" if "x \<in> set xs" for x
  proof -
    have "x < key_token u" using old that u by (auto simp: sorted_wrt_append)
    then show ?thesis using lt u by (cases x) (auto simp: less_prod_def)
  qed
  then have "\<forall>x \<in> set (xs @ map key_token us). x < (k, False)" using lt by (auto simp: less_prod_def)
  moreover have "(k, False) < (k, True)" by (simp add: less_prod_def)
  ultimately show ?thesis
    using old sorted_before [of "xs @ map key_token us" "(k, True)" "map key_token vs @ ys" "(k, False)"] by simp
qed

lemma split_leaf_ok:
  assumes s: "bp_shape s (plug fs (Lf a (us @ vs)))" and fs: "\<forall>f \<in> set fs. frame_ok f"
    and len: "length us = bpOrder div 2" "length vs = bpOrder div 2"
  shows "\<exists>s' t. split_leaf a s = Inr s' \<and> bp_rep s' t
    \<and> leaves t = lpre fs @ (a, us) # (bt_free s, vs) # lpost fs \<and> bt_hashes s' = bt_hashes s"
proof -
  let ?b = "bt_free s" and ?l = "Lf a us" and ?r = "Lf (bt_free s) vs"
  note h = shape_heap [OF s]
  obtain nx where a: "bt_heap s a = Some (leaf_node (us @ vs) nx)" using h(2) unfolding rep_Lf by blast
  let ?h = "(bt_heap s)(?b \<mapsto> leaf_node vs nx, a \<mapsto> leaf_node us (Some ?b))"
  let ?s = "bp_put a (leaf_node us (Some ?b)) (s\<lparr>bt_heap := (bt_heap s)(?b \<mapsto> leaf_node vs nx), bt_free := ?b + 1\<rparr>)"
  obtain k v vs' where vs: "vs = (k, v) # vs'" using len by (cases vs) (auto simp: bpOrder_def)
  have ne: "?b \<noteq> a" using h(4) by auto
  have nodes: "(leaf_node (us @ vs) nx)\<lparr>bp_keys := map fst us, bp_values := Some (map snd us), bp_next := Some ?b\<rparr>
      = leaf_node us (Some ?b)"
    "newLeaf\<lparr>bp_keys := map fst vs, bp_values := Some (map snd vs), bp_next := nx\<rparr> = leaf_node vs nx"
    by (simp_all add: leaf_node_def newLeaf_def)
  have "split_leaf a s = insertIntoParent a k ?b ?s"
    using a len nodes unfolding split_leaf_def
    by (simp add: Let_def bp_deref_def slice_from_def bp_alloc_def) (simp add: vs index_def)
  moreover have "pending ?s fs ?l k ?r"
  proof -
    have "crep ?h fs a" using h(1,3,4) by (intro crep_upd) auto
    moreover have "rep ?h ?l" "rep ?h ?r" using ne unfolding rep_Lf by auto
    moreover have "distinct (caddrs fs @ addrs ?l @ addrs ?r)" using h(3,4) by auto
    moreover have "bt_root s = addr (plug fs ?l)"
      using s addr_plug_cong [of ?l "Lf a (us @ vs)" fs] by (simp add: bp_shape_def)
    moreover have "\<forall>c \<in> dom ?h. c < ?b + 1" using s a by (auto simp: bp_shape_def less_Suc_eq)
    moreover have "sorted_wrt (<) (tpre fs @ tokens ?l @ (k, False) # tokens ?r @ tpost fs)"
    proof -
      have "sorted_wrt (<) (tpre fs @ map key_token (us @ (k, v) # vs') @ tpost fs)"
        using s unfolding bp_shape_def ordered_def tokens_plug [OF fs] tokens_Lf vs by blast
      then show ?thesis unfolding tokens_Lf vs using len by (intro promoted_sorted) (auto simp: bpOrder_def)
    qed
    moreover have "linked (nexts ?h) (map fst (lpre fs) @ a # ?b # map fst (lpost fs))"
    proof -
      let ?as = "map fst (lpre fs) @ a # map fst (lpost fs)"
      have ls: "map fst (leaves (plug fs (Lf a (us @ vs)))) = ?as" by (simp add: leaves_plug)
      have sub: "set ?as \<subseteq> set (addrs (plug fs (Lf a (us @ vs))))" unfolding ls [symmetric] set_map by (rule leaves_addrs)
      have "distinct ?as" using s distinct_leaves [of "plug fs (Lf a (us @ vs))"] ls by (simp add: bp_shape_def)
      moreover have "?b \<notin> set ?as" using sub shape_fresh [OF s] by blast
      moreover have "linked (nexts (bt_heap s)) ?as" using s ls by (simp add: bp_shape_def)
      ultimately have "linked ((nexts (bt_heap s))(a := Some ?b, ?b := nexts (bt_heap s) a)) (map fst (lpre fs) @ a # ?b # map fst (lpost fs))"
        by (intro linked_insert)
      moreover have "nexts ?h = (nexts (bt_heap s))(a := Some ?b, ?b := nexts (bt_heap s) a)"
        using a ne by (auto simp: nexts_def fun_eq_iff)
      ultimately show ?thesis by simp
    qed
    moreover have "bt_ok ?l" "bt_ok ?r" using len by (auto simp: bpOrder_def)
    ultimately show ?thesis
      using fs by (simp add: pending_def del: rep.simps)
  qed
  ultimately show ?thesis using insertIntoParent_ok [of ?s fs ?l k ?r] by auto
qed

lemma located_shape:
  assumes "bp_rep s (plug fs (Lf a (us @ vs)))" and "located s key fs a us vs nx"
  shows "bp_shape s (plug fs (Lf a (us @ vs)))" and "length (us @ vs) < bpOrder" and "\<forall>f \<in> set fs. frame_ok f"
    and "bt_heap s a = Some (leaf_node (us @ vs) nx)" and "sorted_wrt (<) (map fst vs)"
  using assms bt_ok_hole [of fs "Lf a (us @ vs)"] by (auto simp: bp_rep_def located_def sorted_wrt_append)

lemma Set_replace:
  assumes r: "bp_rep s (plug fs (Lf a (us @ (key, v) # ws)))" and l: "located s key fs a us ((key, v) # ws) nx"
  shows "\<exists>s'. BPTreeStore_Set key val s = Inr s' \<and> bp_rep s' (plug fs (Lf a (us @ (key, val) # ws)))
    \<and> bt_hashes s' = bt_hashes s"
proof -
  let ?s = "bp_put a (leaf_node (us @ (key, val) # ws) nx) s" and ?t = "plug fs (Lf a (us @ (key, val) # ws))"
  note h = located_shape [OF r l]
  have ws: "\<forall>x \<in> set ws. key < fst x" by (rule located_rest(1) [OF l refl])
  have "bp_shape ?s ?t" using h(5) located_tokens(2) [OF l h(1) _ _ ws] by (intro leaf_update [OF h(1,3,4)]) auto
  moreover have "bt_ok ?t" using h(2) by (intro bt_ok_plug [OF h(3)]) simp
  moreover have "(leaf_node (us @ (key, v) # ws) nx)\<lparr>bp_values := Some (map snd us @ val # map snd ws)\<rparr>
      = leaf_node (us @ (key, val) # ws) nx"
    by (simp add: leaf_node_def)
  then have "BPTreeStore_Set key val s = Inr ?s"
    using l located_has [OF l]
    by (simp add: BPTreeStore_Set_def located_def bp_deref_def assign_def Let_def list_update_append)
  ultimately show ?thesis by (auto simp: bp_rep_def)
qed

lemma Set_fresh:
  assumes r: "bp_rep s (plug fs (Lf a (us @ vs)))" and l: "located s key fs a us vs nx"
    and none: "\<nexists>v ws. vs = (key, v) # ws"
  shows "\<exists>s' t'. BPTreeStore_Set key val s = Inr s' \<and> bp_rep s' t'
    \<and> entries t' = entries (plug fs (Lf a (us @ (key, val) # vs))) \<and> bt_hashes s' = bt_hashes s"
proof -
  let ?kvs = "us @ (key, val) # vs" and ?t = "plug fs (Lf a (us @ (key, val) # vs))"
  let ?s = "bp_put a (leaf_node ?kvs nx) s"
  note h = located_shape [OF r l]
  have shape: "bp_shape ?s ?t"
    using h(5) located_tokens(2) [OF l h(1) _ _ located_rest(2) [OF l none]] by (intro leaf_update [OF h(1,3,4)]) auto
  have "(leaf_node (us @ vs) nx)\<lparr>bp_keys := map fst us @ key # map fst vs, bp_values := Some (map snd us @ val # map snd vs)\<rparr>
      = leaf_node ?kvs nx"
    by (simp add: leaf_node_def)
  then have set: "BPTreeStore_Set key val s = (if length ?kvs < bpOrder then Inr ?s else split_leaf a ?s)"
    using l located_has [OF l] none by (simp add: BPTreeStore_Set_def located_def bp_deref_def insertAt_def Let_def)
  show ?thesis
  proof (cases "length ?kvs < bpOrder")
    case True
    then have "bp_rep ?s ?t" using shape bt_ok_plug [OF h(3), of "Lf a ?kvs"] by (simp add: bp_rep_def)
    then show ?thesis using set True by auto
  next
    case full: False
    let ?us = "take (bpOrder div 2) ?kvs" and ?vs = "drop (bpOrder div 2) ?kvs"
    have len: "length ?kvs = bpOrder" using full h(2) by simp
    have "?us @ ?vs = ?kvs" by (rule append_take_drop_id)
    then obtain s' t' where s': "split_leaf a ?s = Inr s'" "bp_rep s' t'"
      "leaves t' = lpre fs @ (a, ?us) # (bt_free ?s, ?vs) # lpost fs" "bt_hashes s' = bt_hashes s"
      using split_leaf_ok [of ?s fs a ?us ?vs] shape h(3) len
      by (auto simp: bpOrder_def simp del: take_append drop_append)
    have "entries t' = epre fs @ (?us @ ?vs) @ epost fs" using s'(3) by (simp add: entries_def epre_def epost_def)
    then have "entries t' = entries ?t" by (simp add: entries_plug append_take_drop_id del: take_append drop_append)
    then show ?thesis using s' set full by auto
  qed
qed

lemma Set_rep:
  assumes "bp_rep s t"
  shows "\<exists>s' t'. BPTreeStore_Set key val s = Inr s' \<and> bp_rep s' t'
    \<and> map_of (entries t') = (map_of (entries t))(key \<mapsto> val) \<and> bt_hashes s' = bt_hashes s"
proof -
  obtain fs a us vs nx where t: "t = plug fs (Lf a (us @ vs))" and l: "located s key fs a us vs nx"
    by (rule locate [OF assms])
  show ?thesis
  proof (cases "\<exists>v ws. vs = (key, v) # ws")
    case True
    then obtain v ws where vs: "vs = (key, v) # ws" by blast
    then have "map_of (entries (plug fs (Lf a (us @ (key, val) # ws)))) = (map_of (entries t))(key \<mapsto> val)"
      using located_entries(1) [OF l located_rest(1) [OF l]] t by simp
    then show ?thesis using Set_replace [of s fs a us key v ws nx val] assms l t vs by blast
  next
    case False
    have "map_of (entries (plug fs (Lf a (us @ (key, val) # vs)))) = (map_of (entries t))(key \<mapsto> val)"
      using located_entries(1) [OF l located_rest(2) [OF l False]] t by simp
    then show ?thesis using Set_fresh [OF _ l False, of val] assms t by metis
  qed
qed

section \<open>Listings\<close>

lemma scan_keys_append:
  "scan_keys P stop (xs @ ys) = (if snd (scan_keys P stop xs) then scan_keys P stop xs
    else (fst (scan_keys P stop xs) @ fst (scan_keys P stop ys), snd (scan_keys P stop ys)))"
  by (induction xs) (auto simp: case_prod_unfold Let_def)

lemma scan_keys_filter:
  assumes "sorted_wrt (<) ks" and "\<forall>k k'. k \<in> set ks \<and> stop k \<and> \<not> P k \<and> k < k' \<longrightarrow> \<not> P k'"
  shows "fst (scan_keys P stop ks) = filter P ks"
  using assms
proof (induction ks)
  case (Cons k ks)
  have "\<forall>k' \<in> set ks. k < k'" and sorted: "sorted_wrt (<) ks" using Cons.prems(1) by simp_all
  then have "filter P ks = []" if "stop k" "\<not> P k"
    using Cons.prems(2) that unfolding filter_empty_conv by (meson list.set_intros(1))
  moreover have "\<forall>k k'. k \<in> set ks \<and> stop k \<and> \<not> P k \<and> k < k' \<longrightarrow> \<not> P k'"
    using Cons.prems(2) by (meson list.set_intros(2))
  from Cons.IH [OF sorted this] have "fst (scan_keys P stop ks) = filter P ks" .
  ultimately show ?case by (simp add: case_prod_unfold Let_def)
qed simp

lemma scan_leaves_ok:
  assumes "linked (nexts h) (map fst ls)" and "\<forall>x \<in> set ls. \<exists>nx. h (fst x) = Some (leaf_node (snd x) nx)" and "length ls < fuel"
  shows "scan_leaves fuel h P stop (hd_opt (map fst ls)) = Inr (fst (scan_keys P stop (map fst (concat (map snd ls)))))"
  using assms
proof (induction ls arbitrary: fuel)
  case Nil
  then show ?case by (cases fuel) (auto simp: hd_opt_def)
next
  case (Cons x ls)
  obtain a kvs where x: "x = (a, kvs)" by (cases x)
  obtain f where f: "fuel = Suc f" "length ls < f" using Cons.prems(3) by (cases fuel) auto
  obtain nx where nx: "h a = Some (leaf_node kvs nx)" using Cons.prems(2) x by auto
  have "nexts h a = nx" using nx by (simp add: nexts_def)
  then have "nx = hd_opt (map fst ls)" and link: "linked (nexts h) (map fst ls)"
    using Cons.prems(1) x by (cases ls; simp add: hd_opt_def)+
  moreover have "\<forall>x \<in> set ls. \<exists>nx. h (fst x) = Some (leaf_node (snd x) nx)" using Cons.prems(2) by simp
  from Cons.IH [OF link this f(2)] calculation have "scan_leaves f h P stop nx = Inr (fst (scan_keys P stop (map fst (concat (map snd ls)))))" by simp
  then show ?case
    using nx x f by (auto simp: hd_opt_def bp_deref_def case_prod_unfold Let_def scan_keys_append)
qed

lemma rep_leaves: "rep h t \<Longrightarrow> \<forall>x \<in> set (leaves t). \<exists>nx. h (fst x) = Some (leaf_node (snd x) nx)"
  by (induction t) (auto simp: leaf_node_def)

lemma linked_suffix: "linked nx (xs @ ys) \<Longrightarrow> linked nx ys"
proof (induction xs)
  case (Cons x xs)
  then show ?case by (cases "xs @ ys") auto
qed simp

lemma length_leaves: "length (leaves t) \<le> length (addrs t)"
proof (induction t)
  case (Nd a ks ts)
  then have "(\<Sum>t\<leftarrow>ts. length (leaves t)) \<le> (\<Sum>t\<leftarrow>ts. length (addrs t))" by (intro sum_list_mono)
  then show ?case by (simp add: length_concat comp_def)
qed simp

lemma listing_rep:
  assumes r: "bp_rep s t" and below: "\<And>k. P k \<Longrightarrow> key \<le> k"
    and stop: "\<And>k k'. stop k \<Longrightarrow> \<not> P k \<Longrightarrow> k < k' \<Longrightarrow> \<not> P k'"
  shows "\<exists>ks. bindr (searchLeaf (bt_free s) (bt_heap s) key (bt_root s))
      (\<lambda>a. scan_leaves (bt_free s + 1) (bt_heap s) P stop (Some a)) = Inr ks \<and> sorted_keys P (astr (bp_abs s)) ks"
proof -
  obtain fs a us vs nx where t: "t = plug fs (Lf a (us @ vs))" and l: "located s key fs a us vs nx"
    by (rule locate [OF r])
  let ?ls = "(a, us @ vs) # lpost fs"
  have shape: "bp_shape s t" using r by (simp add: bp_rep_def)
  have ls: "leaves t = lpre fs @ ?ls" by (simp add: t leaves_plug)
  have "length ?ls < bt_free s + 1" using length_leaves [of t] shape_fuel [OF shape] ls by simp
  moreover have "linked (nexts (bt_heap s)) (map fst ?ls)"
    using shape ls linked_suffix [of _ "map fst (lpre fs)" "map fst ?ls"] by (simp add: bp_shape_def)
  moreover have "\<forall>x \<in> set ?ls. \<exists>nx. bt_heap s (fst x) = Some (leaf_node (snd x) nx)"
    using rep_leaves [of "bt_heap s" t] shape ls by (simp add: bp_shape_def)
  ultimately have scan: "scan_leaves (bt_free s + 1) (bt_heap s) P stop (Some a)
      = Inr (fst (scan_keys P stop (map fst (us @ vs @ epost fs))))"
    using scan_leaves_ok [of "bt_heap s" ?ls "bt_free s + 1" P stop]
    by (simp add: hd_opt_def epost_def del: scan_leaves.simps)
  have ent: "entries t = epre fs @ us @ vs @ epost fs" by (simp add: t entries_plug)
  have sorted: "sorted_wrt (<) (map fst (entries t))" using r by (intro entries_sorted) (auto simp: bp_rep_def bp_shape_def)
  have "fst (scan_keys P stop (map fst (us @ vs @ epost fs))) = filter P (map fst (us @ vs @ epost fs))"
    using sorted stop by (intro scan_keys_filter) (auto simp: ent sorted_wrt_append)
  moreover have "filter P (map fst (epre fs)) = []"
    unfolding filter_empty_conv using located_outside [OF l] below by (auto simp: not_le [symmetric])
  ultimately have "fst (scan_keys P stop (map fst (us @ vs @ epost fs))) = filter P (map fst (entries t))" by (simp add: ent)
  moreover have "sorted_keys P (astr (bp_abs s)) (filter P (map fst (entries t)))"
    using sorted by (auto simp: sorted_keys_def bp_abs_rep [OF r] dom_map_of_conv_image_fst sorted_wrt_filter)
  ultimately show ?thesis using l scan by (simp add: located_def del: scan_leaves.simps)
qed

section \<open>The contract\<close>

interpretation bptree: total_store BPTreeStore_ops bp_inv bp_abs "\<lambda>_. True"
proof unfold_locales
  fix s :: BPTreeStore
  assume inv: "bp_inv s"
  then obtain t where t: "bp_rep s t" unfolding bp_inv_def by blast
  note abs = bp_abs_rep [OF t]
  show "op_Get BPTreeStore_ops k s = Inr (astr (bp_abs s) k)" for k
    using Get_rep [OF t] by (simp add: BPTreeStore_ops_def abs)
  show "op_HSet BPTreeStore_ops h f v s = Inr s' \<Longrightarrow> bp_inv s' \<and> bp_abs s' = a_hset h f v (bp_abs s)" for h f v s'
    using t bp_abs_rep [of "s\<lparr>bt_hashes := hashes_set h f v (bt_hashes s)\<rparr>" t]
    by (auto simp: BPTreeStore_ops_def BPTreeStore_HSet_def bp_inv_def abs a_hset_def)
  show "op_HGet BPTreeStore_ops h f s = Inr (hashes_get h f (ahash (bp_abs s)))" for h f
    by (simp add: BPTreeStore_ops_def BPTreeStore_HGet_def bp_abs_def)
  show "op_HGetAll BPTreeStore_ops h s = Inr (ahash (bp_abs s) h)" for h
    by (simp add: BPTreeStore_ops_def BPTreeStore_HGetAll_def bp_abs_def)
  show "op_Set BPTreeStore_ops k v s = Inr s' \<Longrightarrow> bp_inv s' \<and> bp_abs s' = a_set k v (bp_abs s)"
    "\<exists>s'. op_Set BPTreeStore_ops k v s = Inr s'" for k v s'
    using Set_rep [OF t, of k v] bp_abs_rep by (auto simp: BPTreeStore_ops_def bp_inv_def abs a_set_def)
  show "op_Del BPTreeStore_ops k s = Inr s' \<Longrightarrow> bp_inv s' \<and> bp_abs s' = a_del k (bp_abs s)"
    "\<exists>s'. op_Del BPTreeStore_ops k s = Inr s'" for k s'
    using Del_rep [OF t, of k] bp_abs_rep by (auto simp: BPTreeStore_ops_def bp_inv_def abs a_del_def)
qed (simp_all add: BPTreeStore_ops_def BPTreeStore_HSet_def)

interpretation bptree: ordered_store BPTreeStore_ops bp_inv bp_abs "\<lambda>_. True"
  BPTreeStore_PrefixKeys BPTreeStore_RangeKeys
proof unfold_locales
  fix s :: BPTreeStore
  assume "bp_inv s"
  then obtain t where t: "bp_rep s t" unfolding bp_inv_def by blast
  show "\<exists>ks. BPTreeStore_PrefixKeys p s = Inr ks \<and> sorted_keys (prefix p) (astr (bp_abs s)) ks" for p
    unfolding BPTreeStore_PrefixKeys_def
    by (rule listing_rep [OF t]) (auto dest: prefix_le prefix_between [OF less_imp_le less_imp_le])
  show "\<exists>ks. BPTreeStore_RangeKeys lo hi s = Inr ks \<and> sorted_keys (\<lambda>k. lo \<le> k \<and> k \<le> hi) (astr (bp_abs s)) ks" for lo hi
    unfolding BPTreeStore_RangeKeys_def by (rule listing_rep [OF t]) auto
qed

lemma NewBPTreeStore_inv: "bp_inv NewBPTreeStore \<and> bp_abs NewBPTreeStore = a_empty"
proof -
  have "bp_rep NewBPTreeStore (Lf 0 [])"
    by (simp add: bp_rep_def bp_shape_def NewBPTreeStore_def newLeaf_def ordered_def bpOrder_def nexts_def)
  then show ?thesis using bp_abs_rep by (auto simp: bp_inv_def a_empty_def NewBPTreeStore_def)
qed

section \<open>Properties\<close>

text \<open>
  C7: Every sequence of calls on a new B+ tree returns: no slice is indexed out of range, no nil pointer
  is followed, every loop and every recursion ends, and every node to split has a parent that is found. It
  replies what the abstract store replies; afterwards \<open>PrefixKeys\<close> and \<open>RangeKeys\<close> list, in increasing
  order, exactly the string keys with the prefix or in the range.
\<close>

theorem bptree_correct:
  "\<exists>s. calls BPTreeStore_ops cs NewBPTreeStore = Inr (fst (a_calls cs a_empty), s)
    \<and> (\<exists>ks. BPTreeStore_PrefixKeys p s = Inr ks
          \<and> sorted_keys (\<lambda>k. prefix p k) (astr (snd (a_calls cs a_empty))) ks)
    \<and> (\<exists>ks. BPTreeStore_RangeKeys lo hi s = Inr ks
          \<and> sorted_keys (\<lambda>k. lo \<le> k \<and> k \<le> hi) (astr (snd (a_calls cs a_empty))) ks)"
proof -
  obtain s where s: "calls BPTreeStore_ops cs NewBPTreeStore = Inr (fst (a_calls cs a_empty), s)"
    "bp_inv s" "bp_abs s = snd (a_calls cs a_empty)"
    using bptree.calls_correct [of NewBPTreeStore cs] NewBPTreeStore_inv by auto
  then show ?thesis
    using bptree.PrefixKeys_law [OF s(2), of p] bptree.RangeKeys_law [OF s(2), of lo hi] by auto
qed

end
