(* ===== verification/Art_Store.thy ===== *)
theory Art_Store
  imports Heap_Chains
begin

text \<open>
  \<open>ARTStore\<close> (\<open>store/art.go\<close>): an adaptive radix tree. A node is a leaf with its whole key, or has a
  compressed path and a table of children by the next byte, in one of four layouts; the byte 0 stands
  for the end of a key. Every node has one parent, so that changing a node through a pointer is
  rebuilding the path to it: \<open>setChild\<close> puts the changed child back where \<open>findChild\<close> found it.

  Indexing out of range and following a nil pointer panic. \<open>splitPrefix\<close> calls \<open>Set\<close>, which takes the
  lock its caller holds: the goroutine blocks forever, and every other one at its next call.
\<close>

section \<open>Nodes\<close>

record artLeaf =
  al_key :: string
  al_value :: string

text \<open>
  The slice \<open>keys\<close> of a node of type 4 or 16 has that capacity: it is made so, and the node grows as soon
  as it is full, so that \<open>append\<close> never moves it. An entry of \<open>index\<close> is at most 47.
\<close>

datatype artNode = ArtNode
  (an_prefix: "string option")
  (an_leaf: "artLeaf option")
  (an_nodeType: nat)
  (an_keys: "char list")
  (an_children: "artNode option list")
  (an_index: "char \<Rightarrow> int")

record ARTStore =
  ar_root :: "artNode option"
  ar_hashes :: hmap

definition artNode4 :: nat where "artNode4 = 4"
definition artNode16 :: nat where "artNode16 = 16"
definition artNode48 :: nat where "artNode48 = 48"
definition artNode256 :: nat where "artNode256 = 256"
definition artEmptyIndex :: int where "artEmptyIndex = -1"

abbreviation NUL :: char where "NUL \<equiv> CHR 0x00"

definition bytes :: "char list" where "bytes = map char_of [0..<(256 :: nat)]"

definition NewARTStore :: ARTStore where
  "NewARTStore = \<lparr>ar_root = None, ar_hashes = Map.empty\<rparr>"

definition newArtLeaf :: "string \<Rightarrow> string \<Rightarrow> artNode" where
  "newArtLeaf key val = ArtNode None (Some \<lparr>al_key = key, al_value = val\<rparr>) 0 [] [] (\<lambda>_. 0)"

section \<open>The table of children\<close>

fun key_pos :: "char \<Rightarrow> char list \<Rightarrow> nat option" where
  "key_pos b [] = None"
| "key_pos b (k # ks) = (if k = b then Some 0 else map_option Suc (key_pos b ks))"

definition index_int :: "'a list \<Rightarrow> int \<Rightarrow> 'a res" where
  "index_int xs i = (if 0 \<le> i then index xs (nat i) else Inl Panic)"

definition findChild :: "artNode \<Rightarrow> char \<Rightarrow> artNode option res" where
  "findChild n b =
     (if an_nodeType n = artNode4 \<or> an_nodeType n = artNode16
      then case key_pos b (an_keys n) of None \<Rightarrow> Inr None | Some i \<Rightarrow> index (an_children n) i
      else if an_nodeType n = artNode48
      then if an_index n b \<noteq> artEmptyIndex then index_int (an_children n) (an_index n b) else Inr None
      else if an_nodeType n = artNode256 then index (an_children n) (of_char b)
      else Inr None)"

text \<open>The change of the child that \<open>findChild\<close> returns, through its pointer.\<close>

definition setChild :: "artNode \<Rightarrow> char \<Rightarrow> artNode \<Rightarrow> artNode" where
  "setChild n b c =
     (case n of ArtNode px lf ty ks cs ix \<Rightarrow>
        let i = (if ty = artNode4 \<or> ty = artNode16 then case key_pos b ks of None \<Rightarrow> length cs | Some i \<Rightarrow> i
                 else if ty = artNode48 then nat (ix b) else of_char b)
        in ArtNode px lf ty ks (cs[i := Some c]) ix)"

fun grow4to16 :: "artNode \<Rightarrow> artNode" where
  "grow4to16 (ArtNode px lf ty ks cs ix) = ArtNode px lf artNode16 ks cs ix"

fun grow16to48 :: "artNode \<Rightarrow> artNode" where
  "grow16to48 (ArtNode px lf ty ks cs ix) =
     ArtNode px lf artNode48 [] cs
       (fold (\<lambda>(i, k) ix. ix(k := int i)) (enumerate 0 ks) (\<lambda>_. artEmptyIndex))"

text \<open>The two nested ranges: every child goes to the first byte whose entry names it.\<close>

fun grow48to256 :: "artNode \<Rightarrow> artNode" where
  "grow48to256 (ArtNode px lf ty ks cs ix) =
     ArtNode px lf artNode256 ks
       (fold (\<lambda>(i, c) out. case find (\<lambda>k. ix k = int i) bytes of None \<Rightarrow> out | Some k \<Rightarrow> out[of_char k := c])
          (enumerate 0 cs) (replicate 256 None))
       (\<lambda>_. 0)"

definition addChild :: "artNode \<Rightarrow> char \<Rightarrow> artNode \<Rightarrow> artNode res" where
  "addChild n b child =
     (case n of ArtNode px lf ty ks cs ix \<Rightarrow>
        if ty = artNode4 \<or> ty = artNode16 then
          let pos = length (takeWhile (\<lambda>k. k < b) ks)
          in bindr (insertAt ks pos b) (\<lambda>ks'.
             bindr (insertAt cs pos (Some child)) (\<lambda>cs'.
               let n' = ArtNode px lf ty ks' cs' ix
               in Inr (if length ks' \<ge> ty \<and> ty = artNode4 then grow4to16 n'
                       else if length ks' \<ge> ty \<and> ty = artNode16 then grow16to48 n' else n')))
        else if ty = artNode48 then
          let cs' = cs @ [Some child]; n' = ArtNode px lf ty ks cs' (ix(b := int (length cs)))
          in Inr (if length cs' = 48 then grow48to256 n' else n')
        else if ty = artNode256 then
          bindr (assign cs (of_char b) (Some child)) (\<lambda>cs'. Inr (ArtNode px lf ty ks cs' ix))
        else Inr n)"

definition removeChild :: "artNode \<Rightarrow> char \<Rightarrow> artNode res" where
  "removeChild n b =
     (case n of ArtNode px lf ty ks cs ix \<Rightarrow>
        if ty = artNode4 \<or> ty = artNode16 then
          (case key_pos b ks of None \<Rightarrow> Inr n
           | Some i \<Rightarrow>
               bindr (slice_from (i + 1) cs) (\<lambda>rest.
                 Inr (ArtNode px lf ty (take i ks @ drop (i + 1) ks) (take i cs @ rest) ix)))
        else if ty = artNode48 then
          Inr (if ix b \<noteq> artEmptyIndex then ArtNode px lf ty ks cs (ix(b := artEmptyIndex)) else n)
        else if ty = artNode256 then
          bindr (assign cs (of_char b) None) (\<lambda>cs'. Inr (ArtNode px lf ty ks cs' ix))
        else Inr n)"

text \<open>What the switches of \<open>collectKeys\<close> and \<open>collectRange\<close> range over.\<close>

fun pick :: "(char \<Rightarrow> int) \<Rightarrow> 'a list \<Rightarrow> char list \<Rightarrow> 'a list res" where
  "pick ix xs [] = Inr []"
| "pick ix xs (b # bs) =
     (if ix b \<noteq> artEmptyIndex
      then bindr (index_int xs (ix b)) (\<lambda>x. bindr (pick ix xs bs) (\<lambda>ys. Inr (x # ys)))
      else pick ix xs bs)"

definition visited :: "nat \<Rightarrow> (char \<Rightarrow> int) \<Rightarrow> 'a list \<Rightarrow> 'a list res" where
  "visited ty ix xs =
     (if ty = artNode4 \<or> ty = artNode16 then Inr xs
      else if ty = artNode48 then pick ix xs bytes
      else if ty = artNode256 then Inr xs
      else Inr [])"

section \<open>Splits\<close>

definition lcp :: "string \<Rightarrow> string \<Rightarrow> nat \<Rightarrow> nat" where
  "lcp key1 key2 start =
     length (takeWhile (\<lambda>(a, b). a = b) (zip (drop start key1) (drop start key2)))"

definition byte_at :: "string \<Rightarrow> nat \<Rightarrow> char" where
  "byte_at key i = (if i < length key then key ! i else NUL)"

text \<open>The leaf that \<open>Set\<close> finds in the place of its key becomes a node above two leaves.\<close>

definition splitLeaf :: "artNode \<Rightarrow> artLeaf \<Rightarrow> string \<Rightarrow> string \<Rightarrow> nat \<Rightarrow> artNode res" where
  "splitLeaf n l key val depth =
     (let oldKey = al_key l;
          prefixLen = lcp oldKey key depth;
          px = (if prefixLen > 0 then Some (take prefixLen (drop depth oldKey)) else an_prefix n)
      in bindr (addChild (ArtNode px None artNode4 [] [] (an_index n))
                 (byte_at oldKey (depth + prefixLen)) (newArtLeaf oldKey (al_value l))) (\<lambda>n'.
           addChild n' (byte_at key (depth + prefixLen)) (newArtLeaf key val)))"

text \<open>The call of \<open>Set\<close> at the end waits for the lock that is already held.\<close>

definition splitPrefix :: "artNode \<Rightarrow> string \<Rightarrow> string \<Rightarrow> artNode res" where
  "splitPrefix n key val =
     (let p = (case an_prefix n of None \<Rightarrow> [] | Some p \<Rightarrow> p);
          newNode = ArtNode (if length p > 0 then Some p else None) (an_leaf n) (an_nodeType n)
            (an_keys n) (an_children n) (an_index n)
      in bindr (index p 0) (\<lambda>b.
         bindr (addChild (ArtNode None None artNode4 [] [] (an_index n)) b newNode) (\<lambda>_.
           Inl Deadlock)))"

definition splitPrefixAt :: "artNode \<Rightarrow> string \<Rightarrow> nat \<Rightarrow> nat \<Rightarrow> string \<Rightarrow> string \<Rightarrow> artNode res" where
  "splitPrefixAt n oldPrefix depth mismatch key val =
     (let newNode = ArtNode (if mismatch + 1 < length oldPrefix then Some (drop (mismatch + 1) oldPrefix) else None)
            (an_leaf n) (an_nodeType n) (an_keys n) (an_children n) (an_index n)
      in bindr (index oldPrefix mismatch) (\<lambda>childByte.
         bindr (addChild (ArtNode (if mismatch > 0 then Some (take mismatch oldPrefix) else None) None artNode4 [] [] (an_index n))
                 childByte newNode) (\<lambda>n'.
           addChild n' (byte_at key (depth + mismatch)) (newArtLeaf key val))))"

section \<open>Walks down the tree\<close>

lemma bindr_cong [fundef_cong]:
  "m = m' \<Longrightarrow> (\<And>x. m' = Inr x \<Longrightarrow> f x = g x) \<Longrightarrow> bindr m f = bindr m' g"
  by (cases m') auto

lemma child_size: "Some c \<in> set (an_children n) \<Longrightarrow> size c < size n"
proof (cases n)
  case (ArtNode px lf ty ks cs ix)
  assume "Some c \<in> set (an_children n)"
  then have "size_option size (Some c) \<le> size_list (size_option size) cs"
    using ArtNode by (simp add: size_list_estimation')
  then show ?thesis using ArtNode by simp
qed

lemma findChild_in: "findChild n b = Inr (Some c) \<Longrightarrow> Some c \<in> set (an_children n)"
  by (auto simp: findChild_def index_int_def index_def split: if_splits option.splits) (metis nth_mem)+

lemma findChild_size: "findChild n b = Inr (Some c) \<Longrightarrow> size c < size n"
  by (rule child_size) (rule findChild_in)

text \<open>
  Skipping the compressed path: the new depth, or nothing if the key does not continue with it.
\<close>

definition skip_prefix :: "artNode \<Rightarrow> string \<Rightarrow> nat \<Rightarrow> nat option" where
  "skip_prefix n key depth =
     (case an_prefix n of None \<Rightarrow> Some depth
      | Some p \<Rightarrow>
          if depth + length p > length key \<or> take (length p) (drop depth key) \<noteq> p then None
          else Some (depth + length p))"

function get_from :: "artNode \<Rightarrow> string \<Rightarrow> nat \<Rightarrow> string option res" where
  "get_from n key depth =
     (case an_leaf n of
        Some l \<Rightarrow> Inr (if al_key l = key then Some (al_value l) else None)
      | None \<Rightarrow>
          (case skip_prefix n key depth of None \<Rightarrow> Inr None
           | Some d \<Rightarrow>
               if d \<ge> length key
               then bindr (findChild n NUL) (\<lambda>c. case c of None \<Rightarrow> Inr None | Some c \<Rightarrow> get_from c key d)
               else bindr (findChild n (key ! d)) (\<lambda>c. case c of None \<Rightarrow> Inr None | Some c \<Rightarrow> get_from c key (d + 1))))"
  by pat_completeness auto

termination
  by (relation "measure (\<lambda>(n, key, depth). size n)") (auto dest: findChild_size)

definition ARTStore_Get :: "string \<Rightarrow> ARTStore \<Rightarrow> string option res" where
  "ARTStore_Get key s = (case ar_root s of None \<Rightarrow> Inr None | Some n \<Rightarrow> get_from n key 0)"

function delNode :: "artNode option \<Rightarrow> string \<Rightarrow> nat \<Rightarrow> artNode option res" where
  "delNode None key depth = Inr None"
| "delNode (Some n) key depth =
     (case an_leaf n of
        Some l \<Rightarrow> Inr (if al_key l = key then None else Some n)
      | None \<Rightarrow>
          (case skip_prefix n key depth of None \<Rightarrow> Inr (Some n)
           | Some d \<Rightarrow>
               let b = byte_at key d
               in bindr (findChild n b) (\<lambda>c0.
                  bindr (case c0 of None \<Rightarrow> findChild n NUL | Some _ \<Rightarrow> Inr c0) (\<lambda>c.
                  case c of None \<Rightarrow> Inr (Some n)
                  | Some child \<Rightarrow>
                      bindr (delNode (Some child) key (if d < length key then d + 1 else d)) (\<lambda>c'.
                      bindr (case c' of None \<Rightarrow> removeChild n b
                             | Some child' \<Rightarrow> Inr (setChild n (if c0 = None then NUL else b) child')) (\<lambda>n'.
                        Inr (if length (an_children n') = 0 \<and> an_leaf n' = None then None else Some n')))))))"
  by pat_completeness auto

termination
  by (relation "measure (\<lambda>(n, key, depth). size_option size n)")
    (auto dest: findChild_size split: option.splits)

definition ARTStore_Del :: "string \<Rightarrow> ARTStore \<Rightarrow> ARTStore res" where
  "ARTStore_Del key s =
     (let s1 = s\<lparr>ar_hashes := (ar_hashes s)(key := None)\<rparr>
      in case ar_root s1 of None \<Rightarrow> Inr s1
         | Some n \<Rightarrow> bindr (delNode (Some n) key 0) (\<lambda>r. Inr (s1\<lparr>ar_root := r\<rparr>)))"

text \<open>
  The step of \<open>Set\<close> at the compressed path: the new depth, or the split node (a fault when
  \<open>splitPrefix\<close> is called).
\<close>

definition set_prefix :: "artNode \<Rightarrow> string \<Rightarrow> string \<Rightarrow> nat \<Rightarrow> (nat + artNode) res" where
  "set_prefix n key val depth =
     (case an_prefix n of None \<Rightarrow> Inr (Inl depth)
      | Some p \<Rightarrow>
          if depth + length p > length key
          then bindr (splitPrefix n key val) (\<lambda>n'. Inr (Inr n'))
          else let mismatch = length (takeWhile (\<lambda>(a, b). a = b) (zip p (drop depth key)))
               in if mismatch < length p
                  then bindr (splitPrefixAt n p depth mismatch key val) (\<lambda>n'. Inr (Inr n'))
                  else Inr (Inl (depth + length p)))"

text \<open>The end of a key: its leaf is the child for the byte 0.\<close>

definition set_end :: "artNode \<Rightarrow> string \<Rightarrow> string \<Rightarrow> artNode res" where
  "set_end n key val =
     bindr (findChild n NUL) (\<lambda>c. case c of
       None \<Rightarrow> addChild n NUL (newArtLeaf key val)
     | Some child \<Rightarrow>
         (case child of ArtNode px None ty ks cs ix \<Rightarrow> Inl Panic
          | ArtNode px (Some l) ty ks cs ix \<Rightarrow>
              if al_key l = key
              then Inr (setChild n NUL (ArtNode px (Some (l\<lparr>al_value := val\<rparr>)) ty ks cs ix))
              else addChild n NUL (newArtLeaf key val)))"

function set_from :: "artNode \<Rightarrow> string \<Rightarrow> string \<Rightarrow> nat \<Rightarrow> artNode res" where
  "set_from n key val depth =
     (case an_leaf n of
        Some l \<Rightarrow>
          if al_key l = key
          then Inr (case n of ArtNode px lf ty ks cs ix \<Rightarrow> ArtNode px (Some (l\<lparr>al_value := val\<rparr>)) ty ks cs ix)
          else splitLeaf n l key val depth
      | None \<Rightarrow>
          bindr (set_prefix n key val depth) (\<lambda>r. case r of
            Inr n' \<Rightarrow> Inr n'
          | Inl d \<Rightarrow>
              if d \<ge> length key then set_end n key val
              else bindr (findChild n (key ! d)) (\<lambda>c. case c of
                     None \<Rightarrow> addChild n (key ! d) (newArtLeaf key val)
                   | Some child \<Rightarrow>
                       bindr (set_from child key val (d + 1)) (\<lambda>c'. Inr (setChild n (key ! d) c')))))"
  by pat_completeness auto

termination
  by (relation "measure (\<lambda>(n, key, val, depth). size n)") (auto dest: findChild_size)

declare get_from.simps [simp del] delNode.simps(2) [simp del] set_from.simps [simp del]

definition ARTStore_Set :: "string \<Rightarrow> string \<Rightarrow> ARTStore \<Rightarrow> ARTStore res" where
  "ARTStore_Set key val s =
     (case ar_root s of None \<Rightarrow> Inr (s\<lparr>ar_root := Some (newArtLeaf key val)\<rparr>)
      | Some n \<Rightarrow> bindr (set_from n key val 0) (\<lambda>n'. Inr (s\<lparr>ar_root := Some n'\<rparr>)))"

definition ARTStore_HSet :: "string \<Rightarrow> string \<Rightarrow> string \<Rightarrow> ARTStore \<Rightarrow> ARTStore res" where
  "ARTStore_HSet hash key val s = Inr (s\<lparr>ar_hashes := hashes_set hash key val (ar_hashes s)\<rparr>)"

definition ARTStore_HGet :: "string \<Rightarrow> string \<Rightarrow> ARTStore \<Rightarrow> string option res" where
  "ARTStore_HGet hash key s = Inr (hashes_get hash key (ar_hashes s))"

definition ARTStore_HGetAll :: "string \<Rightarrow> ARTStore \<Rightarrow> smap option res" where
  "ARTStore_HGetAll hash s = Inr (hashes_all hash (ar_hashes s))"

section \<open>Listings\<close>

fun concat_res :: "'a list res list \<Rightarrow> 'a list res" where
  "concat_res [] = Inr []"
| "concat_res (x # xs) = bindr x (\<lambda>ys. bindr (concat_res xs) (\<lambda>zs. Inr (ys @ zs)))"

text \<open>The calls for the children that are not ranged over have no effect and are dropped.\<close>

fun collectKeys :: "artNode \<Rightarrow> string list res" where
  "collectKeys (ArtNode px lf ty ks cs ix) =
     (case lf of Some l \<Rightarrow> Inr [al_key l]
      | None \<Rightarrow>
          bindr (visited ty ix (map (\<lambda>c. case c of None \<Rightarrow> Inr [] | Some n \<Rightarrow> collectKeys n) cs)) concat_res)"

fun collectRange :: "artNode \<Rightarrow> string \<Rightarrow> string \<Rightarrow> string list res" where
  "collectRange (ArtNode px lf ty ks cs ix) start end =
     (case lf of Some l \<Rightarrow> Inr (if al_key l \<ge> start \<and> al_key l \<le> end then [al_key l] else [])
      | None \<Rightarrow>
          bindr (visited ty ix (map (\<lambda>c. case c of None \<Rightarrow> Inr [] | Some n \<Rightarrow> collectRange n start end) cs))
            concat_res)"

function prefix_from :: "artNode \<Rightarrow> string \<Rightarrow> nat \<Rightarrow> string list res" where
  "prefix_from n pre depth =
     (case an_leaf n of
        Some l \<Rightarrow> Inr (if prefix pre (al_key l) then [al_key l] else [])
      | None \<Rightarrow>
          (case an_prefix n of
             Some p \<Rightarrow>
               if depth + length p > length pre
               then if take (length pre - depth) p = drop depth pre then collectKeys n else Inr []
               else if p \<noteq> take (length p) (drop depth pre) then Inr []
               else if depth + length p \<ge> length pre then collectKeys n
               else bindr (findChild n (pre ! (depth + length p))) (\<lambda>c. case c of
                      None \<Rightarrow> Inr [] | Some c \<Rightarrow> prefix_from c pre (depth + length p + 1))
           | None \<Rightarrow>
               if depth \<ge> length pre then collectKeys n
               else bindr (findChild n (pre ! depth)) (\<lambda>c. case c of
                      None \<Rightarrow> Inr [] | Some c \<Rightarrow> prefix_from c pre (depth + 1))))"
  by pat_completeness auto

termination
  by (relation "measure (\<lambda>(n, pre, depth). size n)") (auto dest: findChild_size)

declare prefix_from.simps [simp del]

definition ARTStore_PrefixKeys :: "string \<Rightarrow> ARTStore \<Rightarrow> string list res" where
  "ARTStore_PrefixKeys pre s = (case ar_root s of None \<Rightarrow> Inr [] | Some n \<Rightarrow> prefix_from n pre 0)"

text \<open>\<open>sort.Strings\<close> is the library's \<open>sort\<close>.\<close>

definition ARTStore_RangeKeys :: "string \<Rightarrow> string \<Rightarrow> ARTStore \<Rightarrow> string list res" where
  "ARTStore_RangeKeys start end s =
     bindr (case ar_root s of None \<Rightarrow> Inr [] | Some n \<Rightarrow> collectRange n start end) (\<lambda>out. Inr (sort out))"

definition ARTStore_ops :: "ARTStore store_ops" where
  "ARTStore_ops = \<lparr>op_Set = ARTStore_Set, op_Get = ARTStore_Get,
     op_Del = ARTStore_Del, op_HSet = ARTStore_HSet, op_HGet = ARTStore_HGet,
     op_HGetAll = ARTStore_HGetAll, op_Close = \<lambda>s. s\<rparr>"

end
