(* ===== verification/Art_Tables.thy ===== *)
theory Art_Tables
  imports Art_Store
begin

text \<open>
  The four layouts of the table of children in \<open>Art_Store\<close> are one partial function from bytes to
  nodes: what \<open>findChild\<close>, \<open>addChild\<close>, \<open>removeChild\<close> and the ranges do to it, growth included.
\<close>

section \<open>Well-formed tables\<close>

definition kids :: "artNode \<Rightarrow> char \<Rightarrow> artNode option" where
  "kids n b = (case findChild n b of Inr (Some c) \<Rightarrow> Some c | _ \<Rightarrow> None)"

definition small_ok :: "nat \<Rightarrow> char list \<Rightarrow> artNode option list \<Rightarrow> bool" where
  "small_ok ty ks cs \<longleftrightarrow> (ty = artNode4 \<or> ty = artNode16) \<and> sorted_wrt (<) ks \<and> length ks < ty
     \<and> (\<exists>ns. cs = map Some ns \<and> length ns = length ks)"

definition index_ok :: "artNode option list \<Rightarrow> (char \<Rightarrow> int) \<Rightarrow> bool" where
  "index_ok cs ix \<longleftrightarrow> None \<notin> set cs \<and> (\<forall>b. ix b \<noteq> artEmptyIndex \<longrightarrow> 0 \<le> ix b \<and> nat (ix b) < length cs)
     \<and> inj_on ix {b. ix b \<noteq> artEmptyIndex}"

fun node_ok :: "artNode \<Rightarrow> bool" where
  "node_ok (ArtNode px lf ty ks cs ix) \<longleftrightarrow>
     small_ok ty ks cs
     \<or> ty = artNode48 \<and> index_ok cs ix \<and> length cs < 48
     \<or> ty = artNode256 \<and> length cs = 256"

lemma small_okI:
  "ty = artNode4 \<or> ty = artNode16 \<Longrightarrow> sorted_wrt (<) ks \<Longrightarrow> length ks < ty \<Longrightarrow> length ks = length ns
    \<Longrightarrow> small_ok ty ks (map Some ns)"
  unfolding small_ok_def by (intro conjI exI [of _ ns]) simp_all

lemmas artTypes = artNode4_def artNode16_def artNode48_def artNode256_def

section \<open>Bytes\<close>

lemma bytes_set [simp]: "b \<in> set bytes"
proof -
  have "b = char_of (of_char b :: nat)" by simp
  then show ?thesis unfolding bytes_def by (force intro: image_eqI [of _ _ "of_char b :: nat"])
qed

lemma bytes_sorted: "sorted_wrt (<) bytes"
proof -
  have "char_of i < char_of j" if "i < j" "j < 256" for i j :: nat
    using that by (simp add: less_char_def of_char_of)
  then show ?thesis unfolding bytes_def by (auto simp: sorted_wrt_map sorted_wrt_iff_nth_less)
qed

lemma bytes_distinct: "distinct bytes"
  using bytes_sorted by (rule strict_sorted_iff [THEN iffD1, THEN conjunct2])

lemma bytes_nth [simp]: "bytes ! of_char b = b" "length bytes = 256"
  by (simp_all add: bytes_def)

section \<open>Small tables\<close>

lemma key_pos_lookup:
  "length ks = length ns \<Longrightarrow>
    (case key_pos b ks of None \<Rightarrow> Inr None | Some i \<Rightarrow> index (map Some ns) i) = Inr (map_of (zip ks ns) b)"
proof (induction ks ns rule: list_induct2)
  case (Cons k ks n ns)
  then show ?case by (cases "key_pos b ks") (auto simp: index_def split: if_splits)
qed simp

lemma key_pos_split:
  "key_pos b ks = Some i \<Longrightarrow> \<exists>us vs. ks = us @ b # vs \<and> length us = i \<and> b \<notin> set us"
proof (induction ks arbitrary: i)
  case (Cons k ks)
  show ?case
  proof (cases "k = b")
    case True
    then show ?thesis using Cons.prems by (intro exI [of _ "[]"] exI [of _ ks]) auto
  next
    case False
    then obtain j where "key_pos b ks = Some j" "i = Suc j" using Cons.prems by auto
    then obtain us vs where "ks = us @ b # vs" "length us = j" "b \<notin> set us" using Cons.IH by blast
    then show ?thesis using False \<open>i = Suc j\<close> by (intro exI [of _ "k # us"] exI [of _ vs]) auto
  qed
qed simp

lemma key_pos_None: "key_pos b ks = None \<longleftrightarrow> b \<notin> set ks"
  by (induction ks) auto

lemma kids_found: "findChild n b = Inr x \<Longrightarrow> kids n b = x"
  by (cases x) (simp_all add: kids_def)

lemma kids_small:
  assumes "ty = artNode4 \<or> ty = artNode16" and "length ks = length ns"
  shows "findChild (ArtNode px lf ty ks (map Some ns) ix) b = Inr (map_of (zip ks ns) b)"
    and "kids (ArtNode px lf ty ks (map Some ns) ix) = map_of (zip ks ns)"
proof -
  show find: "findChild (ArtNode px lf ty ks (map Some ns) ix) b = Inr (map_of (zip ks ns) b)" for b
    using assms(1) key_pos_lookup [OF assms(2), of b] unfolding findChild_def artNode.sel by simp
  show "kids (ArtNode px lf ty ks (map Some ns) ix) = map_of (zip ks ns)"
    using kids_found [OF find] by (simp add: fun_eq_iff)
qed

lemma index_ok_inj:
  "index_ok cs ix \<Longrightarrow> ix b' \<noteq> artEmptyIndex \<Longrightarrow> ix b \<noteq> artEmptyIndex \<Longrightarrow> nat (ix b') = nat (ix b) \<Longrightarrow> b' = b"
  unfolding index_ok_def inj_on_def by (metis (mono_tags, lifting) eq_nat_nat_iff mem_Collect_eq)

lemma kids_48:
  assumes "index_ok cs ix"
  shows "findChild (ArtNode px lf artNode48 ks cs ix) b = Inr (if ix b = artEmptyIndex then None else cs ! nat (ix b))"
    and "kids (ArtNode px lf artNode48 ks cs ix) b = (if ix b = artEmptyIndex then None else cs ! nat (ix b))"
proof -
  show find: "findChild (ArtNode px lf artNode48 ks cs ix) b = Inr (if ix b = artEmptyIndex then None else cs ! nat (ix b))"
    using assms by (simp add: findChild_def index_int_def index_def index_ok_def artTypes)
  show "kids (ArtNode px lf artNode48 ks cs ix) b = (if ix b = artEmptyIndex then None else cs ! nat (ix b))"
    by (rule kids_found [OF find])
qed

lemma kids_256:
  assumes "length cs = 256"
  shows "findChild (ArtNode px lf artNode256 ks cs ix) b = Inr (cs ! of_char b)"
    and "kids (ArtNode px lf artNode256 ks cs ix) b = cs ! of_char b"
proof -
  show find: "findChild (ArtNode px lf artNode256 ks cs ix) b = Inr (cs ! of_char b)"
    using assms by (simp add: findChild_def index_def artTypes)
  show "kids (ArtNode px lf artNode256 ks cs ix) b = cs ! of_char b"
    by (rule kids_found [OF find])
qed

lemma node_ok_cases [consumes 1, case_names small n48 n256]:
  assumes "node_ok n"
  obtains px lf ty ks ns ix where "n = ArtNode px lf ty ks (map Some ns) ix" and "ty = artNode4 \<or> ty = artNode16"
      and "sorted_wrt (<) ks" and "length ks < ty" and "length ks = length ns"
  | px lf ks cs ix where "n = ArtNode px lf artNode48 ks cs ix" and "index_ok cs ix" and "length cs < 48"
  | px lf ks cs ix where "n = ArtNode px lf artNode256 ks cs ix" and "length cs = 256"
  using assms by (cases n) (auto simp: small_ok_def)

lemma findChild_ok: "node_ok n \<Longrightarrow> findChild n b = Inr (kids n b)"
  by (cases n rule: node_ok_cases) (auto simp: kids_small kids_48 kids_256)

section \<open>Changing a child\<close>

lemma zip_split:
  assumes "length (us @ k # vs) = length ns"
  obtains ns1 c ns2 where "ns = ns1 @ c # ns2" and "length ns1 = length us" and "length ns2 = length vs"
proof
  show "ns = take (length us) ns @ ns ! length us # drop (Suc (length us)) ns"
    using assms by (intro id_take_nth_drop) simp
qed (use assms in auto)

lemma map_of_zip_mid:
  assumes "length ns1 = length us" and "b \<notin> set (us @ vs)"
  shows "map_of (zip (us @ b # vs) (ns1 @ c # ns2)) = (map_of (zip (us @ vs) (ns1 @ ns2)))(b \<mapsto> c)"
proof -
  have "b \<notin> fst ` set (zip us ns1 @ zip vs ns2)" using assms by (auto dest: set_zip_leftD)
  from map_of_insert [OF this, of c] show ?thesis using assms by simp
qed

lemma setChild_ok:
  assumes "node_ok n" and "kids n b = Some c0"
  shows "node_ok (setChild n b c) \<and> kids (setChild n b c) = (kids n)(b \<mapsto> c)
    \<and> an_prefix (setChild n b c) = an_prefix n \<and> an_leaf (setChild n b c) = an_leaf n"
  using assms(1)
proof (cases n rule: node_ok_cases)
  case (small px lf ty ks ns ix)
  then have "key_pos b ks \<noteq> None" using assms(2) by (auto simp: kids_small key_pos_None dest: map_of_SomeD set_zip_leftD)
  then obtain i where i: "key_pos b ks = Some i" by auto
  then obtain us vs where ks: "ks = us @ b # vs" "length us = i" using key_pos_split by blast
  obtain ns1 d ns2 where ns: "ns = ns1 @ d # ns2" "length ns1 = length us" "length ns2 = length vs"
    using zip_split [of us b vs ns] small(5) ks by metis
  have b: "b \<notin> set (us @ vs)" using small(3) ks by (auto simp: sorted_wrt_append)
  have eq: "setChild n b c = ArtNode px lf ty ks (map Some (ns1 @ c # ns2)) ix"
    using small(1,2) i ks ns by (auto simp: setChild_def list_update_append)
  have "kids (setChild n b c) = map_of (zip ks (ns1 @ c # ns2))"
    unfolding eq by (rule kids_small(2)) (use small(2) ks ns in simp_all)
  moreover have "kids n = map_of (zip ks ns)" unfolding small(1) by (rule kids_small(2) [OF small(2,5)])
  ultimately have "kids (setChild n b c) = (kids n)(b \<mapsto> c)"
    unfolding ks(1) ns(1) map_of_zip_mid [OF ns(2) b] by simp
  moreover have "small_ok ty ks (map Some (ns1 @ c # ns2))"
    using small(2-5) ks ns by (intro small_okI) simp_all
  then have "node_ok (setChild n b c)" unfolding eq by simp
  moreover have "an_prefix (setChild n b c) = an_prefix n \<and> an_leaf (setChild n b c) = an_leaf n"
    unfolding eq by (simp add: small(1))
  ultimately show ?thesis by blast
next
  case (n48 px lf ks cs ix)
  then have ix: "ix b \<noteq> artEmptyIndex" "nat (ix b) < length cs"
    using assms(2) by (auto simp: kids_48 index_ok_def split: if_splits)
  have eq: "setChild n b c = ArtNode px lf artNode48 ks (cs[nat (ix b) := Some c]) ix"
    using n48(1) by (simp add: setChild_def artTypes)
  have ok: "index_ok (cs[nat (ix b) := Some c]) ix"
    using n48(2) by (auto simp: index_ok_def dest!: set_update_subset_insert [THEN subsetD])
  have other: "nat (ix b') \<noteq> nat (ix b)" if "b' \<noteq> b" "ix b' \<noteq> artEmptyIndex" for b'
    using index_ok_inj [OF n48(2) that(2) ix(1)] that(1) by blast
  have "kids (setChild n b c) b' = ((kids n)(b \<mapsto> c)) b'" for b'
    unfolding n48(1) eq [unfolded n48(1)] using ix other [of b'] by (auto simp: kids_48 [OF ok] kids_48 [OF n48(2)] nth_list_update)
  moreover have "node_ok (setChild n b c) \<and> an_prefix (setChild n b c) = an_prefix n \<and> an_leaf (setChild n b c) = an_leaf n"
    unfolding eq using ok n48(1,3) by simp
  ultimately show ?thesis by (simp add: fun_eq_iff)
next
  case (n256 px lf ks cs ix)
  have eq: "setChild n b c = ArtNode px lf artNode256 ks (cs[of_char b := Some c]) ix"
    using n256(1) by (simp add: setChild_def artTypes)
  have "kids (setChild n b c) b' = ((kids n)(b \<mapsto> c)) b'" for b'
    unfolding n256(1) eq [unfolded n256(1)] using n256(2) by (auto simp: kids_256 nth_list_update)
  moreover have "node_ok (setChild n b c) \<and> an_prefix (setChild n b c) = an_prefix n \<and> an_leaf (setChild n b c) = an_leaf n"
    unfolding eq using n256 by simp
  ultimately show ?thesis by (simp add: fun_eq_iff)
qed

lemma removeChild_ok:
  assumes "node_ok n"
  shows "\<exists>n'. removeChild n b = Inr n' \<and> node_ok n' \<and> kids n' = (kids n)(b := None)
    \<and> an_prefix n' = an_prefix n \<and> an_leaf n' = an_leaf n"
  using assms
proof (cases n rule: node_ok_cases)
  case (small px lf ty ks ns ix)
  show ?thesis
  proof (cases "key_pos b ks")
    case None
    then have "kids n b = None" using small by (auto simp: kids_small key_pos_None map_of_eq_None_iff dest: set_zip_leftD)
    then show ?thesis using small None assms by (auto simp: removeChild_def fun_upd_idem)
  next
    case (Some i)
    then obtain us vs where ks: "ks = us @ b # vs" "length us = i" using key_pos_split by blast
    obtain ns1 d ns2 where ns: "ns = ns1 @ d # ns2" "length ns1 = length us" "length ns2 = length vs"
      using zip_split [of us b vs ns] small(5) ks by metis
    have b: "b \<notin> set (us @ vs)" using small(3) ks by (auto simp: sorted_wrt_append)
    let ?n = "ArtNode px lf ty (us @ vs) (map Some (ns1 @ ns2)) ix"
    have removed: "removeChild n b = Inr ?n" using small(1,2) Some ks ns by (auto simp: removeChild_def slice_from_def)
    have "map_of (zip (us @ vs) (ns1 @ ns2)) b = None"
      using b ns by (auto simp: map_of_eq_None_iff dest: set_zip_leftD)
    moreover have "kids ?n = map_of (zip (us @ vs) (ns1 @ ns2))"
      by (rule kids_small(2)) (use small(2) ks ns in simp_all)
    moreover have "kids n = map_of (zip ks ns)" unfolding small(1) by (rule kids_small(2) [OF small(2,5)])
    ultimately have "kids ?n = (kids n)(b := None)"
      unfolding ks(1) ns(1) map_of_zip_mid [OF ns(2) b] by (simp add: fun_upd_idem)
    moreover have "node_ok ?n"
      using small ks ns by (auto simp: small_ok_def sorted_wrt_append intro: exI [of _ "ns1 @ ns2"])
    ultimately show ?thesis using small(1) removed by auto
  qed
next
  case (n48 px lf ks cs ix)
  let ?n = "ArtNode px lf artNode48 ks cs (ix(b := artEmptyIndex))"
  have ok: "index_ok cs (ix(b := artEmptyIndex))" using n48(2) by (auto simp: index_ok_def inj_on_def)
  have "removeChild n b = Inr ?n" using n48(1) by (auto simp: removeChild_def artTypes fun_upd_idem)
  moreover have "kids ?n = (kids n)(b := None)" unfolding n48(1) by (auto simp: kids_48 [OF ok] kids_48 [OF n48(2)] fun_eq_iff)
  ultimately show ?thesis using n48 ok by auto
next
  case (n256 px lf ks cs ix)
  let ?n = "ArtNode px lf artNode256 ks (cs[of_char b := None]) ix"
  have "removeChild n b = Inr ?n" using n256 by (simp add: removeChild_def artTypes assign_def)
  moreover have "kids ?n = (kids n)(b := None)"
    unfolding n256(1) using n256(2) by (auto simp: kids_256 nth_list_update fun_eq_iff)
  ultimately show ?thesis using n256 by auto
qed

section \<open>Growth\<close>

lemma grow_index:
  "distinct ks \<Longrightarrow> fold (\<lambda>(i, k) ix. ix(k := int i)) (enumerate m ks) ix0 b
    = (case key_pos b ks of None \<Rightarrow> ix0 b | Some i \<Rightarrow> int (m + i))"
proof (induction ks arbitrary: m ix0)
  case (Cons k ks)
  have "key_pos k ks = None" using Cons.prems by (simp add: key_pos_None)
  then show ?case using Cons by (cases "k = b"; cases "key_pos b ks") simp_all
qed simp

lemma grow16to48_ok:
  assumes "sorted_wrt (<) ks" and "length ks = length ns" and "length ns < 48"
  shows "node_ok (grow16to48 (ArtNode px lf ty ks (map Some ns) ix))
    \<and> kids (grow16to48 (ArtNode px lf ty ks (map Some ns) ix)) = map_of (zip ks ns)"
proof -
  define ix' where "ix' = fold (\<lambda>(i, k) ix. ix(k := int i)) (enumerate 0 ks) (\<lambda>_. artEmptyIndex)"
  have ix': "ix' b = (case key_pos b ks of None \<Rightarrow> artEmptyIndex | Some i \<Rightarrow> int i)" for b
    using assms(1) grow_index [of ks 0 "\<lambda>_. artEmptyIndex" b] by (simp add: ix'_def strict_sorted_iff split: option.splits)
  have pos: "i < length ns \<and> ks ! i = b" if "key_pos b ks = Some i" for b i
    using key_pos_split [OF that] assms(2) by auto
  have "inj_on ix' {b. ix' b \<noteq> artEmptyIndex}"
    by (rule inj_onI) (auto simp: ix' split: option.splits dest!: pos)
  then have ok: "index_ok (map Some ns) ix'"
    using pos by (auto simp: index_ok_def ix' artEmptyIndex_def split: option.splits)
  have "kids (ArtNode px lf artNode48 [] (map Some ns) ix') b = map_of (zip ks ns) b" for b
    using key_pos_lookup [OF assms(2), of b] pos [of b]
    by (auto simp: kids_48 [OF ok] ix' index_def artEmptyIndex_def split: option.splits)
  then show ?thesis using ok assms(3) by (auto simp: ix'_def [symmetric])
qed

text \<open>Every child that has an entry goes to the place of its byte.\<close>

lemma find_entry:
  assumes "inj_on ix {b. ix b \<noteq> artEmptyIndex}"
  shows "find (\<lambda>k. ix k = int i) bytes = Some b \<longleftrightarrow> ix b = int i"
proof
  show "ix b = int i" if "find (\<lambda>k. ix k = int i) bytes = Some b" using that by (auto simp: find_Some_iff)
next
  assume b: "ix b = int i"
  then obtain k where k: "find (\<lambda>k. ix k = int i) bytes = Some k"
    by (cases "find (\<lambda>k. ix k = int i) bytes") (auto simp: find_None_iff)
  then have "ix k = int i" by (auto simp: find_Some_iff)
  then have "k = b" using assms b by (auto simp: inj_on_def artEmptyIndex_def)
  then show "find (\<lambda>k. ix k = int i) bytes = Some b" using k by simp
qed

lemma grow_places:
  assumes "inj_on ix {b. ix b \<noteq> artEmptyIndex}" and "length out = 256"
  shows "length (fold (\<lambda>(i, c) out. case find (\<lambda>k. ix k = int i) bytes of None \<Rightarrow> out | Some k \<Rightarrow> out[of_char k := c])
      (enumerate m cs) out) = 256
    \<and> fold (\<lambda>(i, c) out. case find (\<lambda>k. ix k = int i) bytes of None \<Rightarrow> out | Some k \<Rightarrow> out[of_char k := c])
      (enumerate m cs) out ! of_char b
      = (if int m \<le> ix b \<and> ix b < int (m + length cs) then cs ! (nat (ix b) - m) else out ! of_char b)"
  using assms(2)
proof (induction cs arbitrary: m out)
  case (Cons c cs)
  define out' where "out' = (case find (\<lambda>k. ix k = int m) bytes of None \<Rightarrow> out | Some k \<Rightarrow> out[of_char k := c])"
  have len: "length out' = 256" using Cons.prems by (simp add: out'_def split: option.splits)
  have "out' ! of_char b = (if ix b = int m then c else out ! of_char b)"
    using find_entry [OF assms(1), of m] Cons.prems
    by (cases "find (\<lambda>k. ix k = int m) bytes") (auto simp: out'_def nth_list_update)
  moreover have "cs ! (nat (ix b) - Suc m) = (c # cs) ! (nat (ix b) - m)" if "int m < ix b"
  proof -
    have "nat (ix b) - m = Suc (nat (ix b) - Suc m)" using that by linarith
    then show ?thesis by simp
  qed
  ultimately show ?case
    using Cons.IH [OF len, of "Suc m"] by (auto simp: out'_def [symmetric])
qed auto

lemma grow48to256_ok:
  assumes "index_ok cs ix"
  shows "node_ok (grow48to256 (ArtNode px lf ty ks cs ix))
    \<and> kids (grow48to256 (ArtNode px lf ty ks cs ix)) b = (if ix b = artEmptyIndex then None else cs ! nat (ix b))"
proof -
  have inj: "inj_on ix {b. ix b \<noteq> artEmptyIndex}" and range: "ix b \<noteq> artEmptyIndex \<Longrightarrow> 0 \<le> ix b \<and> nat (ix b) < length cs"
    using assms by (auto simp: index_ok_def)
  note g = grow_places [OF inj, of "replicate 256 None" 0 cs b]
  show ?thesis
    using g range by (auto simp: kids_256 artEmptyIndex_def)
qed

section \<open>Adding a child\<close>

lemma addChild_small:
  assumes ty: "ty = artNode4 \<or> ty = artNode16" and "sorted_wrt (<) ks" and "length ks < ty" and len: "length ks = length ns"
    and "b \<notin> set ks"
  shows "\<exists>n'. addChild (ArtNode px lf ty ks (map Some ns) ix) b c = Inr n' \<and> node_ok n'
    \<and> kids n' = (map_of (zip ks ns))(b \<mapsto> c) \<and> an_prefix n' = px \<and> an_leaf n' = lf"
proof -
  define us vs where "us = takeWhile (\<lambda>k. k < b) ks" and "vs = dropWhile (\<lambda>k. k < b) ks"
  define ns1 ns2 where "ns1 = take (length us) ns" and "ns2 = drop (length us) ns"
  let ?ks = "us @ b # vs" and ?ns = "ns1 @ c # ns2"
  let ?n = "ArtNode px lf ty ?ks (map Some ?ns) ix"
  have ks: "ks = us @ vs" by (simp add: us_def vs_def)
  then have "length us + length vs = length ns" using len by simp
  then have ns: "ns = ns1 @ ns2" "length ns1 = length us" "length ns2 = length vs" by (simp_all add: ns1_def ns2_def)
  have "\<forall>k \<in> set us. k < b" by (auto simp: us_def dest: set_takeWhileD)
  moreover have "\<forall>k \<in> set vs. b \<le> k" using assms(2) unfolding vs_def by (induction ks) (auto simp: not_less)
  ultimately have sorted: "sorted_wrt (<) ?ks" and b: "b \<notin> set (us @ vs)"
    using assms(2,5) ks by (auto simp: sorted_wrt_append order.strict_iff_order)
  have len': "length ?ks = length ?ns" using ns by simp
  have add: "addChild (ArtNode px lf ty ks (map Some ns) ix) b c = Inr
      (if length ?ks \<ge> ty \<and> ty = artNode4 then grow4to16 ?n
       else if length ?ks \<ge> ty \<and> ty = artNode16 then grow16to48 ?n else ?n)"
  proof -
    have "length (takeWhile (\<lambda>k. k < b) ks) = length us" by (simp add: us_def)
    moreover have "insertAt ks (length us) b = Inr ?ks" by (simp add: insertAt_def ks)
    moreover have "insertAt (map Some ns) (length us) (Some c) = Inr (map Some ?ns)" using ns by (simp add: insertAt_def)
    ultimately show ?thesis using ty by (simp add: addChild_def Let_def)
  qed
  have kids: "map_of (zip ?ks ?ns) = (map_of (zip ks ns))(b \<mapsto> c)"
    unfolding ks ns(1) by (rule map_of_zip_mid [OF ns(2) b])
  consider "length ?ks < ty" | "ty = artNode4" "length ?ks = 4" | "ty = artNode16" "length ?ks = 16"
    using ty assms(3) ks by (fastforce simp: artTypes)
  then show ?thesis
  proof cases
    case 1
    have "small_ok ty ?ks (map Some ?ns)" by (rule small_okI [OF ty sorted 1 len'])
    then show ?thesis using 1 add kids_small(2) [OF ty len', of px lf ix] kids by auto
  next
    case 2
    have "small_ok artNode16 ?ks (map Some ?ns)" using 2 by (intro small_okI sorted len') (auto simp: artTypes)
    then show ?thesis using 2 add kids_small(2) [of artNode16, OF _ len', of px lf ix] kids by (auto simp: artTypes)
  next
    case 3
    have "length ?ns < 48" using 3 len' by simp
    then show ?thesis using 3 add grow16to48_ok [OF sorted len', of px lf ty ix] kids by (auto simp: artTypes)
  qed
qed

lemma addChild_48:
  assumes "index_ok cs ix" and "length cs < 48" and "ix b = artEmptyIndex"
  shows "\<exists>n'. addChild (ArtNode px lf artNode48 ks cs ix) b c = Inr n' \<and> node_ok n'
    \<and> kids n' = (kids (ArtNode px lf artNode48 ks cs ix))(b \<mapsto> c) \<and> an_prefix n' = px \<and> an_leaf n' = lf"
proof -
  let ?cs = "cs @ [Some c]" and ?ix = "ix(b := int (length cs))"
  let ?n = "ArtNode px lf artNode48 ks ?cs ?ix"
  have old: "ix b' \<noteq> artEmptyIndex \<Longrightarrow> 0 \<le> ix b' \<and> nat (ix b') < length cs" for b'
    using assms(1) by (simp add: index_ok_def)
  have "ix b' \<noteq> int (length cs)" for b'
    using old [of b'] by (cases "ix b' = artEmptyIndex") (auto simp: artEmptyIndex_def)
  then have ok: "index_ok ?cs ?ix"
    using assms(1) by (auto simp: index_ok_def inj_on_def less_Suc_eq)
  have look: "(if ?ix b' = artEmptyIndex then None else ?cs ! nat (?ix b')) =
      ((kids (ArtNode px lf artNode48 ks cs ix))(b \<mapsto> c)) b'" for b'
    using old [of b'] by (auto simp: kids_48 [OF assms(1)] nth_append artEmptyIndex_def)
  have add: "addChild (ArtNode px lf artNode48 ks cs ix) b c = Inr (if length ?cs = 48 then grow48to256 ?n else ?n)"
    by (simp add: addChild_def artTypes Let_def)
  show ?thesis
  proof (cases "length ?cs = 48")
    case True
    then show ?thesis using add grow48to256_ok [OF ok, of px lf artNode48 ks] look by (auto simp: fun_eq_iff)
  next
    case False
    then have "kids ?n = (kids (ArtNode px lf artNode48 ks cs ix))(b \<mapsto> c)"
      using look by (simp add: fun_eq_iff kids_48 [OF ok] del: fun_upd_apply)
    then show ?thesis using False add ok assms(2) by auto
  qed
qed

lemma addChild_ok:
  assumes "node_ok n" and "kids n b = None"
  shows "\<exists>n'. addChild n b c = Inr n' \<and> node_ok n' \<and> kids n' = (kids n)(b \<mapsto> c)
    \<and> an_prefix n' = an_prefix n \<and> an_leaf n' = an_leaf n"
  using assms(1)
proof (cases n rule: node_ok_cases)
  case (small px lf ty ks ns ix)
  have kids: "kids n = map_of (zip ks ns)" unfolding small(1) by (rule kids_small(2) [OF small(2,5)])
  then have "b \<notin> set ks" using assms(2) small(5) by (simp add: map_of_zip_is_None)
  from addChild_small [OF small(2-5) this, of px lf ix c] show ?thesis using kids small(1) by simp
next
  case (n48 px lf ks cs ix)
  have "ix b = artEmptyIndex"
  proof (rule ccontr)
    assume "ix b \<noteq> artEmptyIndex"
    then have "cs ! nat (ix b) = None" "nat (ix b) < length cs"
      using assms(2) n48 by (auto simp: kids_48 index_ok_def)
    then show False using n48(2) by (metis index_ok_def nth_mem)
  qed
  from addChild_48 [OF n48(2,3) this, of px lf ks c] show ?thesis using n48(1) by simp
next
  case (n256 px lf ks cs ix)
  have "addChild n b c = Inr (ArtNode px lf artNode256 ks (cs[of_char b := Some c]) ix)"
    using n256 by (simp add: addChild_def assign_def artTypes)
  moreover have "kids (ArtNode px lf artNode256 ks (cs[of_char b := Some c]) ix) = (kids n)(b \<mapsto> c)"
    unfolding n256(1) using n256(2) by (auto simp: kids_256 nth_list_update fun_eq_iff)
  ultimately show ?thesis using n256 by auto
qed

text \<open>The table of a new node.\<close>

lemma empty_table: "node_ok (ArtNode px lf artNode4 [] [] ix)" "kids (ArtNode px lf artNode4 [] [] ix) = Map.empty"
  by (auto simp: small_ok_def artTypes kids_def findChild_def fun_eq_iff)

lemma kids_in: "kids n b = Some c \<Longrightarrow> Some c \<in> set (an_children n)"
  by (auto simp: kids_def split: sum.splits option.splits intro: findChild_in)

lemma no_children: "length (an_children n) = 0 \<Longrightarrow> kids n = Map.empty"
  using kids_in [of n] by (auto simp: fun_eq_iff) (metis option.exhaust empty_iff empty_set)

section \<open>Ranging over the children\<close>

text \<open>
  The children in the order of their bytes. The results for nil entries are empty, so that they do not
  show in the concatenation.
\<close>

lemma bindr_Inr_right [simp]: "bindr m Inr = m"
  by (cases m) auto

lemma concat_res_skip:
  "F None = Inr [] \<Longrightarrow> concat_res (map (\<lambda>b. F (g b)) bs)
    = concat_res (map (\<lambda>(b, c). F (Some c)) (concat (map (\<lambda>b. case g b of None \<Rightarrow> [] | Some c \<Rightarrow> [(b, c)]) bs)))"
proof (induction bs)
  case (Cons b bs)
  then show ?case by (cases "g b") auto
qed simp

lemma concat_res_filter:
  "F None = Inr [] \<Longrightarrow> concat_res (map (\<lambda>b. F (if P b then None else g b)) bs) = concat_res (map (\<lambda>b. F (g b)) (filter (\<lambda>b. \<not> P b) bs))"
proof (induction bs)
  case (Cons b bs)
  then show ?case by auto
qed simp

lemma pick_ok:
  assumes "index_ok cs ix"
  shows "pick ix (map F cs) bs = Inr (map (\<lambda>b. F (cs ! nat (ix b))) (filter (\<lambda>b. ix b \<noteq> artEmptyIndex) bs))"
  using assms by (induction bs) (auto simp: index_ok_def index_int_def index_def)

definition ordered_kids :: "artNode \<Rightarrow> (char \<times> artNode) list" where
  "ordered_kids n = concat (map (\<lambda>b. case kids n b of None \<Rightarrow> [] | Some c \<Rightarrow> [(b, c)]) bytes)"

lemma ordered_kids_set: "(b, c) \<in> set (ordered_kids n) \<longleftrightarrow> kids n b = Some c"
  by (auto simp: ordered_kids_def split: option.splits)

lemma concat_sorted:
  "sorted_wrt (<) bs \<Longrightarrow> sorted_wrt (<) (map fst (concat (map (\<lambda>b. case g b of None \<Rightarrow> [] | Some c \<Rightarrow> [(b, c)]) bs)))"
  by (induction bs) (auto split: option.splits)

lemma ordered_kids_sorted: "sorted_wrt (<) (map fst (ordered_kids n))"
  unfolding ordered_kids_def by (rule concat_sorted [OF bytes_sorted])

lemma concat_small:
  assumes "sorted_wrt (<) (bs :: char list)" and "sorted_wrt (<) ks" and "set ks \<subseteq> set bs" and "length ks = length ns"
  shows "concat (map (\<lambda>b. case map_of (zip ks ns) b of None \<Rightarrow> [] | Some c \<Rightarrow> [(b, c)]) bs) = zip ks ns"
  using assms
proof (induction bs arbitrary: ks ns)
  case (Cons b bs)
  show ?case
  proof (cases "b \<in> set ks")
    case True
    then obtain a ks' where ks: "ks = a # ks'" by (cases ks) auto
    have "a = b"
    proof (rule ccontr)
      assume "a \<noteq> b"
      then have "a < b" "b < a" using True Cons.prems(1,2,3) ks by auto
      then show False by simp
    qed
    note ks = ks [unfolded \<open>a = b\<close>]
    then obtain c ns' where ns: "ns = c # ns'" "length ks' = length ns'" using Cons.prems(4) by (cases ns) auto
    have "\<forall>b' \<in> set bs. b' \<noteq> b" using Cons.prems(1) by auto
    then have "map (\<lambda>b. case map_of (zip ks ns) b of None \<Rightarrow> [] | Some c \<Rightarrow> [(b, c)]) bs
        = map (\<lambda>b. case map_of (zip ks' ns') b of None \<Rightarrow> [] | Some c \<Rightarrow> [(b, c)]) bs"
      using ks ns by (intro map_cong) auto
    moreover have "set ks' \<subseteq> set bs" using Cons.prems(2,3) ks by auto
    then have "concat (map (\<lambda>b. case map_of (zip ks' ns') b of None \<Rightarrow> [] | Some c \<Rightarrow> [(b, c)]) bs) = zip ks' ns'"
      using Cons.IH [of ks' ns'] Cons.prems(1,2) ks ns by simp
    moreover have "map_of (zip ks ns) b = Some c" using ks ns by simp
    ultimately show ?thesis unfolding list.map concat.simps using ks ns by (simp only: option.case) simp
  next
    case False
    then have "map_of (zip ks ns) b = None" using Cons.prems(4) by (simp add: map_of_zip_is_None)
    moreover have "set ks \<subseteq> set bs" using False Cons.prems(3) by auto
    ultimately show ?thesis using Cons.IH [OF _ Cons.prems(2) _ Cons.prems(4)] Cons.prems(1) by simp
  qed
qed simp

lemma visited_kids:
  assumes "node_ok (ArtNode px lf ty ks cs ix)" and "F None = Inr []"
  shows "bindr (visited ty ix (map F cs)) concat_res
    = concat_res (map (\<lambda>(b, c). F (Some c)) (ordered_kids (ArtNode px lf ty ks cs ix)))"
  using assms(1)
proof (cases "ArtNode px lf ty ks cs ix" rule: node_ok_cases)
  case (small px' lf' ty' ks' ns ix')
  then have kids: "kids (ArtNode px lf ty ks cs ix) = map_of (zip ks ns)" by (simp add: kids_small)
  have "map (\<lambda>(b, c). F (Some c)) (zip ks ns) = map F cs" using small by (auto simp: map_zip_map2 [symmetric] list_eq_iff_nth_eq)
  moreover have "ordered_kids (ArtNode px lf ty ks cs ix) = zip ks ns"
    unfolding ordered_kids_def kids using small by (intro concat_small bytes_sorted) auto
  ultimately show ?thesis using small by (auto simp: visited_def)
next
  case (n48 px' lf' ks' cs' ix')
  then have ok: "index_ok cs ix" and ty: "ty = artNode48" by auto
  have "concat_res (map (\<lambda>b. F (kids (ArtNode px lf ty ks cs ix) b)) bytes)
      = concat_res (map (\<lambda>b. F (cs ! nat (ix b))) (filter (\<lambda>b. ix b \<noteq> artEmptyIndex) bytes))"
    unfolding ty kids_48(2) [OF ok] using assms(2) by (rule concat_res_filter)
  then show ?thesis using concat_res_skip [of F "kids (ArtNode px lf ty ks cs ix)" bytes] assms(2)
    by (simp add: visited_def ty artTypes pick_ok [OF ok] ordered_kids_def)
next
  case (n256 px' lf' ks' cs' ix')
  then have cs: "length cs = 256" and ty: "ty = artNode256" by auto
  have "map F cs = map (\<lambda>b. F (kids (ArtNode px lf ty ks cs ix) b)) bytes"
    using cs ty by (auto simp: list_eq_iff_nth_eq kids_256 bytes_def of_char_of)
  then show ?thesis using concat_res_skip [of F "kids (ArtNode px lf ty ks cs ix)" bytes] assms(2)
    by (simp add: visited_def ty artTypes ordered_kids_def)
qed

end
