(* ===== verification/Art_Refinement.thy ===== *)
theory Art_Refinement
  imports Art_Tables
begin

text \<open>
  The radix tree of \<open>Art_Store\<close> against the abstract store, for keys without the byte 0. The contents of
  a node are the entries of the leaves below it; a node sits under the bytes that the keys below it
  start with. A call that returns acts as the abstract store's; \<open>Set\<close> blocks exactly when it needs
  \<open>splitPrefix\<close>, which a key at least as long as every compressed path above a branch never does.
\<close>

section \<open>Contents and invariant\<close>

definition nulfree :: "string \<Rightarrow> bool" where
  "nulfree k \<longleftrightarrow> NUL \<notin> set k"

definition px :: "artNode \<Rightarrow> string" where
  "px n = (case an_prefix n of None \<Rightarrow> [] | Some p \<Rightarrow> p)"

inductive entry :: "artNode \<Rightarrow> string \<Rightarrow> string \<Rightarrow> bool" where
  entry_leaf: "an_leaf n = Some l \<Longrightarrow> entry n (al_key l) (al_value l)"
| entry_kid: "an_leaf n = None \<Longrightarrow> kids n b = Some c \<Longrightarrow> entry c k v \<Longrightarrow> entry n k v"

inductive art_ok :: "nat \<Rightarrow> string \<Rightarrow> artNode \<Rightarrow> bool" for L where
  ok_leaf: "an_leaf n = Some l \<Longrightarrow> an_prefix n = None \<Longrightarrow> prefix path (al_key l) \<Longrightarrow> nulfree (al_key l)
    \<Longrightarrow> art_ok L path n"
| ok_inner: "an_leaf n = None \<Longrightarrow> node_ok n \<Longrightarrow> an_prefix n \<noteq> Some [] \<Longrightarrow> nulfree (path @ px n) \<Longrightarrow> length (path @ px n) \<le> L
    \<Longrightarrow> \<forall>c. kids n NUL = Some c \<longrightarrow> (\<exists>l. an_leaf c = Some l \<and> al_key l = path @ px n)
    \<Longrightarrow> \<forall>b c. kids n b = Some c \<and> b \<noteq> NUL \<longrightarrow> art_ok L (path @ px n @ [b]) c
    \<Longrightarrow> art_ok L path n"

definition child_ok :: "nat \<Rightarrow> string \<Rightarrow> char \<Rightarrow> artNode \<Rightarrow> bool" where
  "child_ok L q b c \<longleftrightarrow>
     (if b = NUL then \<exists>l. an_leaf c = Some l \<and> al_key l = q else art_ok L (q @ [b]) c)"

lemma entry_of_leaf: "an_leaf n = Some l \<Longrightarrow> entry n k v \<longleftrightarrow> k = al_key l \<and> v = al_value l"
  by (auto simp: entry.simps [of n])

lemma entry_leaf_node [simp]: "entry (ArtNode p (Some l) ty ks cs ix) k v \<longleftrightarrow> k = al_key l \<and> v = al_value l"
  by (rule entry_of_leaf) simp

lemma entry_of_inner: "an_leaf n = None \<Longrightarrow> entry n k v \<longleftrightarrow> (\<exists>b c. kids n b = Some c \<and> entry c k v)"
  by (auto simp: entry.simps [of n])

lemma ok_of_leaf:
  "an_leaf n = Some l \<Longrightarrow> art_ok L path n \<longleftrightarrow> an_prefix n = None \<and> prefix path (al_key l) \<and> nulfree (al_key l)"
  by (auto simp: art_ok.simps [of L path n])

lemma ok_of_inner:
  "an_leaf n = None \<Longrightarrow> art_ok L path n \<longleftrightarrow> node_ok n \<and> an_prefix n \<noteq> Some [] \<and> nulfree (path @ px n)
    \<and> length (path @ px n) \<le> L \<and> (\<forall>b c. kids n b = Some c \<longrightarrow> child_ok L (path @ px n) b c)"
  by (auto simp: art_ok.simps [of L path n] child_ok_def)

lemma art_ok_mono: "art_ok L path n \<Longrightarrow> L \<le> L' \<Longrightarrow> art_ok L' path n"
proof (induction rule: art_ok.induct)
  case (ok_inner n path)
  then show ?case by (intro art_ok.ok_inner) auto
qed (rule art_ok.ok_leaf)

text \<open>The byte of a key below a node tells the child it is under.\<close>

lemma byte_at_prefix: "prefix (q @ [b]) k \<Longrightarrow> prefix q k \<and> byte_at k (length q) = b"
  by (auto simp: byte_at_def nth_append prefix_def)

lemma byte_at_self [simp]: "byte_at q (length q) = NUL" "byte_at (p @ q) (length p + length q) = NUL"
  by (simp_all add: byte_at_def)

lemma byte_at_NUL: "nulfree k \<Longrightarrow> prefix q k \<Longrightarrow> byte_at k (length q) = NUL \<longleftrightarrow> k = q"
  by (auto simp: byte_at_def nulfree_def prefix_def nth_append split: if_splits) (metis length_greater_0_conv nth_mem)

lemma byte_at_step: "prefix q k \<Longrightarrow> byte_at k (length q) = b \<Longrightarrow> k \<noteq> q \<Longrightarrow> prefix (q @ [b]) k"
proof -
  assume "prefix q k" and b: "byte_at k (length q) = b" and "k \<noteq> q"
  then obtain r where "k = q @ r" "r \<noteq> []" by (auto simp: prefix_def)
  then show ?thesis using b by (cases r) (simp_all add: byte_at_def)
qed

lemma entry_path: "art_ok L path n \<Longrightarrow> entry n k v \<Longrightarrow> prefix path k \<and> nulfree k"
proof (induction arbitrary: k v rule: art_ok.induct)
  case (ok_leaf n l path)
  then show ?case by (auto simp: entry_of_leaf)
next
  case (ok_inner n path)
  obtain b c where c: "kids n b = Some c" "entry c k v" using ok_inner.prems ok_inner.hyps(1) by (auto simp: entry_of_inner)
  show ?case
  proof (cases "b = NUL")
    case True
    then have "k = path @ px n" using ok_inner.hyps(6) c by (auto simp: entry_of_leaf)
    then show ?thesis using ok_inner.hyps(4) by simp
  next
    case False
    then show ?thesis using ok_inner.IH c by (fastforce dest: append_prefixD)
  qed
qed

lemma child_path:
  assumes "child_ok L q b c" and "entry c k v" and "nulfree q"
  shows "prefix q k \<and> nulfree k \<and> byte_at k (length q) = b"
proof (cases "b = NUL")
  case True
  then have "k = q" using assms by (auto simp: child_ok_def entry_of_leaf)
  then show ?thesis using True assms(3) by simp
next
  case False
  then show ?thesis using assms entry_path [of L "q @ [b]" c k v] byte_at_prefix [of q b k] by (auto simp: child_ok_def)
qed

lemma inner_entry:
  assumes "art_ok L path n" and "an_leaf n = None"
  shows "entry n k v \<longleftrightarrow> prefix (path @ px n) k \<and> nulfree k
    \<and> (\<exists>c. kids n (byte_at k (length (path @ px n))) = Some c \<and> entry c k v)"
proof -
  have ok: "\<forall>b c. kids n b = Some c \<longrightarrow> child_ok L (path @ px n) b c" and nul: "nulfree (path @ px n)"
    using assms ok_of_inner by blast+
  show ?thesis unfolding entry_of_inner [OF assms(2)]
  proof
    assume "\<exists>b c. kids n b = Some c \<and> entry c k v"
    then obtain b c where c: "kids n b = Some c" "entry c k v" by blast
    then show "prefix (path @ px n) k \<and> nulfree k \<and> (\<exists>c. kids n (byte_at k (length (path @ px n))) = Some c \<and> entry c k v)"
      using child_path [of L "path @ px n" b c k v] ok nul by auto
  qed auto
qed

section \<open>Get\<close>

lemma skip_prefix_ok:
  assumes "prefix path k"
  shows "skip_prefix n k (length path) = (if prefix (path @ px n) k then Some (length (path @ px n)) else None)"
proof -
  obtain r where r: "k = path @ r" using assms by (auto simp: prefix_def)
  have "prefix p r \<longleftrightarrow> length p \<le> length r \<and> take (length p) r = p" for p
    by (metis append_eq_conv_conj append_take_drop_id length_take min.absorb2 prefix_def prefix_length_le)
  then show ?thesis by (cases "an_prefix n") (auto simp: skip_prefix_def px_def r)
qed

lemma get_ok:
  "art_ok L path n \<Longrightarrow> nulfree k \<Longrightarrow> prefix path k
    \<Longrightarrow> \<exists>r. get_from n k (length path) = Inr r \<and> (\<forall>v. r = Some v \<longleftrightarrow> entry n k v)"
proof (induction arbitrary: k rule: art_ok.induct)
  case (ok_leaf n l path)
  then show ?case by (subst get_from.simps) (auto simp: entry_of_leaf)
next
  case (ok_inner n path)
  let ?q = "path @ px n" and ?b = "byte_at k (length (path @ px n))"
  have ok: "art_ok L path n" using ok_inner by (intro art_ok.ok_inner) auto
  note ent = inner_entry [OF ok ok_inner.hyps(1), of k]
  note find = findChild_ok [OF ok_inner.hyps(2)]
  show ?case
  proof (cases "prefix ?q k")
    case False
    then show ?thesis
      using ent ok_inner.hyps(1) skip_prefix_ok [OF ok_inner.prems(2), of n] by (subst get_from.simps) auto
  next
    case True
    have step: "get_from n k (length path) = (case kids n ?b of None \<Rightarrow> Inr None
        | Some c \<Rightarrow> get_from c k (if k = ?q then length ?q else length ?q + 1))"
      using True ok_inner.hyps(1) skip_prefix_ok [OF ok_inner.prems(2), of n] prefix_length_le [OF True]
      by (subst get_from.simps) (auto simp: find byte_at_def prefix_def split: option.splits)
    show ?thesis
    proof (cases "kids n ?b")
      case None
      then show ?thesis using step ent by auto
    next
      case (Some c)
      then have ent': "entry n k v \<longleftrightarrow> entry c k v" for v using ent True ok_inner.prems(1) by auto
      show ?thesis
      proof (cases "k = ?q")
        case True
        then obtain l where "an_leaf c = Some l" using Some ok_inner.hyps(6) by auto
        then show ?thesis using step Some ent' True by (subst (asm) get_from.simps) (auto simp: entry_of_leaf)
      next
        case False
        then have b: "?b \<noteq> NUL" "prefix (?q @ [?b]) k"
          using byte_at_NUL [OF ok_inner.prems(1) True] byte_at_step [OF True] by auto
        then show ?thesis using ok_inner.IH Some ok_inner.prems(1) step ent' False by fastforce
      qed
    qed
  qed
qed

section \<open>Set\<close>

definition set_effect :: "artNode \<Rightarrow> string \<Rightarrow> string \<Rightarrow> artNode \<Rightarrow> bool" where
  "set_effect n k val n' \<longleftrightarrow> (\<forall>k' v'. entry n' k' v' \<longleftrightarrow> (if k' = k then v' = val else entry n k' v'))"

lemma newArtLeaf_entry [simp]: "entry (newArtLeaf k val) k' v' \<longleftrightarrow> k' = k \<and> v' = val"
  by (subst entry_of_leaf) (auto simp: newArtLeaf_def)

lemma newArtLeaf_child:
  "prefix q k \<Longrightarrow> nulfree k \<Longrightarrow> child_ok L q (byte_at k (length q)) (newArtLeaf k val)"
  using byte_at_NUL [of k q] byte_at_step [of q k]
  by (auto simp: child_ok_def newArtLeaf_def ok_of_leaf)

text \<open>A node with a changed child.\<close>

lemma updated:
  assumes ok: "art_ok L path n" "an_leaf n = None"
    and n': "node_ok n'" "kids n' = (kids n)(b \<mapsto> c')" "an_prefix n' = an_prefix n" "an_leaf n' = None"
    and k: "prefix (path @ px n) k" "nulfree k" "b = byte_at k (length (path @ px n))"
    and c': "child_ok L (path @ px n) b c'"
      "\<forall>k' v'. entry c' k' v' \<longleftrightarrow> (if k' = k then v' = val else (\<exists>c. kids n b = Some c \<and> entry c k' v'))"
  shows "art_ok L path n' \<and> set_effect n k val n'"
proof -
  have px: "px n' = px n" using n'(3) by (simp add: px_def)
  have ok': "art_ok L path n'"
    using ok n' c'(1) unfolding ok_of_inner [OF ok(2)] ok_of_inner [OF n'(4)] px by (simp split: if_splits)
  have "entry n' k' v' \<longleftrightarrow> (if k' = k then v' = val else entry n k' v')" for k' v'
    unfolding inner_entry [OF ok' n'(4), unfolded px] inner_entry [OF ok] n'(2)
    using k c'(2) by (cases "byte_at k' (length (path @ px n)) = b") auto
  then show ?thesis using ok' by (simp add: set_effect_def)
qed

lemma two_children:
  assumes "b1 \<noteq> b2"
  shows "\<exists>n'. bindr (addChild (ArtNode px0 None artNode4 [] [] ix) b1 c1) (\<lambda>n'. addChild n' b2 c2) = Inr n'
    \<and> node_ok n' \<and> kids n' = [b1 \<mapsto> c1, b2 \<mapsto> c2] \<and> an_prefix n' = px0 \<and> an_leaf n' = None"
proof -
  let ?n = "ArtNode px0 None artNode4 [] [] ix"
  obtain n1 where n1: "addChild ?n b1 c1 = Inr n1" "node_ok n1" "kids n1 = [b1 \<mapsto> c1]" "an_prefix n1 = px0" "an_leaf n1 = None"
    using addChild_ok [OF empty_table(1), of px0 None ix b1 c1] by (auto simp: empty_table)
  obtain n2 where "addChild n1 b2 c2 = Inr n2" "node_ok n2" "kids n2 = [b1 \<mapsto> c1, b2 \<mapsto> c2]" "an_prefix n2 = px0" "an_leaf n2 = None"
    using addChild_ok [OF n1(2), of b2 c2] n1 assms by auto
  then show ?thesis using n1(1) by auto
qed

lemma two_children_ok:
  assumes n': "node_ok n'" "kids n' = [b1 \<mapsto> c1, b2 \<mapsto> c2]" "an_leaf n' = None" "an_prefix n' \<noteq> Some []" and "b1 \<noteq> b2"
    and "nulfree (path @ px n')" and "length (path @ px n') \<le> L"
    and "child_ok L (path @ px n') b1 c1" and "child_ok L (path @ px n') b2 c2"
  shows "art_ok L path n'" and "entry n' k v \<longleftrightarrow> entry c1 k v \<or> entry c2 k v"
  unfolding ok_of_inner [OF n'(3)] entry_of_inner [OF n'(3)] using assms by (auto split: if_splits)

text \<open>The common prefix of two strings and the bytes behind it.\<close>

lemma common_prefix:
  defines "common x y \<equiv> length (takeWhile (\<lambda>(a, b). a = b) (zip x y))"
  shows "common x y \<le> length x" and "common x y \<le> length y" and "take (common x y) x = take (common x y) y"
    and "common x y < length x \<Longrightarrow> common x y < length y \<Longrightarrow> x ! common x y \<noteq> y ! common x y"
proof -
  have "common x y \<le> length x \<and> common x y \<le> length y \<and> take (common x y) x = take (common x y) y
    \<and> (common x y < length x \<and> common x y < length y \<longrightarrow> x ! common x y \<noteq> y ! common x y)"
    unfolding common_def by (induction x y rule: list_induct2') auto
  then show "common x y \<le> length x" "common x y \<le> length y" "take (common x y) x = take (common x y) y"
    "common x y < length x \<Longrightarrow> common x y < length y \<Longrightarrow> x ! common x y \<noteq> y ! common x y" by blast+
qed

lemma bytes_differ:
  assumes "prefix q k" and "prefix q k'" and "nulfree k" and "nulfree k'" and "k \<noteq> k'"
    and "length q < length k \<Longrightarrow> length q < length k' \<Longrightarrow> k ! length q \<noteq> k' ! length q"
  shows "byte_at k (length q) \<noteq> byte_at k' (length q)"
proof
  assume eq: "byte_at k (length q) = byte_at k' (length q)"
  show False
  proof (cases "byte_at k (length q) = NUL")
    case True
    then show False using eq assms(5) byte_at_NUL [OF assms(3,1)] byte_at_NUL [OF assms(4,2)] by simp
  next
    case False
    then have "length q < length k" "length q < length k'" using eq by (auto simp: byte_at_def split: if_splits)
    then show False using assms(6) eq by (simp add: byte_at_def)
  qed
qed

lemma splitLeaf_ok:
  assumes n: "an_leaf n = Some l" "art_ok L path n" and k: "al_key l \<noteq> k" "prefix path k" "nulfree k" "length k \<le> L"
  shows "\<exists>n'. splitLeaf n l k val (length path) = Inr n' \<and> art_ok L path n' \<and> set_effect n k val n'
    \<and> an_leaf n' = None \<and> px n' = take (lcp (al_key l) k (length path)) (drop (length path) (al_key l))"
proof -
  have leaf: "an_prefix n = None" "prefix path (al_key l)" "nulfree (al_key l)" using n ok_of_leaf by blast+
  obtain x y where x: "al_key l = path @ x" and y: "k = path @ y" using leaf(2) k(2) by (auto simp: prefix_def)
  define m where "m = lcp (al_key l) k (length path)"
  have m: "m \<le> length x" "m \<le> length y" "take m x = take m y" "m < length x \<Longrightarrow> m < length y \<Longrightarrow> x ! m \<noteq> y ! m"
    using common_prefix [of x y] by (simp_all add: m_def lcp_def x y)
  define q where "q = path @ take m x"
  let ?b1 = "byte_at (al_key l) (length path + m)" and ?b2 = "byte_at k (length path + m)"
  have q: "prefix q (al_key l)" "prefix q k" "length q = length path + m"
    using m(1,2) take_is_prefix [of m x] take_is_prefix [of m y] m(3) [symmetric] by (simp_all add: q_def x y)
  have nul: "nulfree q" using k(3) q(2) by (auto simp: nulfree_def prefix_def)
  have ne: "?b1 \<noteq> ?b2"
    using bytes_differ [OF q(1,2) leaf(3) k(3,1)] m(4) q(3) by (simp add: x y nth_append)
  define px0 where "px0 = (if m > 0 then Some (take m (drop (length path) (al_key l))) else an_prefix n)"
  obtain n' where n': "splitLeaf n l k val (length path) = Inr n'" "node_ok n'"
    "kids n' = [?b1 \<mapsto> newArtLeaf (al_key l) (al_value l), ?b2 \<mapsto> newArtLeaf k val]" "an_prefix n' = px0" "an_leaf n' = None"
    using two_children [OF ne, of px0 "an_index n" "newArtLeaf (al_key l) (al_value l)" "newArtLeaf k val"]
    unfolding splitLeaf_def Let_def m_def [symmetric] px0_def [symmetric] by auto
  have px': "px n' = take m x" using n'(4) leaf(1) by (simp add: px_def px0_def x)
  then have px: "path @ px n' = q" by (simp add: q_def)
  have "an_prefix n' \<noteq> Some []" using n'(4) leaf(1) m(1) by (auto simp: px0_def x)
  moreover have "length q \<le> L" using prefix_length_le [OF q(2)] k(4) by simp
  ultimately have "art_ok L path n'" "entry n' k' v' \<longleftrightarrow> entry (newArtLeaf (al_key l) (al_value l)) k' v' \<or> entry (newArtLeaf k val) k' v'" for k' v'
    using two_children_ok [OF n'(2,3,5) _ ne, of path L] nul px newArtLeaf_child [OF q(1) leaf(3)] newArtLeaf_child [OF q(2) k(3)] q(3)
    by auto
  moreover have "px n' = take (lcp (al_key l) k (length path)) (drop (length path) (al_key l))"
    using px' by (simp add: m_def x)
  ultimately show ?thesis using n'(1,5) k(1) by (auto simp: set_effect_def entry_of_leaf [OF n(1)])
qed

lemma moved_node:
  assumes n: "an_leaf n = None" "art_ok L path n" "path @ px n = path' @ p"
    and m: "m = ArtNode (if p = [] then None else Some p) (an_leaf n) (an_nodeType n) (an_keys n) (an_children n) (an_index n)"
  shows "art_ok L path' m" and "entry m k v \<longleftrightarrow> entry n k v"
proof -
  have leaf: "an_leaf m = None" and px: "px m = p" using n(1) m by (auto simp: px_def)
  have "findChild m b = findChild n b" for b unfolding m findChild_def artNode.sel ..
  then have kids: "kids m = kids n" by (simp add: kids_def fun_eq_iff)
  have ok: "node_ok m = node_ok n" unfolding m by (cases n) simp
  show "art_ok L path' m"
    using n(2,3) unfolding ok_of_inner [OF n(1)] ok_of_inner [OF leaf] px kids ok by (auto simp: m)
  show "entry m k v \<longleftrightarrow> entry n k v" unfolding entry_of_inner [OF n(1)] entry_of_inner [OF leaf] kids ..
qed

lemma splitPrefixAt_ok:
  assumes n: "an_leaf n = None" "art_ok L path n" "an_prefix n = Some p"
    and k: "prefix path k" "nulfree k" "length k \<le> L" "length path + length p \<le> length k"
    and m: "m = length (takeWhile (\<lambda>(a, b). a = b) (zip p (drop (length path) k)))" "m < length p"
  shows "\<exists>n'. splitPrefixAt n p (length path) m k val = Inr n' \<and> art_ok L path n' \<and> set_effect n k val n'"
proof -
  obtain y where y: "k = path @ y" using k(1) by (auto simp: prefix_def)
  have common: "take m p = take m y" "p ! m \<noteq> y ! m" "m < length y"
    using common_prefix [of p y] m k(4) by (simp_all add: y)
  define q where "q = path @ take m p"
  define c where "c = ArtNode (if m + 1 < length p then Some (drop (m + 1) p) else None) (an_leaf n) (an_nodeType n)
    (an_keys n) (an_children n) (an_index n)"
  let ?b = "byte_at k (length path + m)" and ?px = "if m > 0 then Some (take m p) else None"
  have nul: "nulfree (path @ p)" using n ok_of_inner [OF n(1)] by (simp add: px_def)
  have "prefix q k" by (simp add: q_def y common(1) take_is_prefix)
  moreover have "length q = length path + m" using m(2) by (simp add: q_def)
  moreover have "nulfree q" using nul set_take_subset [of m p] by (auto simp: q_def nulfree_def)
  ultimately have q: "prefix q k" "length q = length path + m" "nulfree q" by blast+
  have b: "?b = y ! m" using common(3) by (simp add: byte_at_def y)
  have c: "c = ArtNode (if drop (m + 1) p = [] then None else Some (drop (m + 1) p)) (an_leaf n) (an_nodeType n)
      (an_keys n) (an_children n) (an_index n)" by (simp add: c_def)
  have path: "path @ px n = (q @ [p ! m]) @ drop (m + 1) p"
    using n(3) m(2) by (simp add: px_def q_def id_take_nth_drop [symmetric])
  have "p ! m \<noteq> NUL" using nul nth_mem [OF m(2)] by (auto simp: nulfree_def)
  then have child: "child_ok L q (p ! m) c" using moved_node(1) [OF n(1,2) path c] by (simp add: child_ok_def)
  obtain n' where n': "splitPrefixAt n p (length path) m k val = Inr n'" "node_ok n'"
    "kids n' = [p ! m \<mapsto> c, ?b \<mapsto> newArtLeaf k val]" "an_prefix n' = ?px" "an_leaf n' = None"
    using two_children [of "p ! m" ?b ?px "an_index n" c "newArtLeaf k val"] common(2) b m(2)
    unfolding splitPrefixAt_def Let_def c_def [symmetric] by (auto simp: index_def)
  have px: "path @ px n' = q" using n'(4) by (simp add: px_def q_def)
  have "p ! m \<noteq> ?b" "an_prefix n' \<noteq> Some []" "length q \<le> L"
    using common(2) b n'(4) m(2) prefix_length_le [OF q(1)] k(3) by auto
  then have "art_ok L path n'" "entry n' k' v' \<longleftrightarrow> entry c k' v' \<or> entry (newArtLeaf k val) k' v'" for k' v'
    using two_children_ok [OF n'(2,3,5), of path L] px q newArtLeaf_child [OF q(1) k(2), of L val] child by auto
  moreover have "\<not> entry n k v'" for v'
    using inner_entry [OF n(2,1), of k v'] common(2,3) m(2) n(3)
    by (auto simp: px_def y prefix_def) (metis nth_append)
  ultimately show ?thesis
    using n'(1) moved_node(2) [OF n(1,2) path c] by (auto simp: set_effect_def)
qed

lemma splitPrefix_blocks: "an_prefix n = Some p \<Longrightarrow> p \<noteq> [] \<Longrightarrow> splitPrefix n k val = Inl Deadlock"
proof -
  assume p: "an_prefix n = Some p" "p \<noteq> []"
  obtain n' where "addChild (ArtNode None None artNode4 [] [] (an_index n)) (p ! 0)
      (ArtNode (Some p) (an_leaf n) (an_nodeType n) (an_keys n) (an_children n) (an_index n)) = Inr n'"
    using addChild_ok [OF empty_table(1)] by (fastforce simp: empty_table)
  then show ?thesis using p by (simp add: splitPrefix_def index_def)
qed

lemma set_prefix_ok:
  assumes n: "an_leaf n = None" "art_ok L path n" and k: "prefix path k" "nulfree k" "length k \<le> L"
  shows "(set_prefix n k val (length path) = Inl Deadlock \<and> length k < L)
    \<or> (\<exists>n'. set_prefix n k val (length path) = Inr (Inr n') \<and> art_ok L path n' \<and> set_effect n k val n')
    \<or> (set_prefix n k val (length path) = Inr (Inl (length (path @ px n))) \<and> prefix (path @ px n) k)"
proof (cases "an_prefix n")
  case None
  then show ?thesis using k(1) by (simp add: set_prefix_def px_def)
next
  case (Some p)
  have p: "p \<noteq> []" "length (path @ p) \<le> L" using n ok_of_inner [OF n(1)] Some by (auto simp: px_def)
  define m where "m = length (takeWhile (\<lambda>(a, b). a = b) (zip p (drop (length path) k)))"
  consider "length path + length p > length k" | "length path + length p \<le> length k" "m < length p"
    | "length path + length p \<le> length k" "\<not> m < length p" by linarith
  then show ?thesis
  proof cases
    case 1
    have "splitPrefix n k val = Inl Deadlock" using Some p(1) by (rule splitPrefix_blocks)
    then show ?thesis using 1 Some p(2) by (simp add: set_prefix_def)
  next
    case 2
    then have "set_prefix n k val (length path) = bindr (splitPrefixAt n p (length path) m k val) (\<lambda>n'. Inr (Inr n'))"
      using Some by (simp add: set_prefix_def m_def Let_def)
    then show ?thesis using splitPrefixAt_ok [OF n Some k 2(1) m_def 2(2), of val] by auto
  next
    case 3
    obtain y where y: "k = path @ y" using k(1) by (auto simp: prefix_def)
    have "m = length p" "take m p = take m y" using 3(2) common_prefix [of p y] by (simp_all add: m_def y)
    then have "prefix p y" using take_is_prefix [of m y] by simp
    then show ?thesis using 3 Some \<open>m = length p\<close> by (simp add: set_prefix_def m_def Let_def px_def y)
  qed
qed

lemma set_end_ok:
  assumes n: "an_leaf n = None" "art_ok L path n" and k: "k = path @ px n"
  shows "\<exists>n'. set_end n k val = Inr n' \<and> art_ok L path n' \<and> set_effect n k val n'"
proof -
  have ok: "node_ok n" and nul: "nulfree k" and kids: "\<forall>b c. kids n b = Some c \<longrightarrow> child_ok L k b c"
    using n k ok_of_inner [OF n(1)] by blast+
  note upd = updated [OF n(2,1), of _ NUL _ k val, folded k]
  show ?thesis
  proof (cases "kids n NUL")
    case None
    obtain n' where n': "addChild n NUL (newArtLeaf k val) = Inr n'" "node_ok n'" "kids n' = (kids n)(NUL \<mapsto> newArtLeaf k val)"
      "an_prefix n' = an_prefix n" "an_leaf n' = None"
      using addChild_ok [OF ok None, of "newArtLeaf k val"] n(1) by auto
    have "child_ok L k NUL (newArtLeaf k val)" by (simp add: child_ok_def newArtLeaf_def)
    then have "art_ok L path n' \<and> set_effect n k val n'" using nul None by (intro upd [OF n'(2-5)]) simp_all
    then show ?thesis using None n'(1) by (simp add: set_end_def findChild_ok [OF ok])
  next
    case (Some c)
    then have "child_ok L k NUL c" using kids by blast
    then obtain px lf ty ks cs ix l where c: "c = ArtNode px (Some l) ty ks cs ix" "al_key l = k"
      by (cases c) (auto simp: child_ok_def)
    define c' where "c' = ArtNode px (Some (l\<lparr>al_value := val\<rparr>)) ty ks cs ix"
    have set: "set_end n k val = Inr (setChild n NUL c')"
      using Some c by (simp add: set_end_def findChild_ok [OF ok] c'_def)
    have child: "child_ok L k NUL c'" using c by (simp add: child_ok_def c'_def)
    have ent: "\<forall>k' v'. entry c' k' v' \<longleftrightarrow> (if k' = k then v' = val else (\<exists>c. kids n NUL = Some c \<and> entry c k' v'))"
      using c Some by (auto simp: c'_def)
    have "art_ok L path (setChild n NUL c') \<and> set_effect n k val (setChild n NUL c')"
      using setChild_ok [OF ok Some, of c'] n(1) nul by (intro upd [OF _ _ _ _ _ _ _ child ent]) simp_all
    then show ?thesis using set by blast
  qed
qed

definition set_result :: "nat \<Rightarrow> string \<Rightarrow> artNode \<Rightarrow> string \<Rightarrow> string \<Rightarrow> bool" where
  "set_result L path n k val \<longleftrightarrow> (set_from n k val (length path) = Inl Deadlock \<and> length k < L)
      \<or> (\<exists>n'. set_from n k val (length path) = Inr n' \<and> art_ok L path n' \<and> set_effect n k val n')"

lemma set_down:
  assumes n: "an_leaf n = None" "art_ok L path n" and k: "prefix (path @ px n) k" "k \<noteq> path @ px n" "nulfree k"
    and down: "set_prefix n k val (length path) = Inr (Inl (length (path @ px n)))"
    and IH: "\<And>b c. kids n b = Some c \<Longrightarrow> b \<noteq> NUL \<Longrightarrow> prefix (path @ px n @ [b]) k \<Longrightarrow> set_result L (path @ px n @ [b]) c k val"
  shows "set_result L path n k val"
proof -
  let ?q = "path @ px n" and ?b = "byte_at k (length (path @ px n))"
  have ok: "node_ok n" using n ok_of_inner [OF n(1)] by blast
  have b: "?b \<noteq> NUL" "prefix (?q @ [?b]) k" using byte_at_NUL [OF k(3,1)] byte_at_step [OF k(1)] k(2) by auto
  have "length ?q < length k" using prefix_length_less [of ?q k] k(1,2) by (simp add: strict_prefix_def)
  then have step: "set_from n k val (length path) = (case kids n ?b of
      None \<Rightarrow> addChild n ?b (newArtLeaf k val)
    | Some c \<Rightarrow> bindr (set_from c k val (length (?q @ [?b]))) (\<lambda>c'. Inr (setChild n ?b c')))"
    using n(1) down by (subst set_from.simps) (simp add: findChild_ok [OF ok] byte_at_def split: option.splits)
  note upd = updated [OF n(2,1) _ _ _ _ k(1,3) refl]
  show ?thesis
  proof (cases "kids n ?b")
    case None
    obtain n' where n': "addChild n ?b (newArtLeaf k val) = Inr n'" "node_ok n'" "kids n' = (kids n)(?b \<mapsto> newArtLeaf k val)"
      "an_prefix n' = an_prefix n" "an_leaf n' = None"
      using addChild_ok [OF ok None, of "newArtLeaf k val"] n(1) by auto
    have "art_ok L path n' \<and> set_effect n k val n'"
      using None newArtLeaf_child [OF k(1,3), of L val] by (intro upd [OF n'(2-5)]) auto
    then show ?thesis using step None n'(1) by (simp add: set_result_def)
  next
    case (Some c)
    have "set_result L (?q @ [?b]) c k val" using IH [OF Some b(1)] b(2) by simp
    then consider "set_from c k val (length (?q @ [?b])) = Inl Deadlock" "length k < L"
      | c' where "set_from c k val (length (?q @ [?b])) = Inr c'" "art_ok L (?q @ [?b]) c'" "set_effect c k val c'"
      unfolding set_result_def by blast
    then show ?thesis
    proof cases
      case 1
      then show ?thesis using step Some by (simp add: set_result_def)
    next
      case (2 c')
      have "art_ok L path (setChild n ?b c') \<and> set_effect n k val (setChild n ?b c')"
        using setChild_ok [OF ok Some, of c'] n(1) Some 2(2,3) b(1)
        by (intro upd) (auto simp: child_ok_def set_effect_def)
      then show ?thesis using step Some 2(1) by (simp add: set_result_def)
    qed
  qed
qed

lemma set_ok:
  "art_ok L path n \<Longrightarrow> prefix path k \<Longrightarrow> nulfree k \<Longrightarrow> length k \<le> L \<Longrightarrow> set_result L path n k val"
proof (induction rule: art_ok.induct)
  case (ok_leaf n l path)
  show ?case
  proof (cases "al_key l = k")
    case True
    obtain ty ks cs ix where n: "n = ArtNode None (Some l) ty ks cs ix" using ok_leaf.hyps(1,2) by (cases n) auto
    define n' where "n' = ArtNode None (Some (l\<lparr>al_value := val\<rparr>)) ty ks cs ix"
    have "art_ok L path n'" using ok_leaf True by (subst ok_of_leaf) (auto simp: n'_def)
    moreover have "set_effect n k val n'"
      using True by (auto simp: set_effect_def n n'_def)
    ultimately show ?thesis using True unfolding set_result_def by (subst (1 2) set_from.simps) (auto simp: n n'_def)
  next
    case False
    have "art_ok L path n" using ok_leaf by (intro art_ok.ok_leaf)
    then show ?thesis using splitLeaf_ok [OF ok_leaf.hyps(1) _ False ok_leaf.prems, of val] ok_leaf.hyps(1) False
      unfolding set_result_def by (subst (1 2) set_from.simps) auto
  qed
next
  case (ok_inner n path)
  let ?q = "path @ px n"
  have ok: "art_ok L path n" using ok_inner by (intro art_ok.ok_inner) auto
  note find = findChild_ok [OF ok_inner.hyps(2)]
  consider (dead) "set_prefix n k val (length path) = Inl Deadlock" "length k < L"
    | (split) n' where "set_prefix n k val (length path) = Inr (Inr n')" "art_ok L path n'" "set_effect n k val n'"
    | (down) "set_prefix n k val (length path) = Inr (Inl (length ?q))" "prefix ?q k"
    using set_prefix_ok [OF ok_inner.hyps(1) ok ok_inner.prems, of val] by blast
  then show ?case
  proof cases
    case dead
    then show ?thesis using ok_inner.hyps(1) unfolding set_result_def by (subst (1 2) set_from.simps) simp
  next
    case split
    then show ?thesis using ok_inner.hyps(1) unfolding set_result_def by (subst (1 2) set_from.simps) simp
  next
    case down
    show ?thesis
    proof (cases "k = ?q")
      case True
      then show ?thesis using set_end_ok [OF ok_inner.hyps(1) ok True, of val] down ok_inner.hyps(1)
        unfolding set_result_def by (subst (1 2) set_from.simps) auto
    next
      case False
      then show ?thesis
        using ok_inner.IH ok_inner.prems(2,3) by (intro set_down [OF ok_inner.hyps(1) ok down(2) _ ok_inner.prems(2) down(1)]) auto
    qed
  qed
qed

section \<open>Del\<close>

text \<open>The node that is left, if any, has the other entries.\<close>

definition del_effect :: "nat \<Rightarrow> string \<Rightarrow> artNode \<Rightarrow> string \<Rightarrow> artNode option \<Rightarrow> bool" where
  "del_effect L path n k r \<longleftrightarrow> (case r of
     None \<Rightarrow> \<forall>k' v'. entry n k' v' \<longrightarrow> k' = k
   | Some n' \<Rightarrow> art_ok L path n' \<and> (\<forall>k' v'. entry n' k' v' \<longleftrightarrow> k' \<noteq> k \<and> entry n k' v'))"

lemma changed_kids:
  assumes ok: "art_ok L path n" "an_leaf n = None"
    and n': "node_ok n'" "an_prefix n' = an_prefix n" "an_leaf n' = None"
    and kids: "\<forall>b' c. b' \<noteq> b \<longrightarrow> kids n' b' = kids n b'"
      "\<forall>c. kids n' b = Some c \<longrightarrow> child_ok L (path @ px n) b c"
    and k: "b = byte_at k (length (path @ px n))"
      "\<forall>k' v'. (\<exists>c. kids n' b = Some c \<and> entry c k' v') \<longleftrightarrow> k' \<noteq> k \<and> (\<exists>c. kids n b = Some c \<and> entry c k' v')"
  shows "del_effect L path n k (if length (an_children n') = 0 \<and> an_leaf n' = None then None else Some n')"
proof -
  have px: "px n' = px n" using n'(2) by (simp add: px_def)
  have "child_ok L (path @ px n) b' c" if "kids n' b' = Some c" for b' c
    using that kids ok(1) unfolding ok_of_inner [OF ok(2)] by (cases "b' = b") auto
  then have ok': "art_ok L path n'"
    using ok(1) n'(1,2) unfolding ok_of_inner [OF ok(2)] ok_of_inner [OF n'(3)] px by auto
  have ent: "entry n' k' v' \<longleftrightarrow> k' \<noteq> k \<and> entry n k' v'" for k' v'
    unfolding inner_entry [OF ok' n'(3), unfolded px] inner_entry [OF ok]
    using kids(1) k by (cases "byte_at k' (length (path @ px n)) = b") auto
  moreover have "\<not> entry n' k' v'" if "length (an_children n') = 0" for k' v'
    using no_children [OF that] by (simp add: entry_of_inner [OF n'(3)])
  ultimately show ?thesis using ok' by (auto simp: del_effect_def)
qed

lemma del_other:
  assumes "art_ok L path n" and "\<And>v. \<not> entry n k v"
  shows "del_effect L path n k (Some n)"
  using assms by (auto simp: del_effect_def)

definition del_finish :: "artNode \<Rightarrow> char \<Rightarrow> char \<Rightarrow> artNode option \<Rightarrow> artNode option res" where
  "del_finish n b b0 c' =
     bindr (case c' of None \<Rightarrow> removeChild n b | Some child' \<Rightarrow> Inr (setChild n b0 child')) (\<lambda>n'.
       Inr (if length (an_children n') = 0 \<and> an_leaf n' = None then None else Some n'))"

lemma del_leaf: "an_leaf n = Some l \<Longrightarrow> delNode (Some n) k d = Inr (if al_key l = k then None else Some n)"
  by (subst delNode.simps(2)) simp

lemma del_step:
  assumes n: "an_leaf n = None" "node_ok n" and k: "prefix path k" "prefix q k" and q: "q = path @ px n"
  shows "delNode (Some n) k (length path) =
    (case kids n (byte_at k (length q)) of
       Some c \<Rightarrow> bindr (delNode (Some c) k (if q = k then length q else length q + 1))
                 (del_finish n (byte_at k (length q)) (byte_at k (length q)))
     | None \<Rightarrow> (case kids n NUL of None \<Rightarrow> Inr (Some n)
                | Some c \<Rightarrow> bindr (delNode (Some c) k (if q = k then length q else length q + 1))
                    (del_finish n (byte_at k (length q)) NUL)))"
proof -
  have skip: "skip_prefix n k (length path) = Some (length q)" using skip_prefix_ok [OF k(1), of n] k(2) q by simp
  have "length q < length k \<longleftrightarrow> q \<noteq> k" using k(2) prefix_length_less [of q k] by (auto simp: strict_prefix_def)
  then have d: "(if length q < length k then length q + 1 else length q) = (if q = k then length q else length q + 1)" by simp
  have "delNode (Some n) k (length path) =
      bindr (case kids n (byte_at k (length q)) of None \<Rightarrow> Inr (kids n NUL) | Some c \<Rightarrow> Inr (Some c)) (\<lambda>c. case c of
        None \<Rightarrow> Inr (Some n)
      | Some child \<Rightarrow> bindr (delNode (Some child) k (if q = k then length q else length q + 1))
          (del_finish n (byte_at k (length q)) (if kids n (byte_at k (length q)) = None then NUL else byte_at k (length q))))"
    unfolding delNode.simps(2) [of n] n(1) skip option.case Let_def findChild_ok [OF n(2)] bindr.simps d del_finish_def
    by (cases "kids n (byte_at k (length q))") (simp_all only: option.case option.distinct bindr.simps if_True if_False simp_thms)
  then show ?thesis by (cases "kids n (byte_at k (length q))") (simp_all split: option.splits)
qed

lemma del_found:
  assumes ok: "art_ok L path n" "an_leaf n = None" and q: "q = path @ px n" and b: "b = byte_at k (length q)"
    and c: "kids n b = Some c" and r: "r = None \<Longrightarrow> \<forall>k' v'. entry c k' v' \<longrightarrow> k' = k"
      "\<And>c'. r = Some c' \<Longrightarrow> child_ok L q b c' \<and> (\<forall>k' v'. entry c' k' v' \<longleftrightarrow> k' \<noteq> k \<and> entry c k' v')"
  shows "\<exists>r'. del_finish n b b r = Inr r' \<and> del_effect L path n k r'"
proof (cases r)
  case None
  have n: "node_ok n" using ok ok_of_inner by blast
  obtain n' where n': "removeChild n b = Inr n'" "node_ok n'" "kids n' = (kids n)(b := None)" "an_prefix n' = an_prefix n"
    "an_leaf n' = None"
    using removeChild_ok [OF n, of b] ok(2) by auto
  have "\<forall>k' v'. (\<exists>c. kids n' b = Some c \<and> entry c k' v') \<longleftrightarrow> k' \<noteq> k \<and> (\<exists>c. kids n b = Some c \<and> entry c k' v')"
    using r(1) [OF None] by (simp add: n'(3) c) blast
  from changed_kids [OF ok n'(2,4,5) _ _ _ this]
  have "del_effect L path n k (if length (an_children n') = 0 \<and> an_leaf n' = None then None else Some n')"
    by (simp add: n'(3) b q)
  then show ?thesis using None n'(1) by (simp add: del_finish_def)
next
  case (Some c')
  have n: "node_ok n" using ok ok_of_inner by blast
  let ?n = "setChild n b c'"
  have n': "node_ok ?n" "kids ?n = (kids n)(b \<mapsto> c')" "an_prefix ?n = an_prefix n" "an_leaf ?n = None"
    using setChild_ok [OF n c, of c'] ok(2) by auto
  have "\<forall>k' v'. (\<exists>c. kids ?n b = Some c \<and> entry c k' v') \<longleftrightarrow> k' \<noteq> k \<and> (\<exists>c. kids n b = Some c \<and> entry c k' v')"
    using r(2) [OF Some] by (simp add: n'(2) c)
  moreover have "\<forall>b' c. b' \<noteq> b \<longrightarrow> kids ?n b' = kids n b'" by (simp add: n'(2))
  moreover have "\<forall>c. kids ?n b = Some c \<longrightarrow> child_ok L (path @ px n) b c"
    using r(2) [OF Some] unfolding q by (simp add: n'(2))
  ultimately have "del_effect L path n k (if length (an_children ?n) = 0 \<and> an_leaf ?n = None then None else Some ?n)"
    using b [unfolded q] by (intro changed_kids [OF ok n'(1,3,4)])
  then show ?thesis using Some by (simp add: del_finish_def)
qed

lemma del_missing:
  assumes ok: "art_ok L path n" "an_leaf n = None" and q: "q = path @ px n" "q \<noteq> k"
    and b: "b = byte_at k (length q)" "kids n b = None" and c: "kids n NUL = Some c"
  shows "\<exists>r'. bindr (delNode (Some c) k d) (del_finish n b NUL) = Inr r' \<and> del_effect L path n k r'"
proof -
  have n: "node_ok n" using ok ok_of_inner by blast
  have "child_ok L q NUL c" using ok ok_of_inner [OF ok(2)] c q(1) by blast
  then obtain l where "an_leaf c = Some l" "al_key l = q" by (auto simp: child_ok_def)
  then have "delNode (Some c) k d = Inr (Some c)" using q(2) by (simp add: del_leaf)
  moreover have n': "node_ok (setChild n NUL c)" "kids (setChild n NUL c) = kids n" "an_prefix (setChild n NUL c) = an_prefix n"
    "an_leaf (setChild n NUL c) = None"
    using setChild_ok [OF n c, of c] ok(2) c by (auto simp: fun_upd_idem)
  moreover have "del_effect L path n k (if length (an_children (setChild n NUL c)) = 0 \<and> an_leaf (setChild n NUL c) = None
      then None else Some (setChild n NUL c))"
    using b q(1) by (intro changed_kids [OF ok n'(1,3,4)]) (auto simp: n'(2))
  ultimately show ?thesis by (simp add: del_finish_def)
qed

lemma del_ok:
  "art_ok L path n \<Longrightarrow> prefix path k \<Longrightarrow> nulfree k
    \<Longrightarrow> \<exists>r. delNode (Some n) k (length path) = Inr r \<and> del_effect L path n k r"
proof (induction rule: art_ok.induct)
  case (ok_leaf n l path)
  have "art_ok L path n" using ok_leaf by (intro art_ok.ok_leaf)
  then show ?case using ok_leaf.hyps(1) by (auto simp: del_leaf del_effect_def entry_of_leaf)
next
  case (ok_inner n path)
  define q where "q = path @ px n"
  let ?b = "byte_at k (length q)"
  have ok: "art_ok L path n" using ok_inner by (intro art_ok.ok_inner) auto
  note ent = inner_entry [OF ok ok_inner.hyps(1), folded q_def, of k]
  show ?case
  proof (cases "prefix q k")
    case False
    then have "delNode (Some n) k (length path) = Inr (Some n)"
      using skip_prefix_ok [OF ok_inner.prems(1), of n] ok_inner.hyps(1) by (subst delNode.simps(2)) (simp add: q_def)
    then show ?thesis using del_other [OF ok] ent False by blast
  next
    case True
    note step = del_step [OF ok_inner.hyps(1,2) ok_inner.prems(1) True q_def]
    show ?thesis
    proof (cases "kids n ?b")
      case None
      then have "del_effect L path n k (Some n)" using del_other [OF ok] ent by simp
      moreover have "q \<noteq> k" if "kids n NUL = Some c" for c using None that by auto
      ultimately show ?thesis
        using step None del_missing [OF ok ok_inner.hyps(1) q_def _ refl None] by (cases "kids n NUL") auto
    next
      case (Some c)
      obtain r where "delNode (Some c) k (if q = k then length q else length q + 1) = Inr r"
        "r = None \<Longrightarrow> \<forall>k' v'. entry c k' v' \<longrightarrow> k' = k"
        "\<And>c'. r = Some c' \<Longrightarrow> child_ok L q ?b c' \<and> (\<forall>k' v'. entry c' k' v' \<longleftrightarrow> k' \<noteq> k \<and> entry c k' v')"
      proof (cases "q = k")
        case True
        then have "kids n NUL = Some c" using Some by simp
        then obtain l where l: "an_leaf c = Some l" "al_key l = k" using ok_inner.hyps(6) unfolding q_def [symmetric] True by blast
        then have "delNode (Some c) k d = Inr None" for d by (simp add: del_leaf)
        moreover have "\<forall>k' v'. entry c k' v' \<longrightarrow> k' = k" using entry_of_leaf [OF l(1)] l(2) by blast
        ultimately show ?thesis by (intro that [of None]) simp_all
      next
        case False
        then have b: "?b \<noteq> NUL" "prefix (q @ [?b]) k"
          using byte_at_NUL [OF ok_inner.prems(2) True] byte_at_step [OF True] by auto
        then obtain r where r: "delNode (Some c) k (length (q @ [?b])) = Inr r" "del_effect L (q @ [?b]) c k r"
          using ok_inner.IH Some ok_inner.prems(2) unfolding q_def append_assoc by blast
        then show ?thesis using that [of r] b(1) False by (cases r) (auto simp: del_effect_def child_ok_def)
      qed
      then show ?thesis using step Some del_found [OF ok ok_inner.hyps(1) q_def refl Some, of r] by simp
    qed
  qed
qed

end
