(* ===== verification/Art_Contract.thy ===== *)
theory Art_Contract
  imports Art_Refinement
begin

text \<open>
  The listings of the radix tree, the contract it keeps on keys without the byte 0 (and, on keys of
  one length, without blocking), and what happens outside of it.
\<close>

section \<open>Listings\<close>

definition keys_listed :: "artNode \<Rightarrow> (string \<Rightarrow> bool) \<Rightarrow> string list \<Rightarrow> bool" where
  "keys_listed n P ks \<longleftrightarrow> sorted_wrt (<) ks \<and> set ks = {k. P k \<and> (\<exists>v. entry n k v)}"

lemma bytes_order:
  assumes "prefix q k" and "prefix q k'" and "nulfree k'" and "byte_at k (length q) < byte_at k' (length q)"
  shows "k < k'"
proof -
  obtain x y where k: "k = q @ x" and k': "k' = q @ y" using assms(1,2) by (auto simp: prefix_def)
  have "x < y"
  proof (cases x)
    case Nil
    then show ?thesis using assms(4) by (cases y) (auto simp: k k')
  next
    case (Cons a x')
    have "y \<noteq> []"
    proof
      assume "y = []"
      then have "byte_at k' (length q) = NUL" by (simp add: k')
      then show False using assms(4) by (simp add: less_char_def)
    qed
    then obtain b y' where "y = b # y'" by (cases y) auto
    then show ?thesis using assms(4) Cons by (simp add: byte_at_def k k')
  qed
  moreover have "p @ x < p @ y \<longleftrightarrow> x < y" for p by (induction p) simp_all
  ultimately show ?thesis by (simp add: k k')
qed

lemma concat_res_ok: "\<forall>x \<in> set xs. F x = Inr (G x) \<Longrightarrow> concat_res (map F xs) = Inr (concat (map G xs))"
  by (induction xs) auto

lemma concat_parts_sorted:
  assumes "sorted_wrt (<) (map fst xs)" and "\<forall>x \<in> set xs. sorted_wrt (<) (G x)"
    and "\<forall>x \<in> set xs. \<forall>y \<in> set xs. fst x < fst y \<longrightarrow> (\<forall>k \<in> set (G x). \<forall>k' \<in> set (G y). k < k')"
  shows "sorted_wrt (<) (concat (map G xs))"
  using assms by (induction xs) (auto simp: sorted_wrt_append)

text \<open>The two collections, from what they do at the children.\<close>

lemma listing_inner:
  assumes ok: "art_ok L path n" "an_leaf n = None"
    and F: "\<And>b c. kids n b = Some c \<Longrightarrow> \<exists>ks. F c = Inr ks \<and> keys_listed c P ks"
  shows "\<exists>ks. concat_res (map (\<lambda>(b, c). F c) (ordered_kids n)) = Inr ks \<and> keys_listed n P ks"
proof -
  let ?q = "path @ px n"
  define G where "G c = (case F c of Inl _ \<Rightarrow> [] | Inr ks \<Rightarrow> ks)" for c
  have G: "F c = Inr (G c) \<and> keys_listed c P (G c)" if "kids n b = Some c" for b c
    using F [OF that] by (auto simp: G_def)
  have child: "prefix ?q k \<and> nulfree k \<and> byte_at k (length ?q) = b" if c: "kids n b = Some c" and k: "k \<in> set (G c)" for b c k
  proof -
    obtain v where "entry c k v" using G [OF c] k by (auto simp: keys_listed_def)
    then show ?thesis using ok c child_path [of L ?q b c k v] unfolding ok_of_inner [OF ok(2)] by blast
  qed
  let ?ks = "concat (map (\<lambda>(b, c). G c) (ordered_kids n))"
  have "concat_res (map (\<lambda>(b, c). F c) (ordered_kids n)) = Inr ?ks"
    using G by (intro concat_res_ok) (auto simp: ordered_kids_set)
  moreover have "sorted_wrt (<) ?ks"
  proof (rule concat_parts_sorted [OF ordered_kids_sorted])
    show "\<forall>x \<in> set (ordered_kids n). sorted_wrt (<) (case x of (b, c) \<Rightarrow> G c)"
      using G by (auto simp: ordered_kids_set keys_listed_def)
    show "\<forall>x \<in> set (ordered_kids n). \<forall>y \<in> set (ordered_kids n). fst x < fst y
        \<longrightarrow> (\<forall>k \<in> set (case x of (b, c) \<Rightarrow> G c). \<forall>k' \<in> set (case y of (b, c) \<Rightarrow> G c). k < k')"
      using child bytes_order [of ?q] by (fastforce simp: ordered_kids_set)
  qed
  moreover have "set ?ks = {k. P k \<and> (\<exists>v. entry n k v)}"
    using G by (fastforce simp: ordered_kids_set keys_listed_def entry_of_inner [OF ok(2)])
  ultimately show ?thesis unfolding keys_listed_def by blast
qed

lemma kid_listed:
  assumes "art_ok L path n" and "an_leaf n = None" and "kids n b = Some c"
  shows "(\<exists>l. an_leaf c = Some l) \<or> b \<noteq> NUL"
proof -
  have "child_ok L (path @ px n) b c" using assms ok_of_inner [OF assms(2)] by blast
  then show ?thesis by (auto simp: child_ok_def)
qed

lemma leaf_listed: "an_leaf n = Some l \<Longrightarrow> keys_listed n P (if P (al_key l) then [al_key l] else [])"
proof -
  assume "an_leaf n = Some l"
  then have "(\<exists>v. entry n k v) \<longleftrightarrow> k = al_key l" for k using entry_of_leaf by blast
  then show ?thesis by (auto simp: keys_listed_def)
qed

lemma collectKeys_leaf: "an_leaf n = Some l \<Longrightarrow> collectKeys n = Inr [al_key l]"
  by (cases n) simp

lemma collectKeys_inner:
  "an_leaf n = None \<Longrightarrow> node_ok n \<Longrightarrow> collectKeys n = concat_res (map (\<lambda>(b, c). collectKeys c) (ordered_kids n))"
proof (cases n)
  case (ArtNode p lf ty ks cs ix)
  assume "an_leaf n = None" and "node_ok n"
  then show ?thesis
    using visited_kids [of p lf ty ks cs ix "\<lambda>c. case c of None \<Rightarrow> Inr [] | Some n \<Rightarrow> collectKeys n"] ArtNode by simp
qed

lemma collectRange_leaf:
  "an_leaf n = Some l \<Longrightarrow> collectRange n lo hi = Inr (if al_key l \<ge> lo \<and> al_key l \<le> hi then [al_key l] else [])"
  by (cases n) simp

lemma collectRange_inner:
  "an_leaf n = None \<Longrightarrow> node_ok n \<Longrightarrow> collectRange n lo hi = concat_res (map (\<lambda>(b, c). collectRange c lo hi) (ordered_kids n))"
proof (cases n)
  case (ArtNode p lf ty ks cs ix)
  assume "an_leaf n = None" and "node_ok n"
  then show ?thesis
    using visited_kids [of p lf ty ks cs ix "\<lambda>c. case c of None \<Rightarrow> Inr [] | Some n \<Rightarrow> collectRange n lo hi"] ArtNode by simp
qed

lemma collectKeys_ok: "art_ok L path n \<Longrightarrow> \<exists>ks. collectKeys n = Inr ks \<and> keys_listed n (\<lambda>_. True) ks"
proof (induction rule: art_ok.induct)
  case (ok_leaf n l path)
  then show ?case using leaf_listed [OF ok_leaf(1), of "\<lambda>_. True"] by (simp add: collectKeys_leaf)
next
  case (ok_inner n path)
  have ok: "art_ok L path n" using ok_inner by (intro art_ok.ok_inner) auto
  have "\<exists>ks. collectKeys c = Inr ks \<and> keys_listed c (\<lambda>_. True) ks" if "kids n b = Some c" for b c
    using kid_listed [OF ok ok_inner.hyps(1) that] ok_inner.IH that leaf_listed [of c _ "\<lambda>_. True"]
    by (auto simp: collectKeys_leaf)
  from listing_inner [OF ok ok_inner.hyps(1) this] show ?case by (simp add: collectKeys_inner ok_inner.hyps(1,2))
qed

lemma collectRange_ok: "art_ok L path n \<Longrightarrow> \<exists>ks. collectRange n lo hi = Inr ks \<and> keys_listed n (\<lambda>k. lo \<le> k \<and> k \<le> hi) ks"
proof (induction rule: art_ok.induct)
  case (ok_leaf n l path)
  then show ?case using leaf_listed [OF ok_leaf(1), of "\<lambda>k. lo \<le> k \<and> k \<le> hi"] by (simp add: collectRange_leaf)
next
  case (ok_inner n path)
  have ok: "art_ok L path n" using ok_inner by (intro art_ok.ok_inner) auto
  have "\<exists>ks. collectRange c lo hi = Inr ks \<and> keys_listed c (\<lambda>k. lo \<le> k \<and> k \<le> hi) ks" if "kids n b = Some c" for b c
    using kid_listed [OF ok ok_inner.hyps(1) that] ok_inner.IH that leaf_listed [of c _ "\<lambda>k. lo \<le> k \<and> k \<le> hi"]
    by (auto simp: collectRange_leaf)
  from listing_inner [OF ok ok_inner.hyps(1) this] show ?case by (simp add: collectRange_inner ok_inner.hyps(1,2))
qed

lemma prefix_take: "prefix p r \<longleftrightarrow> length p \<le> length r \<and> take (length p) r = p"
  by (metis append_eq_conv_conj append_take_drop_id length_take min.absorb2 prefix_def prefix_length_le)

lemma prefix_from_step:
  assumes n: "an_leaf n = None" "node_ok n" and pre: "prefix path pre" and q: "q = path @ px n"
  shows "prefix_from n pre (length path) =
    (if prefix pre q then collectKeys n
     else if prefix q pre then (case kids n (byte_at pre (length q)) of None \<Rightarrow> Inr [] | Some c \<Rightarrow> prefix_from c pre (length q + 1))
     else Inr [])"
proof -
  obtain r where r: "pre = path @ r" using pre by (auto simp: prefix_def)
  show ?thesis
  proof (cases "an_prefix n")
    case None
    then have "q = path" using q by (simp add: px_def)
    then show ?thesis
      using n(1) None by (subst prefix_from.simps) (auto simp: r findChild_ok [OF n(2)] byte_at_def prefix_def split: option.splits)
  next
    case (Some p)
    then have q': "q = path @ p" using q by (simp add: px_def)
    consider "length p > length r" | "length p \<le> length r" "\<not> prefix p r" | "p = r" | "prefix p r" "length p < length r"
      using prefix_length_less [of p r] unfolding strict_prefix_def by (metis not_less)
    then show ?thesis
    proof cases
      case 1
      then have "prefix r p \<longleftrightarrow> take (length r) p = r" "\<not> prefix p r" by (auto simp: prefix_take [of r p] dest: prefix_length_le)
      then show ?thesis using n(1) Some 1 by (subst prefix_from.simps) (simp add: r q')
    next
      case 2
      then have "p \<noteq> take (length p) r" "\<not> prefix r p" by (auto simp: prefix_take)
      then show ?thesis using n(1) Some 2 by (subst prefix_from.simps) (simp add: r q')
    next
      case 3
      then show ?thesis using n(1) Some by (subst prefix_from.simps) (simp add: r q')
    next
      case 4
      then have "p = take (length p) r" "\<not> prefix r p" by (auto simp: prefix_take)
      then show ?thesis using n(1) Some 4
        by (subst prefix_from.simps) (auto simp: r q' findChild_ok [OF n(2)] byte_at_def split: option.splits)
    qed
  qed
qed

lemma prefix_from_ok:
  "art_ok L path n \<Longrightarrow> nulfree pre \<Longrightarrow> prefix path pre
    \<Longrightarrow> \<exists>ks. prefix_from n pre (length path) = Inr ks \<and> keys_listed n (prefix pre) ks"
proof (induction rule: art_ok.induct)
  case (ok_leaf n l path)
  then show ?case using leaf_listed [OF ok_leaf.hyps(1), of "prefix pre"] by (subst prefix_from.simps) simp
next
  case (ok_inner n path)
  define q where "q = path @ px n"
  have ok: "art_ok L path n" using ok_inner by (intro art_ok.ok_inner) auto
  note ent = inner_entry [OF ok ok_inner.hyps(1), folded q_def]
  note step = prefix_from_step [OF ok_inner.hyps(1,2) ok_inner.prems(2) q_def]
  consider "prefix pre q" | "\<not> prefix pre q" "\<not> prefix q pre" | "prefix q pre" "\<not> prefix pre q" by blast
  then show ?case
  proof cases
    case 1
    obtain ks where ks: "collectKeys n = Inr ks" "keys_listed n (\<lambda>_. True) ks" using collectKeys_ok [OF ok] by blast
    have "{k. prefix pre k \<and> (\<exists>v. entry n k v)} = {k. True \<and> (\<exists>v. entry n k v)}"
      using ent 1 by (auto intro: prefix_order.trans)
    then show ?thesis using step 1 ks by (simp add: keys_listed_def)
  next
    case 2
    then have "{k. prefix pre k \<and> (\<exists>v. entry n k v)} = {}" using ent prefix_same_cases [of pre _ q] by blast
    then show ?thesis using step 2 by (simp add: keys_listed_def)
  next
    case 3
    let ?b = "byte_at pre (length q)"
    have "pre \<noteq> q" using 3(2) by auto
    then have b: "prefix (q @ [?b]) pre" "?b \<noteq> NUL"
      using byte_at_step [OF 3(1)] byte_at_NUL [OF ok_inner.prems(1) 3(1)] by auto
    have ent': "prefix pre k \<and> (\<exists>v. entry n k v) \<longleftrightarrow> (\<exists>c. kids n ?b = Some c \<and> prefix pre k \<and> (\<exists>v. entry c k v))" for k
    proof (cases "prefix pre k")
      case True
      then have "byte_at k (length q) = ?b" using byte_at_prefix prefix_order.trans [OF b(1)] by blast
      then show ?thesis using ent [of k] entry_kid [OF ok_inner.hyps(1), of ?b _ k] True by metis
    qed simp
    show ?thesis
    proof (cases "kids n ?b")
      case None
      then show ?thesis using step 3 ent' by (simp add: keys_listed_def)
    next
      case (Some c)
      then obtain ks where "prefix_from c pre (length q + 1) = Inr ks" "keys_listed c (prefix pre) ks"
        using ok_inner.IH b ok_inner.prems(1) by (fastforce simp: q_def)
      then show ?thesis using step 3 ent' Some by (simp add: keys_listed_def)
    qed
  qed
qed

section \<open>The contract\<close>

definition art_inv :: "nat \<Rightarrow> ARTStore \<Rightarrow> bool" where
  "art_inv L s \<longleftrightarrow> (\<forall>n. ar_root s = Some n \<longrightarrow> art_ok L [] n)"

definition stored :: "ARTStore \<Rightarrow> string \<Rightarrow> string \<Rightarrow> bool" where
  "stored s k v \<longleftrightarrow> (\<exists>n. ar_root s = Some n \<and> entry n k v)"

definition art_abs :: "ARTStore \<Rightarrow> astore" where
  "art_abs s = \<lparr>astr = (\<lambda>k. if nulfree k then case ARTStore_Get k s of Inl _ \<Rightarrow> None | Inr v \<Rightarrow> v else None),
     ahash = ar_hashes s\<rparr>"

lemma art_inv_mono: "art_inv L s \<Longrightarrow> L \<le> L' \<Longrightarrow> art_inv L' s"
  using art_ok_mono by (auto simp: art_inv_def)

lemma Get_stored:
  assumes "art_inv L s" and "nulfree k"
  shows "\<exists>r. ARTStore_Get k s = Inr r \<and> (\<forall>v. r = Some v \<longleftrightarrow> stored s k v)"
proof (cases "ar_root s")
  case (Some n)
  then show ?thesis using get_ok [of L "[]" n k] assms by (auto simp: ARTStore_Get_def art_inv_def stored_def)
qed (auto simp: ARTStore_Get_def stored_def)

lemma stored_nulfree: "art_inv L s \<Longrightarrow> stored s k v \<Longrightarrow> nulfree k"
  using entry_path by (auto simp: stored_def art_inv_def)

lemma abs_stored:
  assumes "art_inv L s"
  shows "astr (art_abs s) k = Some v \<longleftrightarrow> stored s k v"
proof (cases "nulfree k")
  case True
  then obtain r where "ARTStore_Get k s = Inr r" "\<forall>v. r = Some v \<longleftrightarrow> stored s k v" using Get_stored [OF assms] by blast
  then show ?thesis using True by (simp add: art_abs_def)
next
  case False
  then show ?thesis using stored_nulfree [OF assms, of k v] by (auto simp: art_abs_def)
qed

lemma abs_eqI:
  assumes "art_inv L s'" and "\<And>k v. stored s' k v \<longleftrightarrow> m k = Some v"
  shows "astr (art_abs s') = m"
proof
  fix k
  show "astr (art_abs s') k = m k"
    using abs_stored [OF assms(1), of k] assms(2) [of k] by (metis not_Some_eq)
qed

lemma Set_art:
  assumes inv: "art_inv L s" and k: "nulfree k" "length k \<le> L"
  shows "(ARTStore_Set k v s = Inl Deadlock \<and> length k < L)
    \<or> (\<exists>s'. ARTStore_Set k v s = Inr s' \<and> art_inv L s' \<and> art_abs s' = a_set k v (art_abs s))"
proof (cases "ar_root s")
  case None
  let ?s = "s\<lparr>ar_root := Some (newArtLeaf k v)\<rparr>"
  have inv': "art_inv L ?s" using k(1) by (simp add: art_inv_def newArtLeaf_def ok_of_leaf)
  have "astr (art_abs ?s) = (astr (art_abs s))(k \<mapsto> v)"
    using None abs_stored [OF inv] by (intro abs_eqI [OF inv']) (auto simp: stored_def)
  then show ?thesis using None inv' by (simp add: ARTStore_Set_def a_set_def art_abs_def)
next
  case (Some n)
  have "set_result L [] n k v" using set_ok [of L "[]" n k v] inv k Some by (simp add: art_inv_def)
  then consider "set_from n k v 0 = Inl Deadlock" "length k < L"
    | n' where "set_from n k v 0 = Inr n'" "art_ok L [] n'" "set_effect n k v n'"
    by (auto simp: set_result_def)
  then show ?thesis
  proof cases
    case 1
    then show ?thesis using Some by (simp add: ARTStore_Set_def)
  next
    case (2 n')
    let ?s = "s\<lparr>ar_root := Some n'\<rparr>"
    have inv': "art_inv L ?s" using 2(2) by (simp add: art_inv_def)
    have "astr (art_abs ?s) = (astr (art_abs s))(k \<mapsto> v)"
      using Some 2(3) abs_stored [OF inv] by (intro abs_eqI [OF inv']) (auto simp: stored_def set_effect_def)
    then show ?thesis using Some inv' 2(1) by (simp add: ARTStore_Set_def a_set_def art_abs_def)
  qed
qed

lemma Del_art:
  assumes inv: "art_inv L s" and k: "nulfree k"
  shows "\<exists>s'. ARTStore_Del k s = Inr s' \<and> art_inv L s' \<and> art_abs s' = a_del k (art_abs s)"
proof -
  obtain r where r: "(case ar_root s of None \<Rightarrow> Inr None | Some n \<Rightarrow> delNode (Some n) k 0) = Inr r"
    "\<And>n'. r = Some n' \<Longrightarrow> art_ok L [] n'"
    "\<And>k' v'. (\<exists>n'. r = Some n' \<and> entry n' k' v') \<longleftrightarrow> k' \<noteq> k \<and> stored s k' v'"
  proof (cases "ar_root s")
    case None
    then show ?thesis using that [of None] by (simp add: stored_def)
  next
    case (Some n)
    then obtain r where "delNode (Some n) k 0 = Inr r" "del_effect L [] n k r"
      using del_ok [of L "[]" n k] inv k by (auto simp: art_inv_def)
    then show ?thesis using that [of r] Some by (cases r) (auto simp: stored_def del_effect_def)
  qed
  let ?s = "s\<lparr>ar_hashes := (ar_hashes s)(k := None), ar_root := r\<rparr>"
  have set: "ARTStore_Del k s = Inr ?s"
    using r(1) by (cases "ar_root s") (auto simp: ARTStore_Del_def)
  have inv': "art_inv L ?s" using r(2) by (auto simp: art_inv_def)
  have "astr (art_abs ?s) = (astr (art_abs s))(k := None)"
    using r(3) abs_stored [OF inv] by (intro abs_eqI [OF inv']) (auto simp: stored_def)
  then show ?thesis using set inv' by (simp add: a_del_def art_abs_def)
qed

lemma HSet_art:
  assumes "art_inv L s"
  shows "ARTStore_HSet h f v s = Inr s' \<Longrightarrow> art_inv L s' \<and> art_abs s' = a_hset h f v (art_abs s)"
  using assms by (auto simp: ARTStore_HSet_def art_inv_def art_abs_def a_hset_def ARTStore_Get_def)

lemma Get_art: "art_inv L s \<Longrightarrow> nulfree k \<Longrightarrow> ARTStore_Get k s = Inr (astr (art_abs s) k)"
  using Get_stored [of L s k] by (auto simp: art_abs_def)

lemmas art_ops = ARTStore_ops_def ARTStore_HGet_def ARTStore_HGetAll_def

interpretation art: store_impl ARTStore_ops "\<lambda>s. \<exists>L. art_inv L s" art_abs nulfree
proof unfold_locales
  fix s :: ARTStore
  assume "\<exists>L. art_inv L s"
  then obtain L where inv: "art_inv L s" by blast
  show "op_Get ARTStore_ops k s = Inr (astr (art_abs s) k)" if "nulfree k" for k
    using Get_art [OF inv that] by (simp add: art_ops)
  show "op_HSet ARTStore_ops h f v s = Inr s' \<Longrightarrow> (\<exists>L. art_inv L s') \<and> art_abs s' = a_hset h f v (art_abs s)" for h f v s'
    using HSet_art [OF inv, of h f v s'] by (auto simp: ARTStore_ops_def)
  show "op_HGet ARTStore_ops h f s = Inr (hashes_get h f (ahash (art_abs s)))" for h f
    by (simp add: art_ops art_abs_def)
  show "op_HGetAll ARTStore_ops h s = Inr (ahash (art_abs s) h)" for h
    by (simp add: art_ops art_abs_def)
  show "op_Set ARTStore_ops k v s = Inr s' \<Longrightarrow> (\<exists>L. art_inv L s') \<and> art_abs s' = a_set k v (art_abs s)" if "nulfree k" for k v s'
    using Set_art [OF art_inv_mono [OF inv], of "max L (length k)" k v] that by (auto simp: ARTStore_ops_def)
  show "op_Del ARTStore_ops k s = Inr s' \<Longrightarrow> (\<exists>L. art_inv L s') \<and> art_abs s' = a_del k (art_abs s)" if "nulfree k" for k s'
    using Del_art [OF inv that] by (auto simp: ARTStore_ops_def)
qed (simp_all add: ARTStore_ops_def)

lemma listed_sorted_keys:
  assumes "art_inv L s" and "\<And>n. ar_root s = Some n \<Longrightarrow> keys_listed n P ks" and "ar_root s = None \<Longrightarrow> ks = []"
  shows "sorted_keys P (astr (art_abs s)) ks"
proof -
  have "dom (astr (art_abs s)) = {k. \<exists>v. stored s k v}" using abs_stored [OF assms(1)] by (auto simp: dom_def)
  then show ?thesis using assms(2,3) by (cases "ar_root s") (auto simp: sorted_keys_def keys_listed_def stored_def)
qed

interpretation art: ordered_store ARTStore_ops "\<lambda>s. \<exists>L. art_inv L s" art_abs nulfree
  ARTStore_PrefixKeys ARTStore_RangeKeys
proof unfold_locales
  fix s :: ARTStore
  assume "\<exists>L. art_inv L s"
  then obtain L where inv: "art_inv L s" by blast
  show "\<exists>ks. ARTStore_PrefixKeys p s = Inr ks \<and> sorted_keys (prefix p) (astr (art_abs s)) ks" if p: "nulfree p" for p
  proof (cases "ar_root s")
    case None
    then show ?thesis using listed_sorted_keys [OF inv, of "prefix p" "[]"] by (simp add: ARTStore_PrefixKeys_def)
  next
    case (Some n)
    then obtain ks where "prefix_from n p 0 = Inr ks" "keys_listed n (prefix p) ks"
      using prefix_from_ok [of L "[]" n p] inv p by (auto simp: art_inv_def)
    then show ?thesis using listed_sorted_keys [OF inv, of "prefix p" ks] Some by (simp add: ARTStore_PrefixKeys_def)
  qed
  show "\<exists>ks. ARTStore_RangeKeys lo hi s = Inr ks \<and> sorted_keys (\<lambda>k. lo \<le> k \<and> k \<le> hi) (astr (art_abs s)) ks" for lo hi
  proof (cases "ar_root s")
    case None
    then show ?thesis using listed_sorted_keys [OF inv, of _ "[]"] by (simp add: ARTStore_RangeKeys_def)
  next
    case (Some n)
    then obtain ks where ks: "collectRange n lo hi = Inr ks" "keys_listed n (\<lambda>k. lo \<le> k \<and> k \<le> hi) ks"
      using collectRange_ok [of L "[]" n lo hi] inv by (auto simp: art_inv_def)
    then have "sort ks = ks" by (intro sorted_sort_id) (auto simp: keys_listed_def strict_sorted_iff)
    then show ?thesis using listed_sorted_keys [OF inv, of _ ks] Some ks by (simp add: ARTStore_RangeKeys_def)
  qed
qed

text \<open>On keys of one length no call blocks.\<close>

interpretation art_fixed: total_store ARTStore_ops "art_inv L" art_abs "\<lambda>k. nulfree k \<and> length k = L" for L
proof unfold_locales
  fix s :: ARTStore
  assume inv: "art_inv L s"
  show "op_Get ARTStore_ops k s = Inr (astr (art_abs s) k)" if "nulfree k \<and> length k = L" for k
    using Get_art [OF inv] that by (simp add: art_ops)
  show "op_HSet ARTStore_ops h f v s = Inr s' \<Longrightarrow> art_inv L s' \<and> art_abs s' = a_hset h f v (art_abs s)" for h f v s'
    using HSet_art [OF inv] by (auto simp: ARTStore_ops_def)
  show "op_HGet ARTStore_ops h f s = Inr (hashes_get h f (ahash (art_abs s)))" for h f
    by (simp add: art_ops art_abs_def)
  show "op_HGetAll ARTStore_ops h s = Inr (ahash (art_abs s) h)" for h
    by (simp add: art_ops art_abs_def)
  show "op_Set ARTStore_ops k v s = Inr s' \<Longrightarrow> art_inv L s' \<and> art_abs s' = a_set k v (art_abs s)"
    "\<exists>s'. op_Set ARTStore_ops k v s = Inr s'" if "nulfree k \<and> length k = L" for k v s'
    using Set_art [OF inv, of k v] that by (auto simp: ARTStore_ops_def)
  show "op_Del ARTStore_ops k s = Inr s' \<Longrightarrow> art_inv L s' \<and> art_abs s' = a_del k (art_abs s)"
    "\<exists>s'. op_Del ARTStore_ops k s = Inr s'" if "nulfree k \<and> length k = L" for k s'
    using Del_art [OF inv, of k] that by (auto simp: ARTStore_ops_def)
qed (simp_all add: ARTStore_ops_def ARTStore_HSet_def)

lemma NewARTStore_inv: "art_inv L NewARTStore \<and> art_abs NewARTStore = a_empty"
  by (simp add: art_inv_def NewARTStore_def art_abs_def a_empty_def ARTStore_Get_def fun_eq_iff)

section \<open>Calls that block or lose keys\<close>

lemma calls_return_or_block:
  assumes "art_inv L s" and "\<forall>c \<in> set cs. nulfree (call_key c)"
  shows "calls ARTStore_ops cs s = Inl Deadlock \<or> (\<exists>rs s'. calls ARTStore_ops cs s = Inr (rs, s'))"
  using assms
proof (induction cs arbitrary: s L)
  case (Cons c cs)
  consider "call ARTStore_ops c s = Inl Deadlock" | r s1 where "call ARTStore_ops c s = Inr (r, s1)"
  proof (cases c)
    case (CSet k v)
    then show ?thesis
      using that Set_art [OF art_inv_mono [OF Cons.prems(1)], of "max L (length k)" k v] Cons.prems(2)
      by (auto simp: ARTStore_ops_def)
  next
    case (CDel k)
    then show ?thesis using that Del_art [OF Cons.prems(1), of k] Cons.prems(2) by (auto simp: ARTStore_ops_def)
  qed (use that Get_art [OF Cons.prems(1)] Cons.prems(2) in \<open>auto simp: art_ops ARTStore_HSet_def\<close>)
  then show ?case
  proof cases
    case (2 r s1)
    then obtain L' where "art_inv L' s1"
      using art.call_refines [of s c r s1] Cons.prems by auto
    then have "calls ARTStore_ops cs s1 = Inl Deadlock \<or> (\<exists>rs s'. calls ARTStore_ops cs s1 = Inr (rs, s'))"
      using Cons.IH Cons.prems(2) by simp
    then show ?thesis using 2 by auto
  qed simp
qed simp

lemma common_at_least: "length p \<le> length (takeWhile (\<lambda>(a, b). a = b) (zip (p @ x) (p @ y)))"
  by (induction p) auto

lemma short_key_blocks:
  assumes "an_leaf n = None" and "length k < length (px n)"
  shows "set_from n k val 0 = Inl Deadlock"
proof -
  obtain p where p: "an_prefix n = Some p" using assms(2) by (cases "an_prefix n") (auto simp: px_def)
  then have "length k < length p" using assms(2) by (simp add: px_def)
  moreover from this have "splitPrefix n k val = Inl Deadlock" using p by (intro splitPrefix_blocks) auto
  ultimately show ?thesis using assms(1) p by (subst set_from.simps) (simp add: set_prefix_def)
qed

section \<open>Properties\<close>

text \<open>
  C8: On keys without the byte 0, a sequence of calls on a new radix tree either ends in a call that
  blocks forever or replies what the abstract store replies, whatever layouts its nodes grow into: no
  slice is indexed out of range, no nil pointer is followed. Afterwards \<open>PrefixKeys\<close> and \<open>RangeKeys\<close> list,
  in increasing order, exactly the string keys with the prefix or in the range.
\<close>

theorem art_correct:
  assumes "\<forall>c \<in> set cs. nulfree (call_key c)" and "nulfree p" and "nulfree lo" and "nulfree hi"
  shows "calls ARTStore_ops cs NewARTStore = Inl Deadlock
    \<or> (\<exists>s. calls ARTStore_ops cs NewARTStore = Inr (fst (a_calls cs a_empty), s)
        \<and> (\<exists>ks. ARTStore_PrefixKeys p s = Inr ks
              \<and> sorted_keys (\<lambda>k. prefix p k) (astr (snd (a_calls cs a_empty))) ks)
        \<and> (\<exists>ks. ARTStore_RangeKeys lo hi s = Inr ks
              \<and> sorted_keys (\<lambda>k. lo \<le> k \<and> k \<le> hi) (astr (snd (a_calls cs a_empty))) ks))"
proof (cases "calls ARTStore_ops cs NewARTStore = Inl Deadlock")
  case False
  have new: "\<exists>L. art_inv L NewARTStore" using NewARTStore_inv by blast
  obtain rs s where s: "calls ARTStore_ops cs NewARTStore = Inr (rs, s)"
    using calls_return_or_block [of 0 NewARTStore cs] NewARTStore_inv assms(1) False by auto
  have r: "(\<exists>L. art_inv L s) \<and> a_calls cs a_empty = (rs, art_abs s)"
    using art.calls_refine [OF new assms(1) s] NewARTStore_inv by simp
  then show ?thesis
    using s art.PrefixKeys_law [OF conjunct1 [OF r] assms(2)] art.RangeKeys_law [OF conjunct1 [OF r] assms(3,4)] by simp
qed simp

theorem art_correct_witness:
  "\<exists>s ks. calls ARTStore_ops [CSet ''ab'' ''1'', CDel ''b''] NewARTStore = Inr ([RUnit, RUnit], s)
    \<and> ARTStore_PrefixKeys ''a'' s = Inr ks \<and> sorted_keys (\<lambda>k. prefix ''a'' k) [''ab'' \<mapsto> ''1''] ks"
proof -
  let ?cs = "[CSet ''ab'' ''1'', CDel ''b'']"
  have "calls ARTStore_ops ?cs NewARTStore \<noteq> Inl Deadlock"
    by (simp add: ARTStore_ops_def ARTStore_Set_def ARTStore_Del_def NewARTStore_def newArtLeaf_def delNode.simps(2))
  moreover have "a_calls ?cs a_empty = ([RUnit, RUnit], \<lparr>astr = [''ab'' \<mapsto> ''1''], ahash = Map.empty\<rparr>)"
    by (auto simp: a_set_def a_del_def a_empty_def fun_eq_iff)
  ultimately show ?thesis
    using art_correct [of ?cs "''a''" "''a''" "''b''"] by (auto simp: nulfree_def)
qed

text \<open>
  C9: On keys of one length without the byte 0, no call blocks: every sequence of calls returns and
  replies what the abstract store replies.
\<close>

theorem art_fixed_length_returns:
  assumes "\<forall>c \<in> set cs. nulfree (call_key c) \<and> length (call_key c) = L"
  shows "\<exists>s. calls ARTStore_ops cs NewARTStore = Inr (fst (a_calls cs a_empty), s)"
  using art_fixed.calls_correct [of L NewARTStore cs] assms NewARTStore_inv by auto

theorem art_fixed_length_returns_witness:
  "\<exists>s. calls ARTStore_ops [CSet ''ab'' ''1'', CSet ''ac'' ''2'', CGet ''ab''] NewARTStore
    = Inr ([RUnit, RUnit, RVal (Some ''1'')], s)"
  using art_fixed_length_returns [of "[CSet ''ab'' ''1'', CSet ''ac'' ''2'', CGet ''ab'']" 2]
  by (simp add: nulfree_def a_set_def a_empty_def)

text \<open>
  C17: After two keys with a common prefix have been stored, a Set of any key shorter than that prefix
  blocks forever, holding the lock: \<open>splitPrefix\<close> calls \<open>Set\<close> again, which waits for the lock.
\<close>

theorem art_short_key_deadlocks:
  assumes "nulfree k1" and "nulfree k2" and "k1 \<noteq> k2" and "prefix p k1" and "prefix p k2" and "length k < length p"
  shows "calls ARTStore_ops [CSet k1 v1, CSet k2 v2, CSet k v] NewARTStore = Inl Deadlock"
proof -
  define n where "n = newArtLeaf k1 v1"
  let ?l = "\<lparr>al_key = k1, al_value = v1\<rparr>" and ?L = "max (length k1) (length k2)"
  have n: "an_leaf n = Some ?l" by (simp add: n_def newArtLeaf_def)
  have "art_ok ?L [] n" using assms(1) by (simp add: n_def newArtLeaf_def ok_of_leaf)
  then obtain n' where n': "splitLeaf n ?l k2 v2 0 = Inr n'" "an_leaf n' = None" "px n' = take (lcp k1 k2 0) k1"
    using splitLeaf_ok [OF n, of ?L "[]" k2 v2] assms(2,3) by auto
  obtain x y where "k1 = p @ x" "k2 = p @ y" using assms(4,5) by (auto simp: prefix_def)
  then have "length p \<le> lcp k1 k2 0" "length p \<le> length k1" using common_at_least [of p x y] by (simp_all add: lcp_def)
  then have "length k < length (px n')" using n'(3) assms(6) by simp
  then have "set_from n' k v 0 = Inl Deadlock" by (rule short_key_blocks [OF n'(2)])
  moreover have "set_from n k2 v2 0 = Inr n'" using n n'(1) assms(3) by (subst set_from.simps) simp
  ultimately show ?thesis by (simp add: ARTStore_ops_def ARTStore_Set_def NewARTStore_def n_def [symmetric])
qed

theorem art_short_key_deadlocks_witness:
  "calls ARTStore_ops [CSet ''user:1'' ''a'', CSet ''user:2'' ''b'', CSet ''id'' ''c''] NewARTStore = Inl Deadlock"
  by (rule art_short_key_deadlocks [of _ _ "''user:''"]) (simp_all add: nulfree_def)

text \<open>
  C18: The byte 0 stands for the end of a key, so that the key followed by a byte 0 takes its place: once
  it has been stored, the key itself is not found any more.
\<close>

theorem art_nul_key_hides:
  "\<exists>s. calls ARTStore_ops [CSet k v, CSet (k @ [NUL]) w, CGet k] NewARTStore = Inr ([RUnit, RUnit, RVal None], s)"
proof -
  have lcp: "lcp k (k @ [NUL]) 0 = length k" unfolding lcp_def by (induction k) auto
  let ?n = "ArtNode (if k = [] then None else Some k) None artNode4 [NUL, NUL]
    [Some (newArtLeaf (k @ [NUL]) w), Some (newArtLeaf k v)] (\<lambda>_. 0)"
  have "splitLeaf (newArtLeaf k v) \<lparr>al_key = k, al_value = v\<rparr> (k @ [NUL]) w 0 = Inr ?n"
    by (simp add: splitLeaf_def lcp Let_def byte_at_def addChild_def insertAt_def newArtLeaf_def artTypes)
  then have "set_from (newArtLeaf k v) (k @ [NUL]) w 0 = Inr ?n"
    by (subst set_from.simps) (simp add: newArtLeaf_def)
  moreover have "get_from (newArtLeaf k' w) k d = Inr None" if "k' \<noteq> k" for k' k d
    using that by (subst get_from.simps) (simp add: newArtLeaf_def)
  then have "get_from ?n k 0 = Inr None"
    by (subst get_from.simps) (simp add: skip_prefix_def findChild_def index_def artTypes)
  ultimately show ?thesis
    by (simp add: ARTStore_ops_def ARTStore_Set_def ARTStore_Get_def NewARTStore_def)
qed

end
