(* ===== verification/Spec2Isabelle.thy ===== *)
theory Spec2Isabelle
  imports Map_Store Sync_Map_Store Sharded_Store Crdt_Store Bitcask_Store Handler Config Server_Main Lock_Free_Store Skip_List_Store BPTree_Refinement Art_Contract
begin

text \<open>FluxCache.\<close>

end
